(* ===== verification/Sabre_Prelude.thy ===== *)
theory Sabre_Prelude
  imports Main "HOL-Library.Word"
begin

text \<open>
  Shared vocabulary of the development: Go's machine integers (\<open>u64\<close> for \<open>uint64\<close>, \<open>int\<close> with
  \<open>wrap64\<close> for the 64-bit signed \<open>int\<close>), byte slices, the outcome of a Go function that may
  panic or return an error, Go's slice expression, and the contract of a codec, which the hex and
  ABI components provide.
\<close>

type_synonym u8 = "8 word"
type_synonym u64 = "64 word"
type_synonym bytes = "8 word list"

text \<open>The lemmas that evaluate the outcome combinators and slices belong to one collection.\<close>

named_theorems outcome_simps "evaluation of outcomes and slice expressions"

text \<open>
  The equations that let the simplifier evaluate decoders on concrete JSON values; the kernel's
  \<open>code_simp\<close> compares character codes as unary numbers, which is too slow for keys.
\<close>

named_theorems json_eval "evaluation of JSON decoding on literals"

section \<open>Signed 64-bit arithmetic\<close>

text \<open>Go's \<open>int\<close> is 64 bits wide: a sum that leaves the range wraps around.\<close>

definition wrap64 :: "int \<Rightarrow> int" where
  "wrap64 i = (i + 2 ^ 63) mod 2 ^ 64 - 2 ^ 63"

text \<open>The conversion \<open>int(x)\<close> of a \<open>uint64\<close>.\<close>

definition int_of_u64 :: "u64 \<Rightarrow> int" where
  "int_of_u64 w = wrap64 (uint w)"

lemma wrap64_id: "- (2 ^ 63) \<le> i \<Longrightarrow> i < 2 ^ 63 \<Longrightarrow> wrap64 i = i"
  by (simp add: wrap64_def)

lemma wrap64_lower: "- (2 ^ 63) \<le> wrap64 i"
  by (simp add: wrap64_def)

lemma wrap64_upper: "wrap64 i < 2 ^ 63"
  by (simp add: wrap64_def)

lemma unat_of_nat_u64: "n < 2 ^ 64 \<Longrightarrow> unat (of_nat n :: u64) = n"
  by (simp add: unat_of_nat take_bit_nat_eq_self)

lemma int_of_u64_small: "unat w < 2 ^ 63 \<Longrightarrow> int_of_u64 w = int (unat w)"
proof -
  assume "unat w < 2 ^ 63"
  then have "uint w < 2 ^ 63"
    by (simp flip: of_nat_less_iff [where 'a = int])
  then have "wrap64 (uint w) = uint w"
    by (intro wrap64_id) (simp_all add: order_trans [OF _ uint_ge_0])
  then show ?thesis
    by (simp add: int_of_u64_def)
qed

lemma int_of_u64_of_nat: "n < 2 ^ 63 \<Longrightarrow> int_of_u64 (of_nat n) = int n"
  by (simp add: int_of_u64_small unat_of_nat take_bit_nat_eq_self)

section \<open>Outcomes\<close>

text \<open>
  What a Go function that can panic gives back: a panic, an error (the second result of the Go
  function is not nil, or its \<open>ok\<close> is false), or a value.
\<close>

datatype ('e, 'a) outcome = Panic | Fail 'e | Done 'a

fun obind :: "('e, 'a) outcome \<Rightarrow> ('a \<Rightarrow> ('e, 'b) outcome) \<Rightarrow> ('e, 'b) outcome" where
  "obind Panic f = Panic"
| "obind (Fail e) f = Fail e"
| "obind (Done x) f = f x"

text \<open>A guard: the early return of the error when the condition holds.\<close>

definition fail_if :: "bool \<Rightarrow> 'e \<Rightarrow> ('e, 'a) outcome \<Rightarrow> ('e, 'a) outcome" where
  "fail_if b e m = (if b then Fail e else m)"

lemma fail_if_True [outcome_simps]: "fail_if True e m = Fail e"
  by (simp add: fail_if_def)

lemma fail_if_False [outcome_simps]: "fail_if False e m = m"
  by (simp add: fail_if_def)

lemma fail_if_neq_Panic: "m \<noteq> Panic \<Longrightarrow> fail_if b e m \<noteq> Panic"
  by (simp add: fail_if_def)

lemma obind_DoneE:
  assumes "obind m f = Done y"
  obtains x where "m = Done x" and "f x = Done y"
  using assms by (cases m) auto

text \<open>A loop that appends one result per element and returns early on the first error or panic.\<close>

fun omap :: "('a \<Rightarrow> ('e, 'b) outcome) \<Rightarrow> 'a list \<Rightarrow> ('e, 'b list) outcome" where
  "omap f [] = Done []"
| "omap f (x # xs) = obind (f x) (\<lambda>y. obind (omap f xs) (\<lambda>ys. Done (y # ys)))"

lemma omap_Done: "(\<And>x. x \<in> set xs \<Longrightarrow> f x = Done (g x)) \<Longrightarrow> omap f xs = Done (map g xs)"
  by (induction xs) simp_all

lemma omap_neq_Panic: "(\<And>x. x \<in> set xs \<Longrightarrow> f x \<noteq> Panic) \<Longrightarrow> omap f xs \<noteq> Panic"
proof (induction xs)
  case Nil
  then show ?case by simp
next
  case (Cons x xs)
  then have "f x \<noteq> Panic" and "omap f xs \<noteq> Panic" by simp_all
  then show ?case by (cases "f x"; cases "omap f xs") simp_all
qed

lemma obind_neq_Panic: "m \<noteq> Panic \<Longrightarrow> (\<And>x. m = Done x \<Longrightarrow> f x \<noteq> Panic) \<Longrightarrow> obind m f \<noteq> Panic"
  by (cases m) simp_all

lemma omap_Done_length: "omap f xs = Done ys \<Longrightarrow> length ys = length xs"
  by (induction xs arbitrary: ys) (auto elim!: obind_DoneE)

text \<open>The slice expression \<open>xs[lo:hi]\<close>: it panics unless \<open>0 <= lo <= hi <= len(xs)\<close>.\<close>

definition goslice :: "'a list \<Rightarrow> int \<Rightarrow> int \<Rightarrow> ('e, 'a list) outcome" where
  "goslice xs lo hi =
     (if 0 \<le> lo \<and> lo \<le> hi \<and> hi \<le> int (length xs)
      then Done (take (nat (hi - lo)) (drop (nat lo) xs)) else Panic)"

lemma goslice_nat [outcome_simps]:
  "lo \<le> hi \<Longrightarrow> hi \<le> length xs \<Longrightarrow>
   goslice xs (int lo) (int hi) = Done (take (hi - lo) (drop lo xs))"
  by (simp add: goslice_def nat_diff_distrib)

lemma goslice_tail [outcome_simps]:
  "lo \<le> length xs \<Longrightarrow> goslice xs (int lo) (int (length xs)) = Done (drop lo xs)"
  by (simp add: goslice_nat)

section \<open>The contract of a codec\<close>

text \<open>
  A codec is an encoder, a decoder that may fail, and the values the encoder is meant for. Its one
  law is that decoding an encoding gives the value back.
\<close>

locale codec =
  fixes enc :: "'a \<Rightarrow> 'b"
    and dec :: "'b \<Rightarrow> ('e, 'a) outcome"
    and wf :: "'a \<Rightarrow> bool"
  assumes dec_enc: "wf x \<Longrightarrow> dec (enc x) = Done x"
begin

lemma enc_inj: "wf x \<Longrightarrow> wf y \<Longrightarrow> enc x = enc y \<Longrightarrow> x = y"
  by (metis dec_enc outcome.inject(2))

lemma dec_unique: "wf x \<Longrightarrow> dec (enc x) = Done y \<Longrightarrow> y = x"
  by (metis dec_enc outcome.inject(2))

lemma dec_enc_safe: "wf x \<Longrightarrow> dec (enc x) \<noteq> Panic"
  by (simp add: dec_enc)

end

section \<open>Lists\<close>

lemma take_append_length [simp]: "n = length xs \<Longrightarrow> take n (xs @ ys) = xs"
  by simp

lemma drop_append_length [simp]: "n = length xs \<Longrightarrow> drop n (xs @ ys) = ys"
  by simp

lemma length_concat_replicate: "length (concat (replicate n xs)) = n * length xs"
  by (induction n) simp_all

lemma last_snoc_cases:
  assumes "xs \<noteq> []"
  obtains ys y where "xs = ys @ [y]"
  using assms by (cases xs rule: rev_cases) auto

end
