(* ===== verification/Head_Register.thy ===== *)
theory Head_Register
  imports Sabre_Prelude
begin

text \<open>
  The known head of a backend, \<open>internal/backend/backend.go\<close>: an atomic 64-bit register that
  requests and health probes raise (\<open>ObserveHead\<close>) and lower (\<open>HeadBelow\<close>) concurrently, each with a
  compare-and-swap loop. The loops are modelled step by step, one atomic load or swap each; the
  refinement shows that every interleaving amounts to the calls taking effect one at a time.
\<close>

datatype head_op = ObserveHead u64 | HeadBelow u64

section \<open>The loops\<close>

text \<open>
  Where a call stands: before its load, after loading a value, or returned.
\<close>

datatype head_pc = Start | Loaded u64 | Returned

text \<open>The loop's early return on the loaded value, and the value it tries to swap in.\<close>

fun gives_up :: "head_op \<Rightarrow> u64 \<Rightarrow> bool" where
  "gives_up (ObserveHead n) cur \<longleftrightarrow> n \<le> cur"
| "gives_up (HeadBelow n) cur \<longleftrightarrow> cur \<noteq> 0 \<and> cur < n"

fun swap_value :: "head_op \<Rightarrow> u64" where
  "swap_value (ObserveHead n) = n"
| "swap_value (HeadBelow n) = n - 1"

text \<open>The guard before the loop: \<open>HeadBelow(0)\<close> returns at once.\<close>

fun no_loop :: "head_op \<Rightarrow> bool" where
  "no_loop (ObserveHead n) \<longleftrightarrow> False"
| "no_loop (HeadBelow n) \<longleftrightarrow> n = 0"

text \<open>One atomic step of a call, on the register: load, or test and compare-and-swap.\<close>

fun head_step :: "head_op \<Rightarrow> u64 \<times> head_pc \<Rightarrow> u64 \<times> head_pc" where
  "head_step op (r, Start) = (if no_loop op then (r, Returned) else (r, Loaded r))"
| "head_step op (r, Loaded cur) =
     (if gives_up op cur then (r, Returned)
      else if r = cur then (swap_value op, Returned)
      else (r, Start))"
| "head_step op (r, Returned) = (r, Returned)"

section \<open>The effect of a call on its own\<close>

fun apply_head :: "head_op \<Rightarrow> u64 \<Rightarrow> u64" where
  "apply_head (ObserveHead n) cur = (if n \<le> cur then cur else n)"
| "apply_head (HeadBelow n) cur =
     (if n = 0 then cur else if cur \<noteq> 0 \<and> cur < n then cur else n - 1)"

lemma apply_head_split:
  "\<not> no_loop op \<Longrightarrow> apply_head op r = (if gives_up op r then r else swap_value op)"
  by (cases op) auto

lemma apply_head_no_loop: "no_loop op \<Longrightarrow> apply_head op r = r"
  by (cases op) auto

lemma apply_observe_ge: "cur \<le> apply_head (ObserveHead n) cur" "n \<le> apply_head (ObserveHead n) cur"
  by auto

text \<open>Run alone, a call returns after two steps with this effect.\<close>

lemma head_step_alone:
  "\<not> no_loop op \<Longrightarrow> head_step op (head_step op (r, Start)) = (apply_head op r, Returned)"
  by (cases op) auto

text \<open>
  Evidence that a backend lacks block \<open>n\<close> leaves a head below \<open>n\<close>, and one that was known and
  below \<open>n\<close> untouched.
\<close>

lemma apply_HeadBelow_less:
  assumes "n \<noteq> 0"
  shows "apply_head (HeadBelow n) cur < n"
proof (cases "cur \<noteq> 0 \<and> cur < n")
  case True
  then show ?thesis using assms by simp
next
  case False
  have "n - 1 < n"
    using assms by (simp add: word_less_nat_alt unat_minus_one unat_gt_0)
  with False assms show ?thesis by auto
qed

section \<open>Concurrent calls\<close>

record head_sys =
  head_reg :: u64
  head_pcs :: "nat \<Rightarrow> head_pc"

definition head_init :: "u64 \<Rightarrow> head_sys" where
  "head_init r = \<lparr>head_reg = r, head_pcs = (\<lambda>_. Start)\<rparr>"

text \<open>Call \<open>i\<close> performs \<open>ops i\<close>; any call that has not returned may move.\<close>

inductive head_sys_step :: "(nat \<Rightarrow> head_op) \<Rightarrow> head_sys \<Rightarrow> head_sys \<Rightarrow> bool" for ops where
  move: "head_pcs s i \<noteq> Returned \<Longrightarrow> head_step (ops i) (head_reg s, head_pcs s i) = (r, p) \<Longrightarrow>
    head_sys_step ops s (s\<lparr>head_reg := r, head_pcs := (head_pcs s)(i := p)\<rparr>)"

inductive head_reach :: "(nat \<Rightarrow> head_op) \<Rightarrow> u64 \<Rightarrow> head_sys \<Rightarrow> bool" for ops r0 where
  init: "head_reach ops r0 (head_init r0)"
| step: "head_reach ops r0 s \<Longrightarrow> head_sys_step ops s t \<Longrightarrow> head_reach ops r0 t"

inductive_cases head_sys_stepE: "head_sys_step ops s t"

text \<open>
  A call has taken effect once it has returned, or has loaded a value on which it will give up.
\<close>

definition effective :: "(nat \<Rightarrow> head_op) \<Rightarrow> head_sys \<Rightarrow> nat \<Rightarrow> bool" where
  "effective ops s i \<longleftrightarrow>
     (case head_pcs s i of Start \<Rightarrow> False | Loaded cur \<Rightarrow> gives_up (ops i) cur | Returned \<Rightarrow> True)"

text \<open>Only calls that enter the loop load the register.\<close>

definition loops_entered :: "(nat \<Rightarrow> head_op) \<Rightarrow> head_sys \<Rightarrow> bool" where
  "loops_entered ops s \<longleftrightarrow> (\<forall>i cur. head_pcs s i = Loaded cur \<longrightarrow> \<not> no_loop (ops i))"

lemma loops_entered_step:
  assumes "head_sys_step ops s t" and "loops_entered ops s"
  shows "loops_entered ops t"
  using assms(1)
proof (rule head_sys_stepE)
  fix i r p
  assume t: "t = s\<lparr>head_reg := r, head_pcs := (head_pcs s)(i := p)\<rparr>"
    and "head_step (ops i) (head_reg s, head_pcs s i) = (r, p)"
  then have "p = Loaded cur \<Longrightarrow> \<not> no_loop (ops i)" for cur
    by (cases "head_pcs s i") (auto split: if_splits)
  with assms(2) show ?thesis
    by (auto simp: loops_entered_def t)
qed

lemma head_reach_loops_entered: "head_reach ops r0 s \<Longrightarrow> loops_entered ops s"
  by (induction rule: head_reach.induct)
     (auto simp: loops_entered_def head_init_def dest: loops_entered_step [unfolded loops_entered_def])

text \<open>
  Each step of the interleaved loops leaves the register and the set of effective calls alone, or is
  one call taking effect on the register as it stands.
\<close>

lemma head_sys_step_refines:
  assumes "head_sys_step ops s t" and "loops_entered ops s"
  shows "head_reg t = head_reg s \<and> effective ops t = effective ops s
    \<or> (\<exists>i. \<not> effective ops s i \<and> head_reg t = apply_head (ops i) (head_reg s)
          \<and> effective ops t = (effective ops s)(i := True))"
  using assms(1)
proof (rule head_sys_stepE)
  fix i r p
  assume t: "t = s\<lparr>head_reg := r, head_pcs := (head_pcs s)(i := p)\<rparr>"
    and live: "head_pcs s i \<noteq> Returned"
    and step: "head_step (ops i) (head_reg s, head_pcs s i) = (r, p)"
  have eff: "effective ops t = (effective ops s)(i :=
      (case p of Start \<Rightarrow> False | Loaded cur \<Rightarrow> gives_up (ops i) cur | Returned \<Rightarrow> True))"
    by (auto simp: effective_def t fun_eq_iff)
  show ?thesis
  proof (cases "head_pcs s i")
    case Start
    then have "\<not> effective ops s i" by (simp add: effective_def)
    show ?thesis
    proof (cases "p = Returned \<or> gives_up (ops i) (head_reg s)")
      case True
      then have "head_reg t = apply_head (ops i) (head_reg s)"
          and "effective ops t = (effective ops s)(i := True)"
        using Start step eff t
        by (auto simp: apply_head_no_loop apply_head_split split: if_splits)
      with \<open>\<not> effective ops s i\<close> show ?thesis by blast
    next
      case False
      then have "head_reg t = head_reg s" and "effective ops t = (effective ops s)(i := False)"
        using Start step eff t by (auto split: if_splits)
      with \<open>\<not> effective ops s i\<close> show ?thesis by (simp add: fun_upd_idem)
    qed
  next
    case (Loaded cur)
    then have e: "effective ops s i = gives_up (ops i) cur" by (simp add: effective_def)
    have nl: "\<not> no_loop (ops i)"
      using assms(2) Loaded by (simp add: loops_entered_def)
    show ?thesis
      using Loaded step eff t e nl
      by (auto simp: apply_head_split fun_upd_idem split: if_splits)
  next
    case Returned
    with live show ?thesis by simp
  qed
qed

lemma serialization:
  assumes "head_reach ops r0 s"
  shows "\<exists>order. distinct order \<and> set order = {i. effective ops s i}
    \<and> head_reg s = foldl (\<lambda>r i. apply_head (ops i) r) r0 order"
  using assms
proof (induction rule: head_reach.induct)
  case init
  show ?case
    by (rule exI [of _ "[]"]) (simp add: head_init_def effective_def)
next
  case (step s t)
  then obtain order where o: "distinct order" "set order = {i. effective ops s i}"
      "head_reg s = foldl (\<lambda>r i. apply_head (ops i) r) r0 order"
    by blast
  from step.hyps have "loops_entered ops s" by (simp add: head_reach_loops_entered)
  from head_sys_step_refines [OF step.hyps(2) this] show ?case
  proof (elim disjE exE conjE)
    assume "head_reg t = head_reg s" "effective ops t = effective ops s"
    with o show ?thesis by auto
  next
    fix i
    assume "\<not> effective ops s i" "head_reg t = apply_head (ops i) (head_reg s)"
      "effective ops t = (effective ops s)(i := True)"
    with o show ?thesis
      by (intro exI [of _ "order @ [i]"]) auto
  qed
qed

text \<open>
  C7. Whatever the interleaving of concurrent ObserveHead and HeadBelow calls, the register holds
  what the calls that have taken effect give when applied one after the other, each once, in some
  order: the compare-and-swap loops lose no update and apply none twice.
\<close>

theorem head_calls_serialize:
  assumes "head_reach ops r0 s"
  shows "\<exists>order. distinct order \<and> set order = {i. effective ops s i}
    \<and> head_reg s = foldl (\<lambda>r i. apply_head (ops i) r) r0 order"
  using assms by (rule serialization)

definition two_calls :: "nat \<Rightarrow> head_op" where
  "two_calls i = (if i = 0 then ObserveHead 5 else HeadBelow 3)"

text \<open>Call 0 loads 4, call 1 lowers the register to 2, call 0 fails its swap, reloads and sets 5.\<close>

definition two_calls_end :: head_sys where
  "two_calls_end = \<lparr>head_reg = 5, head_pcs = (\<lambda>_. Start)(0 := Returned, 1 := Returned)\<rparr>"

lemma head_reach_move:
  assumes "head_reach ops r0 \<lparr>head_reg = r, head_pcs = f\<rparr>" and "f i \<noteq> Returned"
    and "head_step (ops i) (r, f i) = (r', p)"
  shows "head_reach ops r0 \<lparr>head_reg = r', head_pcs = f(i := p)\<rparr>"
  using head_reach.step [OF assms(1), of "\<lparr>head_reg = r', head_pcs = f(i := p)\<rparr>"]
    head_sys_step.move [of "\<lparr>head_reg = r, head_pcs = f\<rparr>" i ops r' p] assms(2,3)
  by simp

lemma two_calls_reach: "head_reach two_calls 4 two_calls_end"
proof -
  let ?f = "\<lambda>_. Start"
  have "head_reach two_calls 4 \<lparr>head_reg = 4, head_pcs = ?f\<rparr>"
    using head_reach.init [of two_calls 4] by (simp add: head_init_def)
  from head_reach_move [OF this, of 0 4 "Loaded 4"]
  have "head_reach two_calls 4 \<lparr>head_reg = 4, head_pcs = ?f(0 := Loaded 4)\<rparr>"
    by (simp add: two_calls_def)
  from head_reach_move [OF this, of 1 4 "Loaded 4"]
  have "head_reach two_calls 4 \<lparr>head_reg = 4, head_pcs = ?f(0 := Loaded 4, 1 := Loaded 4)\<rparr>"
    by (simp add: two_calls_def)
  from head_reach_move [OF this, of 1 2 Returned]
  have "head_reach two_calls 4 \<lparr>head_reg = 2, head_pcs = ?f(0 := Loaded 4, 1 := Returned)\<rparr>"
    by (simp add: two_calls_def)
  from head_reach_move [OF this, of 0 2 Start]
  have "head_reach two_calls 4 \<lparr>head_reg = 2, head_pcs = ?f(0 := Start, 1 := Returned)\<rparr>"
    by (simp add: two_calls_def fun_upd_twist)
  from head_reach_move [OF this, of 0 2 "Loaded 2"]
  have "head_reach two_calls 4 \<lparr>head_reg = 2, head_pcs = ?f(0 := Loaded 2, 1 := Returned)\<rparr>"
    by (simp add: two_calls_def fun_upd_twist)
  from head_reach_move [OF this, of 0 5 Returned]
  show ?thesis
    by (simp add: two_calls_def two_calls_end_def fun_upd_twist)
qed

theorem head_calls_serialize_witness:
  "\<exists>order. distinct order \<and> set order = {i. effective two_calls two_calls_end i}
    \<and> head_reg two_calls_end = foldl (\<lambda>r i. apply_head (two_calls i) r) 4 order"
  by (rule head_calls_serialize [OF two_calls_reach])

text \<open>
  Without HeadBelow the register only rises, so once every observation has been made it is at
  least each of them.
\<close>

lemma foldl_observe_ge:
  assumes "\<And>i. i \<in> set order \<Longrightarrow> \<exists>n. ops i = ObserveHead n"
  shows "r \<le> foldl (\<lambda>r i. apply_head (ops i) r) r order"
  using assms
proof (induction order arbitrary: r)
  case Nil
  then show ?case by simp
next
  case (Cons i order)
  then obtain n where "ops i = ObserveHead n" by auto
  then have "r \<le> apply_head (ops i) r" by auto
  also have "\<dots> \<le> foldl (\<lambda>r i. apply_head (ops i) r) (apply_head (ops i) r) order"
    using Cons by simp
  finally show ?case by simp
qed

lemma foldl_observe_member:
  assumes "\<And>i. i \<in> set order \<Longrightarrow> \<exists>n. ops i = ObserveHead n"
    and "i \<in> set order" and "ops i = ObserveHead n"
  shows "n \<le> foldl (\<lambda>r i. apply_head (ops i) r) r order"
  using assms(1,2)
proof (induction order arbitrary: r)
  case Nil
  then show ?case by simp
next
  case (Cons j order)
  show ?case
  proof (cases "j = i")
    case True
    have "n \<le> apply_head (ops i) r" using assms(3) by auto
    also have "\<dots> \<le> foldl (\<lambda>r i. apply_head (ops i) r) (apply_head (ops i) r) order"
      using Cons.prems(1) by (intro foldl_observe_ge) simp
    finally show ?thesis using True by simp
  next
    case False
    with Cons show ?thesis by simp
  qed
qed

text \<open>
  When concurrent calls only observe heads, the known head is never below its starting value nor
  below any block a finished call has observed.
\<close>

theorem observed_head_reached:
  assumes "head_reach ops r0 s" and "\<forall>i. \<exists>n. ops i = ObserveHead n"
    and "head_pcs s i = Returned" and "ops i = ObserveHead n"
  shows "r0 \<le> head_reg s \<and> n \<le> head_reg s"
proof -
  obtain order where o: "set order = {i. effective ops s i}"
      "head_reg s = foldl (\<lambda>r i. apply_head (ops i) r) r0 order"
    using serialization [OF assms(1)] by blast
  have "i \<in> set order" using o(1) assms(3) by (simp add: effective_def)
  then show ?thesis
    using foldl_observe_ge [of order ops] foldl_observe_member [of order ops i n] assms(2,4) o(2)
    by simp
qed

lemma two_observers_reach:
  "head_reach (\<lambda>_. ObserveHead 5) 4 \<lparr>head_reg = 5, head_pcs = (\<lambda>_. Start)(0 := Returned)\<rparr>"
proof -
  let ?f = "\<lambda>_. Start :: head_pc"
  have "head_reach (\<lambda>_. ObserveHead 5) 4 \<lparr>head_reg = 4, head_pcs = ?f\<rparr>"
    using head_reach.init [of "\<lambda>_. ObserveHead 5" 4] by (simp add: head_init_def)
  from head_reach_move [OF this, where i = 0 and r' = 4 and p = "Loaded 4"]
  have "head_reach (\<lambda>_. ObserveHead 5) 4 \<lparr>head_reg = 4, head_pcs = ?f(0 := Loaded 4)\<rparr>"
    by simp
  from head_reach_move [OF this, where i = 0 and r' = 5 and p = Returned] show ?thesis by simp
qed

theorem observed_head_reached_witness: "4 \<le> (5 :: u64) \<and> 5 \<le> (5 :: u64)"
  using observed_head_reached [OF two_observers_reach, of 0 5] by simp

end
