(* ===== verification/Go_Text.thy ===== *)
theory Go_Text
  imports Sabre_Prelude
begin

text \<open>
  Go strings and the parts of \<open>strings\<close>, \<open>strconv\<close> and \<open>encoding/hex\<close> the program uses. A string is
  a list of bytes, here the 8-bit characters of HOL; binary data is a list of 8-bit words.
\<close>

section \<open>Prefixes and trimming\<close>

definition code :: "char \<Rightarrow> nat" where
  "code c = of_char c"

definition has_prefix :: "string \<Rightarrow> string \<Rightarrow> bool" where
  "has_prefix p s = (take (length p) s = p)"

definition trim_prefix :: "string \<Rightarrow> string \<Rightarrow> string" where
  "trim_prefix p s = (if has_prefix p s then drop (length p) s else s)"

definition trim_set :: "(char \<Rightarrow> bool) \<Rightarrow> string \<Rightarrow> string" where
  "trim_set P s = rev (dropWhile P (rev (dropWhile P s)))"

lemma has_prefix_append [simp]: "has_prefix p (p @ s)"
  by (simp add: has_prefix_def)

lemma trim_prefix_append [simp]: "trim_prefix p (p @ s) = s"
  by (simp add: trim_prefix_def)

lemma trim_prefix_Cons2 [simp]: "trim_prefix [a, b] (a # b # s) = s"
  by (simp add: trim_prefix_def has_prefix_def)

lemma code_less_256 [simp]: "code c < 256"
  by (simp add: code_def)

section \<open>Hexadecimal digits\<close>

text \<open>The value of a hexadecimal digit, in either case.\<close>

definition hex_val :: "char \<Rightarrow> nat option" where
  "hex_val c =
     (let n = code c in
      if 48 \<le> n \<and> n \<le> 57 then Some (n - 48)
      else if 97 \<le> n \<and> n \<le> 102 then Some (n - 87)
      else if 65 \<le> n \<and> n \<le> 70 then Some (n - 55)
      else None)"

definition hex_digit :: "nat \<Rightarrow> char" where
  "hex_digit n = char_of (if n < 10 then n + 48 else n + 87)"

lemma hex_val_less: "hex_val c = Some n \<Longrightarrow> n < 16"
  by (auto simp: hex_val_def Let_def split: if_splits)

lemma code_hex_digit: "n < 16 \<Longrightarrow> code (hex_digit n) = (if n < 10 then n + 48 else n + 87)"
  by (simp add: hex_digit_def code_def)

lemma hex_val_hex_digit [simp]: "n < 16 \<Longrightarrow> hex_val (hex_digit n) = Some n"
  by (simp add: hex_val_def Let_def code_hex_digit)

section \<open>strconv.ParseUint(s, 16, 64)\<close>

fun hex_nat :: "nat \<Rightarrow> string \<Rightarrow> nat option" where
  "hex_nat acc [] = Some acc"
| "hex_nat acc (c # cs) =
     (case hex_val c of None \<Rightarrow> None | Some d \<Rightarrow> hex_nat (16 * acc + d) cs)"

text \<open>
  The empty string, a byte that is not a hexadecimal digit and a value past 64 bits are errors.
\<close>

definition parse_uint_hex :: "string \<Rightarrow> u64 option" where
  "parse_uint_hex s =
     (if s = [] then None
      else case hex_nat 0 s of
        None \<Rightarrow> None
      | Some n \<Rightarrow> if n < 2 ^ 64 then Some (of_nat n) else None)"

text \<open>Hexadecimal digits of a number, most significant first, as \<open>%x\<close> prints it.\<close>

fun nat_hex :: "nat \<Rightarrow> string" where
  "nat_hex n = (if n < 16 then [hex_digit n] else nat_hex (n div 16) @ [hex_digit (n mod 16)])"

declare nat_hex.simps [simp del]

lemma hex_nat_append:
  "hex_nat acc (xs @ ys) = (case hex_nat acc xs of None \<Rightarrow> None | Some n \<Rightarrow> hex_nat n ys)"
  by (induction xs arbitrary: acc) (simp_all split: option.split)

lemma hex_nat_nat_hex: "hex_nat 0 (nat_hex n) = Some n"
proof (induction n rule: nat_hex.induct)
  case (1 n)
  show ?case
  proof (cases "n < 16")
    case True
    then show ?thesis by (simp add: nat_hex.simps [of n])
  next
    case False
    with "1.IH" have "hex_nat 0 (nat_hex (n div 16)) = Some (n div 16)" by simp
    then show ?thesis
      using False by (simp add: nat_hex.simps [of n] hex_nat_append)
  qed
qed

lemma nat_hex_neq_Nil [simp]: "nat_hex n \<noteq> []"
  by (subst nat_hex.simps) simp

text \<open>A block number printed in hexadecimal is read back as the same 64-bit number.\<close>

lemma parse_uint_hex_nat_hex: "parse_uint_hex (nat_hex (unat w)) = Some w"
  using unsigned_less [of w, where 'a = nat] by (simp add: parse_uint_hex_def hex_nat_nat_hex)

section \<open>encoding/hex\<close>

definition hex_byte :: "u8 \<Rightarrow> string" where
  "hex_byte b = [hex_digit (unat b div 16), hex_digit (unat b mod 16)]"

text \<open>\<open>hex.EncodeToString\<close>, and \<open>fmt.Sprintf("%x", bs)\<close> of a byte slice.\<close>

definition hex_encode :: "bytes \<Rightarrow> string" where
  "hex_encode bs = concat (map hex_byte bs)"

text \<open>\<open>hex.DecodeString\<close>: an odd length and a byte that is not a digit are errors.\<close>

fun hex_decode :: "string \<Rightarrow> bytes option" where
  "hex_decode [] = Some []"
| "hex_decode [c] = None"
| "hex_decode (c # d # cs) =
     (case (hex_val c, hex_val d) of
        (Some h, Some l) \<Rightarrow> map_option (Cons (of_nat (16 * h + l))) (hex_decode cs)
      | _ \<Rightarrow> None)"

lemma unat_u8_less: "unat (b :: u8) < 256"
  using unsigned_less [of b, where 'a = nat] by simp

lemma hex_decode_encode [simp]: "hex_decode (hex_encode bs) = Some bs"
proof (induction bs)
  case Nil
  then show ?case by (simp add: hex_encode_def)
next
  case (Cons b bs)
  have "unat b div 16 < 16" and "unat b mod 16 < 16"
    using unat_u8_less [of b] by simp_all
  moreover have "(of_nat (16 * (unat b div 16) + unat b mod 16) :: u8) = b"
    by simp
  ultimately show ?case
    using Cons.IH by (simp add: hex_encode_def hex_byte_def del: of_nat_add of_nat_mult)
qed

lemma length_hex_encode [simp]: "length (hex_encode bs) = 2 * length bs"
  by (induction bs) (simp_all add: hex_encode_def hex_byte_def)

lemma hex_decode_length: "hex_decode s = Some bs \<Longrightarrow> length s = 2 * length bs"
  by (induction s arbitrary: bs rule: hex_decode.induct) (auto split: option.splits)

interpretation hexc: codec hex_encode
    "\<lambda>s. case hex_decode s of None \<Rightarrow> Fail () | Some bs \<Rightarrow> Done bs" "\<lambda>_. True"
  by unfold_locales simp

lemma hex_encode_inj: "hex_encode xs = hex_encode ys \<longleftrightarrow> xs = ys"
  using hexc.enc_inj by blast

section \<open>Decimal integers: strconv.Itoa, Atoi and ParseInt(s, 10, 64)\<close>

definition is_digit :: "char \<Rightarrow> bool" where
  "is_digit c \<longleftrightarrow> 48 \<le> code c \<and> code c \<le> 57"

definition dec_digit :: "nat \<Rightarrow> char" where
  "dec_digit n = char_of (n + 48)"

definition digits_val :: "string \<Rightarrow> nat" where
  "digits_val ds = foldl (\<lambda>a c. 10 * a + (code c - 48)) 0 ds"

fun itoa :: "nat \<Rightarrow> string" where
  "itoa n = (if n < 10 then [dec_digit n] else itoa (n div 10) @ [dec_digit (n mod 10)])"

declare itoa.simps [simp del]

definition int_text :: "int \<Rightarrow> string" where
  "int_text i = (if i < 0 then ''-'' @ itoa (nat (- i)) else itoa (nat i))"

text \<open>
  An optional sign and at least one digit, in the range of a signed 64-bit integer. Atoi and
  \<open>ParseInt\<close> accept the same strings.
\<close>

definition parse_int_dec :: "string \<Rightarrow> int option" where
  "parse_int_dec s =
     (let neg = has_prefix ''-'' s;
          ds = (if neg \<or> has_prefix ''+'' s then tl s else s);
          v = (if neg then - int (digits_val ds) else int (digits_val ds))
      in if ds \<noteq> [] \<and> list_all is_digit ds \<and> - (2 ^ 63) \<le> v \<and> v < 2 ^ 63
         then Some v else None)"

lemma code_dec_digit: "n < 10 \<Longrightarrow> code (dec_digit n) = n + 48"
  by (simp add: dec_digit_def code_def)

lemma is_digit_dec_digit: "n < 10 \<Longrightarrow> is_digit (dec_digit n)"
  by (simp add: is_digit_def code_dec_digit)

lemma digits_val_snoc: "digits_val (ds @ [c]) = 10 * digits_val ds + (code c - 48)"
  by (simp add: digits_val_def)

lemma itoa_digits: "list_all is_digit (itoa n)"
proof (induction n rule: itoa.induct)
  case (1 n)
  then show ?case
    by (cases "n < 10") (simp_all add: itoa.simps [of n] is_digit_dec_digit)
qed

lemma itoa_neq_Nil [simp]: "itoa n \<noteq> []"
  by (subst itoa.simps) simp

lemma digits_val_itoa [simp]: "digits_val (itoa n) = n"
proof (induction n rule: itoa.induct)
  case (1 n)
  show ?case
  proof (cases "n < 10")
    case True
    then show ?thesis by (simp add: itoa.simps [of n] digits_val_def code_dec_digit)
  next
    case False
    with 1 show ?thesis by (simp add: itoa.simps [of n] digits_val_snoc code_dec_digit)
  qed
qed

lemma has_prefix_single: "has_prefix [c] s \<longleftrightarrow> s \<noteq> [] \<and> hd s = c"
  by (cases s) (auto simp: has_prefix_def)

lemma not_digit_sign: "\<not> is_digit CHR ''-''" "\<not> is_digit CHR ''+''"
  by (simp_all add: is_digit_def code_def)

lemma itoa_unsigned: "\<not> has_prefix ''-'' (itoa n)" "\<not> has_prefix ''+'' (itoa n)"
proof -
  have d: "is_digit (hd (itoa n))"
    using itoa_digits [of n] by (cases "itoa n") simp_all
  then show "\<not> has_prefix ''-'' (itoa n)" "\<not> has_prefix ''+'' (itoa n)"
    using not_digit_sign by (auto simp: has_prefix_single)
qed

text \<open>The decimal rendering of an index is read back as that index.\<close>

lemma parse_int_dec_itoa: "n < 2 ^ 63 \<Longrightarrow> parse_int_dec (itoa n) = Some (int n)"
  by (simp add: parse_int_dec_def Let_def itoa_unsigned itoa_digits)

lemma itoa_inj: "itoa m = itoa n \<longleftrightarrow> m = n"
  by (metis digits_val_itoa)

end
