(* ===== verification/Go_Json.thy ===== *)
theory Go_Json
  imports Go_Text
begin

text \<open>
  The part of \<open>encoding/json\<close> the program relies on. A JSON text is modelled by its value with the
  literals kept as written: a number is its literal, a string is the text between its quotes, an
  object is its members in order with duplicates. What is not kept is the white space between
  tokens. A \<open>json.RawMessage\<close> (or a body of bytes) is then \<open>json option\<close>: \<open>None\<close> for an empty
  message or bytes that are not JSON, on both of which \<open>json.Unmarshal\<close> returns an error.
\<close>

datatype json =
    JNull
  | JBool bool
  | JNum string
  | JStr string
  | JArr "json list"
  | JObj "(string \<times> json) list"

type_synonym raw = "json option"
type_synonym members = "(string \<times> json) list"

section \<open>String literals\<close>

subsection \<open>UTF-8\<close>

definition cont_byte :: "char \<Rightarrow> bool" where
  "cont_byte c \<longleftrightarrow> 128 \<le> code c \<and> code c \<le> 191"

text \<open>
  \<open>tail_ok k lo hi r\<close>: the next \<open>k\<close> bytes of \<open>r\<close> continue a sequence, the first of them in
  the given range.
\<close>

definition tail_ok :: "nat \<Rightarrow> nat \<Rightarrow> nat \<Rightarrow> string \<Rightarrow> bool" where
  "tail_ok k lo hi r =
     (case r of [] \<Rightarrow> False
      | c # r' \<Rightarrow> lo \<le> code c \<and> code c \<le> hi \<and> k - 1 \<le> length r' \<and> list_all cont_byte (take (k - 1) r'))"

text \<open>
  The length of the UTF-8 sequence a string starts with, 0 when it starts with none: the ranges of
  \<open>unicode/utf8\<close>, which exclude overlong forms and surrogates.
\<close>

definition utf8_len :: "string \<Rightarrow> nat" where
  "utf8_len s =
     (case s of [] \<Rightarrow> 0
      | c # r \<Rightarrow>
        (let a = code c in
         if a < 128 then 1
         else if 194 \<le> a \<and> a \<le> 223 then (if tail_ok 1 128 191 r then 2 else 0)
         else if a = 224 then (if tail_ok 2 160 191 r then 3 else 0)
         else if a = 237 then (if tail_ok 2 128 159 r then 3 else 0)
         else if 225 \<le> a \<and> a \<le> 239 then (if tail_ok 2 128 191 r then 3 else 0)
         else if a = 240 then (if tail_ok 3 144 191 r then 4 else 0)
         else if 241 \<le> a \<and> a \<le> 243 then (if tail_ok 3 128 191 r then 4 else 0)
         else if a = 244 then (if tail_ok 3 128 143 r then 4 else 0)
         else 0))"

definition rune_utf8 :: "nat \<Rightarrow> string" where
  "rune_utf8 r =
     (if r < 128 then [char_of r]
      else if r < 2048 then [char_of (192 + r div 64), char_of (128 + r mod 64)]
      else if r < 65536 then
        [char_of (224 + r div 4096), char_of (128 + r div 64 mod 64), char_of (128 + r mod 64)]
      else
        [char_of (240 + r div 262144), char_of (128 + r div 4096 mod 64),
         char_of (128 + r div 64 mod 64), char_of (128 + r mod 64)])"

definition replacement :: string where
  "replacement = rune_utf8 65533"

subsection \<open>Reading a literal\<close>

definition surrogate :: "nat \<Rightarrow> bool" where
  "surrogate r \<longleftrightarrow> 55296 \<le> r \<and> r < 57344"

text \<open>\<open>utf16.DecodeRune\<close>: the rune of a high and a low surrogate.\<close>

definition decode_pair :: "nat \<Rightarrow> nat \<Rightarrow> nat option" where
  "decode_pair r1 r2 =
     (if 55296 \<le> r1 \<and> r1 < 56320 \<and> 56320 \<le> r2 \<and> r2 < 57344
      then Some ((r1 - 55296) * 1024 + (r2 - 56320) + 65536) else None)"

definition hex4 :: "string \<Rightarrow> nat option" where
  "hex4 s = (if 4 \<le> length s then hex_nat 0 (take 4 s) else None)"

text \<open>The value of \<open>\uXXXX\<close> at the start of a string.\<close>

definition getu4 :: "string \<Rightarrow> nat option" where
  "getu4 s = (if has_prefix [CHR 0x5C, CHR ''u''] s then hex4 (drop 2 s) else None)"

definition simple_escape :: "char \<Rightarrow> char option" where
  "simple_escape c =
     (if c = CHR 0x22 \<or> c = CHR 0x5C \<or> c = CHR ''/'' \<or> c = CHR 0x27 then Some c
      else if c = CHR ''b'' then Some (CHR 0x08)
      else if c = CHR ''f'' then Some (CHR 0x0C)
      else if c = CHR ''n'' then Some (CHR 0x0A)
      else if c = CHR ''r'' then Some (CHR 0x0D)
      else if c = CHR ''t'' then Some (CHR 0x09)
      else None)"

text \<open>
  \<open>unquote\<close>: the Go string a literal denotes. Invalid UTF-8 and unpaired surrogates become the
  replacement character.
\<close>

fun unquote :: "string \<Rightarrow> string option" where
  "unquote [] = Some []"
| "unquote (c # cs) =
     (if c = CHR 0x5C then
        (case cs of
           [] \<Rightarrow> None
         | e # r \<Rightarrow>
           (if e = CHR ''u'' then
              (case hex4 r of
                 None \<Rightarrow> None
               | Some r1 \<Rightarrow>
                 (if surrogate r1 then
                    (case Option.bind (getu4 (drop 4 r)) (decode_pair r1) of
                       Some p \<Rightarrow> map_option ((@) (rune_utf8 p)) (unquote (drop 10 r))
                     | None \<Rightarrow> map_option ((@) replacement) (unquote (drop 4 r)))
                  else map_option ((@) (rune_utf8 r1)) (unquote (drop 4 r))))
            else
              (case simple_escape e of
                 None \<Rightarrow> None
               | Some x \<Rightarrow> map_option (Cons x) (unquote r))))
      else if c = CHR 0x22 \<or> code c < 32 then None
      else if utf8_len (c # cs) = 0 then map_option ((@) replacement) (unquote cs)
      else map_option ((@) (take (utf8_len (c # cs)) (c # cs)))
             (unquote (drop (utf8_len (c # cs) - 1) cs)))"

subsection \<open>Writing a literal\<close>

text \<open>\<open>json.Marshal\<close> of a string: what has no literal form in a JSON text embedded in HTML is escaped.\<close>

definition hex4_lit :: "nat \<Rightarrow> string" where
  "hex4_lit n = [CHR 0x5C, CHR ''u'', hex_digit (n div 4096 mod 16), hex_digit (n div 256 mod 16),
     hex_digit (n div 16 mod 16), hex_digit (n mod 16)]"

definition quote_ascii :: "char \<Rightarrow> string" where
  "quote_ascii c =
     (if c = CHR 0x22 \<or> c = CHR 0x5C then [CHR 0x5C, c]
      else if c = CHR 0x08 then [CHR 0x5C, CHR ''b'']
      else if c = CHR 0x0C then [CHR 0x5C, CHR ''f'']
      else if c = CHR 0x0A then [CHR 0x5C, CHR ''n'']
      else if c = CHR 0x0D then [CHR 0x5C, CHR ''r'']
      else if c = CHR 0x09 then [CHR 0x5C, CHR ''t'']
      else if code c < 32 \<or> c = CHR ''<'' \<or> c = CHR ''>'' \<or> c = CHR ''&'' then hex4_lit (code c)
      else [c])"

definition line_sep :: "string \<Rightarrow> bool" where
  "line_sep s \<longleftrightarrow> take 3 s = [CHR 0xE2, CHR 0x80, CHR 0xA8] \<or> take 3 s = [CHR 0xE2, CHR 0x80, CHR 0xA9]"

fun quote :: "string \<Rightarrow> string" where
  "quote [] = []"
| "quote (c # cs) =
     (if code c < 128 then quote_ascii c @ quote cs
      else if utf8_len (c # cs) = 0 then hex4_lit 65533 @ quote cs
      else if line_sep (c # cs) then hex4_lit (8192 + code (cs ! 1) - 128) @ quote (drop 2 cs)
      else take (utf8_len (c # cs)) (c # cs) @ quote (drop (utf8_len (c # cs) - 1) cs))"

text \<open>
  A \<open>json.RawMessage\<close> is marshalled as it is, but for white space and for the characters HTML gives a
  meaning to.
\<close>

fun escape_lit :: "string \<Rightarrow> string" where
  "escape_lit [] = []"
| "escape_lit (c # cs) =
     (if c = CHR ''<'' \<or> c = CHR ''>'' \<or> c = CHR ''&'' then hex4_lit (code c) @ escape_lit cs
      else if line_sep (c # cs) then hex4_lit (8192 + code (cs ! 1) - 128) @ escape_lit (drop 2 cs)
      else c # escape_lit cs)"

fun html_escape :: "json \<Rightarrow> json" where
  "html_escape (JStr l) = JStr (escape_lit l)"
| "html_escape (JArr vs) = JArr (map html_escape vs)"
| "html_escape (JObj ms) = JObj (map (\<lambda>(k, v). (escape_lit k, html_escape v)) ms)"
| "html_escape JNull = JNull"
| "html_escape (JBool b) = JBool b"
| "html_escape (JNum l) = JNum l"

definition jstring :: "string \<Rightarrow> json" where
  "jstring s = JStr (quote s)"

text \<open>A nil message is marshalled as null.\<close>

definition marshal_raw :: "raw \<Rightarrow> json" where
  "marshal_raw r = (case r of None \<Rightarrow> JNull | Some j \<Rightarrow> html_escape j)"

subsection \<open>Plain strings\<close>

text \<open>
  A plain string needs no escape: hexadecimal data, method names and block tags are plain.
\<close>

definition plain_char :: "char \<Rightarrow> bool" where
  "plain_char c \<longleftrightarrow> 32 \<le> code c \<and> code c < 128 \<and> c \<noteq> CHR 0x22 \<and> c \<noteq> CHR 0x5C
     \<and> c \<noteq> CHR ''<'' \<and> c \<noteq> CHR ''>'' \<and> c \<noteq> CHR ''&''"

abbreviation plain :: "string \<Rightarrow> bool" where
  "plain s \<equiv> list_all plain_char s"

lemma utf8_len_ascii: "code c < 128 \<Longrightarrow> utf8_len (c # cs) = 1"
  by (simp add: utf8_len_def Let_def)

lemma unquote_Cons:
  assumes "plain_char c"
  shows "unquote (c # cs) = map_option (Cons c) (unquote cs)"
proof -
  have c: "c \<noteq> CHR 0x5C" "\<not> (c = CHR 0x22 \<or> code c < 32)" and u: "utf8_len (c # cs) = 1"
    using assms utf8_len_ascii [of c cs] by (auto simp: plain_char_def)
  have "(@) (take 1 (c # cs)) = Cons c"
    by (simp add: fun_eq_iff)
  then show ?thesis
    by (subst unquote.simps) (simp only: c u if_False diff_self_eq_0 drop_0 one_neq_zero)
qed

lemma code_controls:
  "code (CHR 0x08) = 8" "code (CHR 0x0C) = 12" "code (CHR 0x0A) = 10" "code (CHR 0x0D) = 13"
  "code (CHR 0x09) = 9"
  by (simp_all add: code_def)

lemma printable_not_control:
  assumes "32 \<le> code c"
  shows "c \<noteq> CHR 0x08" "c \<noteq> CHR 0x0C" "c \<noteq> CHR 0x0A" "c \<noteq> CHR 0x0D" "c \<noteq> CHR 0x09"
  using assms code_controls by fastforce+

lemma quote_Cons:
  assumes "plain_char c"
  shows "quote (c # cs) = c # quote cs"
proof -
  have p: "32 \<le> code c" "code c < 128" "c \<noteq> CHR 0x22" "c \<noteq> CHR 0x5C" "c \<noteq> CHR ''<''"
      "c \<noteq> CHR ''>''" "c \<noteq> CHR ''&''"
    using assms by (simp_all add: plain_char_def)
  then have "\<not> code c < 32" by linarith
  then have "quote_ascii c = [c]"
    unfolding quote_ascii_def
    by (simp only: p printable_not_control [OF p(1)] if_False simp_thms)
  then show ?thesis
    by (subst quote.simps) (simp only: p if_True append_Cons append_Nil)
qed

declare unquote.simps(2) [simp del] quote.simps(2) [simp del]

lemma unquote_plain [simp]: "plain s \<Longrightarrow> unquote s = Some s"
  by (induction s) (simp_all add: unquote_Cons)

lemma quote_plain [simp]: "plain s \<Longrightarrow> quote s = s"
  by (induction s) (simp_all add: quote_Cons)

lemma plain_hex_digit: "n < 16 \<Longrightarrow> plain_char (hex_digit n)"
  using code_hex_digit [of n]
  by (auto simp: plain_char_def code_def split: if_splits)

lemma plain_hex_encode [simp]: "plain (hex_encode bs)"
proof (induction bs)
  case Nil
  then show ?case by (simp add: hex_encode_def)
next
  case (Cons b bs)
  then show ?case
    using unat_u8_less [of b] by (simp add: hex_encode_def hex_byte_def plain_hex_digit)
qed

lemma plain_itoa [simp]: "plain (itoa n)"
proof -
  have "plain_char c" if "is_digit c" for c
    using that by (auto simp: plain_char_def is_digit_def code_def)
  then show ?thesis
    using itoa_digits [of n] by (auto simp: list_all_iff)
qed

subsection \<open>Reading what was written\<close>

lemma hex4_hex4_lit:
  assumes "n < 65536"
  shows "hex4 (drop 2 (hex4_lit n @ r)) = Some n"
proof -
  have up: "16 * (m div 16) + m mod 16 = m" for m :: nat by simp
  have d: "n div 256 = n div 16 div 16" "n div 4096 = n div 16 div 16 div 16" by (simp_all add: div_mult2_eq [symmetric])
  have "16 * (16 * (16 * (n div 4096) + n div 256 mod 16) + n div 16 mod 16) + n mod 16 = n"
    by (simp only: d up)
  moreover have "n div 4096 mod 16 = n div 4096" "n div 4096 < 16" using assms by simp_all
  ultimately show ?thesis by (simp add: hex4_def hex4_lit_def)
qed

lemma unquote_hex4_lit:
  assumes "n < 65536" and "\<not> surrogate n"
  shows "unquote (hex4_lit n @ r) = map_option ((@) (rune_utf8 n)) (unquote r)"
  using hex4_hex4_lit [OF assms(1), of r] assms(2) by (simp add: hex4_lit_def unquote.simps(2))

lemma code_char_of: "n < 256 \<Longrightarrow> code (char_of n) = n"
  by (simp add: code_def)

lemma char_of_code [simp]: "char_of (code c) = c"
  by (simp add: code_def)

text \<open>What is escaped stays what it was, or becomes a rune beyond ASCII: no plain character comes of it.\<close>

lemma unquote_quote_odd:
  assumes "\<not> plain_char c" and "unquote (quote (c # cs)) = Some s"
  shows "\<exists>d s'. s = d # s' \<and> \<not> plain_char d"
proof (cases "code c < 128")
  case True
  then have q: "unquote (quote_ascii c @ quote cs) = Some s" using assms(2) by (simp add: quote.simps(2))
  have "unquote (quote_ascii c @ r) = map_option (Cons c) (unquote r)" for r
  proof -
    have esc: "unquote (hex4_lit (code c) @ r) = map_option (Cons c) (unquote r)"
      using True by (subst unquote_hex4_lit) (auto simp: surrogate_def rune_utf8_def fun_eq_iff intro!: arg_cong2 [where f = map_option])
    have lit: "quote_ascii c = [c]" if "c \<noteq> CHR 0x22" "c \<noteq> CHR 0x5C" "\<not> code c < 32" "c \<noteq> CHR ''<''" "c \<noteq> CHR ''>''" "c \<noteq> CHR ''&''"
      using that printable_not_control [of c] by (simp add: quote_ascii_def)
    have "c = CHR 0x22 \<or> c = CHR 0x5C \<or> code c < 32 \<or> c = CHR ''<'' \<or> c = CHR ''>'' \<or> c = CHR ''&''"
      using assms(1) True by (auto simp: plain_char_def)
    then show ?thesis
      using esc by (auto simp: quote_ascii_def unquote.simps(2) simple_escape_def)
  qed
  then show ?thesis using q assms(1) by auto
next
  case False
  have wide: "\<not> plain_char d" if "128 \<le> code d" for d using that by (simp add: plain_char_def)
  consider (bad) "utf8_len (c # cs) = 0" | (sep) "utf8_len (c # cs) \<noteq> 0" "line_sep (c # cs)"
    | (rune) "utf8_len (c # cs) \<noteq> 0" "\<not> line_sep (c # cs)" by blast
  then show ?thesis
  proof cases
    case bad
    then have "unquote (hex4_lit 65533 @ quote cs) = Some s" using assms(2) False by (simp add: quote.simps(2))
    then show ?thesis
      by (subst (asm) unquote_hex4_lit) (auto simp: surrogate_def rune_utf8_def code_char_of intro!: wide)
  next
    case sep
    let ?n = "8192 + code (cs ! 1) - 128"
    have u: "unquote (hex4_lit ?n @ quote (drop 2 cs)) = Some s" using sep assms(2) False by (simp add: quote.simps(2))
    have "code (cs ! 1) = 168 \<or> code (cs ! 1) = 169"
      using sep(2) by (cases cs; cases "tl cs") (auto simp: line_sep_def code_def)
    then show ?thesis
      using u by (subst (asm) unquote_hex4_lit) (auto simp: surrogate_def rune_utf8_def code_char_of intro!: wide)
  next
    case rune
    let ?k = "utf8_len (c # cs)"
    have "quote (c # cs) = c # take (?k - 1) cs @ quote (drop (?k - 1) cs)"
      using rune False by (cases ?k) (simp_all add: quote.simps(2))
    then obtain r where r: "unquote (c # r) = Some s" using assms(2) by metis
    have c: "c \<noteq> CHR 0x5C" "\<not> (c = CHR 0x22 \<or> code c < 32)" using False by (auto simp: code_def)
    show ?thesis
    proof (cases "utf8_len (c # r)")
      case 0
      then show ?thesis using r c by (auto simp: unquote.simps(2) replacement_def rune_utf8_def code_char_of intro!: wide)
    next
      case (Suc k)
      then show ?thesis using r c False by (auto simp: unquote.simps(2) intro!: wide)
    qed
  qed
qed

lemma unquote_quote_Cons:
  assumes "unquote (quote k) = Some (d # s)" and "plain_char d"
  shows "\<exists>k'. k = d # k' \<and> unquote (quote k') = Some s"
proof (cases k)
  case Nil
  then show ?thesis using assms by simp
next
  case (Cons c cs)
  have "plain_char c" using unquote_quote_odd [of c cs] assms Cons by (cases "plain_char c") auto
  then show ?thesis using assms(1) Cons by (auto simp: quote_Cons unquote_Cons)
qed

lemma unquote_quote_Nil: "unquote (quote k) = Some [] \<Longrightarrow> k = []"
proof (cases k)
  case (Cons c cs)
  assume "unquote (quote k) = Some []"
  then show ?thesis
    using unquote_quote_odd [of c cs] Cons by (cases "plain_char c") (auto simp: quote_Cons unquote_Cons)
qed simp

section \<open>json.Unmarshal into Go values\<close>

subsection \<open>Field names\<close>

text \<open>
  A member of an object goes to the struct field its key names, exactly or up to case. The folding
  of \<open>encoding/json\<close> also maps the Kelvin sign to K and the long s to S.
\<close>

definition upcase :: "char \<Rightarrow> char" where
  "upcase c = (if 97 \<le> code c \<and> code c \<le> 122 then char_of (code c - 32) else c)"

fun fold_name :: "string \<Rightarrow> string" where
  "fold_name [] = []"
| "fold_name (c # cs) =
     (if take 3 (c # cs) = [CHR 0xE2, CHR 0x84, CHR 0xAA] then CHR ''K'' # fold_name (drop 2 cs)
      else if take 2 (c # cs) = [CHR 0xC5, CHR 0xBF] then CHR ''S'' # fold_name (drop 1 cs)
      else upcase c # fold_name cs)"

definition key_is :: "string \<Rightarrow> string \<Rightarrow> bool" where
  "key_is f k = (case unquote k of None \<Rightarrow> False | Some s \<Rightarrow> fold_name s = fold_name f)"

text \<open>The values given to a field, in the order of the object.\<close>

definition field_values :: "string \<Rightarrow> members \<Rightarrow> json list" where
  "field_values f ms = map snd (filter (\<lambda>(k, v). key_is f k) ms)"

subsection \<open>Targets\<close>

text \<open>A struct: null leaves every field at its zero value, another kind of value is an error.\<close>

definition as_struct :: "raw \<Rightarrow> members option" where
  "as_struct r = (case r of Some (JObj ms) \<Rightarrow> Some ms | Some JNull \<Rightarrow> Some [] | _ \<Rightarrow> None)"

text \<open>A slice of raw messages: null is the nil slice.\<close>

definition as_slice :: "raw \<Rightarrow> json list option" where
  "as_slice r = (case r of Some (JArr vs) \<Rightarrow> Some vs | Some JNull \<Rightarrow> Some [] | _ \<Rightarrow> None)"

text \<open>A string: null leaves it empty.\<close>

definition as_string :: "raw \<Rightarrow> string option" where
  "as_string r = (case r of Some (JStr l) \<Rightarrow> unquote l | Some JNull \<Rightarrow> Some [] | _ \<Rightarrow> None)"

text \<open>A field of type \<open>json.RawMessage\<close>: the last value given, None (nil) when there is none.\<close>

definition raw_field :: "string \<Rightarrow> members \<Rightarrow> raw" where
  "raw_field f ms = (case rev (field_values f ms) of [] \<Rightarrow> None | v # _ \<Rightarrow> Some v)"

text \<open>
  A field of type \<open>string\<close>: each value in turn; null keeps what is there, and a value of another
  kind is an error of the whole call (None).
\<close>

fun set_strings :: "string \<Rightarrow> json list \<Rightarrow> string option" where
  "set_strings s [] = Some s"
| "set_strings s (JNull # vs) = set_strings s vs"
| "set_strings s (JStr l # vs) =
     (case unquote l of None \<Rightarrow> None | Some s' \<Rightarrow> set_strings s' vs)"
| "set_strings s (_ # vs) = None"

definition string_field :: "string \<Rightarrow> members \<Rightarrow> string option" where
  "string_field f ms = set_strings [] (field_values f ms)"

text \<open>A field of type \<open>*string\<close>: null makes it nil again.\<close>

fun set_string_ptrs :: "string option \<Rightarrow> json list \<Rightarrow> string option option" where
  "set_string_ptrs p [] = Some p"
| "set_string_ptrs p (JNull # vs) = set_string_ptrs None vs"
| "set_string_ptrs p (JStr l # vs) =
     (case unquote l of None \<Rightarrow> None | Some s' \<Rightarrow> set_string_ptrs (Some s') vs)"
| "set_string_ptrs p (_ # vs) = None"

definition string_ptr_field :: "string \<Rightarrow> members \<Rightarrow> string option option" where
  "string_ptr_field f ms = set_string_ptrs None (field_values f ms)"

text \<open>A field of type \<open>int\<close>: the literal must be an integer in range.\<close>

fun set_ints :: "int \<Rightarrow> json list \<Rightarrow> int option" where
  "set_ints i [] = Some i"
| "set_ints i (JNull # vs) = set_ints i vs"
| "set_ints i (JNum l # vs) =
     (case parse_int_dec l of None \<Rightarrow> None | Some i' \<Rightarrow> set_ints i' vs)"
| "set_ints i (_ # vs) = None"

definition int_field :: "string \<Rightarrow> members \<Rightarrow> int option" where
  "int_field f ms = set_ints 0 (field_values f ms)"

subsection \<open>Untyped targets\<close>

text \<open>
  A value decoded into \<open>any\<close> has its numbers read as \<open>float64\<close>, which is an error when the literal
  is out of range: at or above the midpoint between the largest finite number and the next power of
  two.
\<close>

definition num_mantissa :: "string \<Rightarrow> nat \<times> int" where
  "num_mantissa l =
     (let u = (if has_prefix ''-'' l then tl l else l);
          ip = takeWhile is_digit u;
          r1 = dropWhile is_digit u;
          fp = (if has_prefix ''.'' r1 then takeWhile is_digit (tl r1) else []);
          r2 = (if has_prefix ''.'' r1 then dropWhile is_digit (tl r1) else r1);
          ex = (if r2 = [] then 0
                else let s = tl r2 in
                  if has_prefix ''-'' s then - int (digits_val (tl s))
                  else if has_prefix ''+'' s then int (digits_val (tl s))
                  else int (digits_val s))
      in (digits_val (ip @ fp), ex - int (length fp)))"

definition num_in_range :: "string \<Rightarrow> bool" where
  "num_in_range l =
     (case num_mantissa l of (m, e) \<Rightarrow>
        m = 0 \<or>
        (if 0 \<le> e then m * 10 ^ nat e < 2 ^ 1024 - 2 ^ 970
         else m < (2 ^ 1024 - 2 ^ 970) * 10 ^ nat (- e)))"

fun any_ok :: "json \<Rightarrow> bool" where
  "any_ok (JNum l) = num_in_range l"
| "any_ok (JArr vs) = list_all any_ok vs"
| "any_ok (JObj ms) = list_all (\<lambda>(k, v). any_ok v) ms"
| "any_ok _ = True"

text \<open>
  A \<open>map[string]any\<close>: keys are compared exactly, and a later duplicate replaces an earlier one.
\<close>

definition as_any_map :: "raw \<Rightarrow> members option" where
  "as_any_map r =
     (case r of
        Some (JObj ms) \<Rightarrow> if any_ok (JObj ms) then Some ms else None
      | Some JNull \<Rightarrow> Some []
      | _ \<Rightarrow> None)"

definition map_get :: "string \<Rightarrow> members \<Rightarrow> raw" where
  "map_get f ms =
     (case rev (filter (\<lambda>(k, v). unquote k = Some f) ms) of [] \<Rightarrow> None | (k, v) # _ \<Rightarrow> Some v)"

text \<open>The type assertion \<open>m[f].(string)\<close> with its \<open>ok\<close>.\<close>

definition map_get_string :: "string \<Rightarrow> members \<Rightarrow> string option" where
  "map_get_string f ms = (case map_get f ms of Some (JStr l) \<Rightarrow> unquote l | _ \<Rightarrow> None)"

text \<open>A \<open>[]any\<close>.\<close>

definition as_any_slice :: "raw \<Rightarrow> json list option" where
  "as_any_slice r =
     (case r of
        Some (JArr vs) \<Rightarrow> if any_ok (JArr vs) then Some vs else None
      | Some JNull \<Rightarrow> Some []
      | _ \<Rightarrow> None)"

section \<open>Evaluation lemmas\<close>

lemma field_values_Nil [simp]: "field_values f [] = []"
  by (simp add: field_values_def)

lemma field_values_Cons [simp]:
  "field_values f ((k, v) # ms) = (if key_is f k then v # field_values f ms else field_values f ms)"
  by (simp add: field_values_def)

lemma raw_field_no_values: "field_values f ms = [] \<Longrightarrow> raw_field f ms = None"
  by (simp add: raw_field_def)

lemma raw_field_last: "field_values f ms = vs @ [v] \<Longrightarrow> raw_field f ms = Some v"
  by (simp add: raw_field_def)

lemma as_struct_simps [simp]:
  "as_struct None = None" "as_struct (Some (JObj ms)) = Some ms" "as_struct (Some JNull) = Some []"
  "as_struct (Some (JArr vs)) = None" "as_struct (Some (JStr l)) = None"
  "as_struct (Some (JNum l)) = None" "as_struct (Some (JBool b)) = None"
  by (simp_all add: as_struct_def)

lemma as_string_simps [simp]:
  "as_string None = None" "as_string (Some JNull) = Some []" "as_string (Some (JStr l)) = unquote l"
  "as_string (Some (JArr vs)) = None" "as_string (Some (JObj ms)) = None"
  "as_string (Some (JNum l)) = None" "as_string (Some (JBool b)) = None"
  by (simp_all add: as_string_def)

lemma as_slice_simps [simp]:
  "as_slice None = None" "as_slice (Some (JArr vs)) = Some vs" "as_slice (Some JNull) = Some []"
  "as_slice (Some (JObj ms)) = None" "as_slice (Some (JStr l)) = None"
  "as_slice (Some (JNum l)) = None" "as_slice (Some (JBool b)) = None"
  by (simp_all add: as_slice_def)

text \<open>A key written exactly as the field is named, without escapes, goes to that field.\<close>

lemma key_is_refl [simp]: "plain f \<Longrightarrow> key_is f f"
  by (simp add: key_is_def)

lemma key_is_plain [json_eval]: "plain k \<Longrightarrow> key_is f k \<longleftrightarrow> fold_name k = fold_name f"
  by (simp add: key_is_def)

lemma map_get_Nil [simp]: "map_get f [] = None"
  by (simp add: map_get_def)

declare plain_char_def [json_eval] code_def [json_eval] upcase_def [json_eval]
  string_field_def [json_eval] raw_field_def [json_eval] string_ptr_field_def [json_eval]
  int_field_def [json_eval] map_get_def [json_eval] map_get_string_def [json_eval]
  has_prefix_def [json_eval] parse_uint_hex_def [json_eval] hex_val_def [json_eval]
  as_any_map_def [json_eval] as_any_slice_def [json_eval] Let_def [json_eval]

end
