(* ===== verification/Block_Info.thy ===== *)
theory Block_Info
  imports Go_Json
begin

text \<open>
  What a request and a response say about blocks: \<open>internal/backend/head.go\<close> and the inspection
  functions of \<open>internal/backend/cache.go\<close>. Requests carry a method name and raw parameters, a
  response is the raw body.
\<close>

section \<open>Quantities\<close>

definition hex_prefixed :: "string \<Rightarrow> bool" where
  "hex_prefixed s \<longleftrightarrow> has_prefix ''0x'' s \<or> has_prefix ''0X'' s"

definition quantityFromRaw :: "raw \<Rightarrow> u64" where
  "quantityFromRaw r =
     (case as_string r of
        None \<Rightarrow> 0
      | Some s \<Rightarrow>
        if \<not> hex_prefixed s then 0
        else (case parse_uint_hex (drop 2 s) of None \<Rightarrow> 0 | Some n \<Rightarrow> n))"

definition isQuantity :: "raw \<Rightarrow> bool" where
  "isQuantity r =
     (case as_string r of
        None \<Rightarrow> False
      | Some s \<Rightarrow> hex_prefixed s \<and> parse_uint_hex (drop 2 s) \<noteq> None)"

text \<open>A block number as a client writes it.\<close>

definition quantity :: "u64 \<Rightarrow> json" where
  "quantity n = JStr (''0x'' @ nat_hex (unat n))"

lemma plain_nat_hex [simp]: "plain (nat_hex n)"
proof (induction n rule: nat_hex.induct)
  case (1 n)
  then show ?case
    by (cases "n < 16") (simp_all add: nat_hex.simps [of n] plain_hex_digit)
qed

lemma plain_0x [simp]: "plain ''0x''"
  by code_simp

lemma as_string_quantity [simp]: "as_string (Some (quantity n)) = Some (''0x'' @ nat_hex (unat n))"
proof -
  have "plain (''0x'' @ nat_hex (unat n))"
    by (simp only: list_all_append plain_0x plain_nat_hex simp_thms)
  then show ?thesis
    by (simp only: quantity_def as_string_simps unquote_plain)
qed

lemma hex_prefixed_0x [simp]: "hex_prefixed (''0x'' @ s)"
  by (simp add: hex_prefixed_def has_prefix_def)

lemma quantityFromRaw_quantity [simp]: "quantityFromRaw (Some (quantity n)) = n"
  by (simp only: quantityFromRaw_def as_string_quantity option.case hex_prefixed_0x if_False simp_thms)
     (simp add: parse_uint_hex_nat_hex)

lemma isQuantity_quantity [simp]: "isQuantity (Some (quantity n))"
  by (simp only: isQuantity_def as_string_quantity option.case hex_prefixed_0x simp_thms)
     (simp add: parse_uint_hex_nat_hex)

lemma quantityFromRaw_None [simp]: "quantityFromRaw None = 0"
  by (simp add: quantityFromRaw_def)

lemma quantityFromRaw_JNull [simp]: "quantityFromRaw (Some JNull) = 0"
  by (simp add: quantityFromRaw_def hex_prefixed_def has_prefix_def)

text \<open>A message that is no quantity counts as block 0, the value of a missing one.\<close>

lemma quantityFromRaw_pos_isQuantity: "quantityFromRaw r \<noteq> 0 \<Longrightarrow> isQuantity r"
  by (auto simp: quantityFromRaw_def isQuantity_def split: option.splits if_splits)

section \<open>The block a request is pinned to\<close>

definition blockParamIndex :: "string \<Rightarrow> nat option" where
  "blockParamIndex = map_of
     [(''eth_getBalance'', 1), (''eth_getCode'', 1), (''eth_getTransactionCount'', 1),
      (''eth_getStorageAt'', 2), (''eth_call'', 1), (''eth_getProof'', 2),
      (''eth_getBlockByNumber'', 0), (''eth_getBlockTransactionCountByNumber'', 0),
      (''debug_traceBlockByNumber'', 0)]"

text \<open>A slice of structs: one element of another kind is an error of the whole call.\<close>

definition as_structs :: "raw \<Rightarrow> members list option" where
  "as_structs r =
     (case as_slice r of None \<Rightarrow> None | Some vs \<Rightarrow> those (map (\<lambda>v. as_struct (Some v)) vs))"

definition RequiredHead :: "string \<Rightarrow> raw \<Rightarrow> u64" where
  "RequiredHead method params =
     (if method = ''eth_getLogs'' then
        (case as_structs params of
           Some (f # _) \<Rightarrow> quantityFromRaw (raw_field ''toBlock'' f)
         | _ \<Rightarrow> 0)
      else
        (case blockParamIndex method of
           None \<Rightarrow> 0
         | Some idx \<Rightarrow>
           (case as_slice params of
              None \<Rightarrow> 0
            | Some items \<Rightarrow>
              if length items \<le> idx then 0 else quantityFromRaw (Some (items ! idx)))))"

text \<open>
  \<open>namesBlock\<close>: a hexadecimal number, or an EIP-1898 object with a block hash or number.
\<close>

definition namesBlock :: "raw \<Rightarrow> bool" where
  "namesBlock r =
     (if isQuantity r then True
      else
        (case as_struct r of
           None \<Rightarrow> False
         | Some ms \<Rightarrow>
           (case string_field ''blockHash'' ms of
              None \<Rightarrow> False
            | Some h \<Rightarrow> h \<noteq> [] \<or> isQuantity (raw_field ''blockNumber'' ms))))"

definition pinnedToBlock :: "string \<Rightarrow> raw \<Rightarrow> bool" where
  "pinnedToBlock method params =
     (case blockParamIndex method of
        None \<Rightarrow> False
      | Some idx \<Rightarrow>
        (case as_slice params of
           None \<Rightarrow> False
         | Some items \<Rightarrow> if length items \<le> idx then False else namesBlock (Some (items ! idx))))"

text \<open>
  The \<open>eth_getLogs\<close> filters: every element has to decode, the first one decides.
\<close>

definition decode_filter :: "members \<Rightarrow> (string \<times> raw \<times> raw) option" where
  "decode_filter ms =
     (case string_field ''blockHash'' ms of
        None \<Rightarrow> None
      | Some h \<Rightarrow> Some (h, raw_field ''fromBlock'' ms, raw_field ''toBlock'' ms))"

definition logsPinned :: "raw \<Rightarrow> bool" where
  "logsPinned params =
     (case as_structs params of
        None \<Rightarrow> False
      | Some fs \<Rightarrow>
        (case those (map decode_filter fs) of
           Some ((h, from, to) # _) \<Rightarrow> if h \<noteq> [] then True else isQuantity from \<and> isQuantity to
         | _ \<Rightarrow> False))"

section \<open>Errors and null results\<close>

definition is_null :: "raw \<Rightarrow> bool" where
  "is_null r \<longleftrightarrow> r = None \<or> r = Some JNull"

definition errorField :: "raw \<Rightarrow> raw" where
  "errorField response =
     (case as_struct response of
        None \<Rightarrow> None
      | Some ms \<Rightarrow> (let e = raw_field ''error'' ms in if is_null e then None else e))"

definition IsErrorResponse :: "raw \<Rightarrow> bool" where
  "IsErrorResponse response \<longleftrightarrow> errorField response \<noteq> None"

definition Cacheable :: "raw \<Rightarrow> bool" where
  "Cacheable response =
     (case as_struct response of
        None \<Rightarrow> False
      | Some ms \<Rightarrow>
        (if is_null (raw_field ''result'' ms) then False else \<not> IsErrorResponse response))"

text \<open>
  The pattern \<open>blockUnavailableRegex\<close>: it is matched without regard to case, so on the folded
  message, and the dot does not match a line break.
\<close>

fun contains :: "string \<Rightarrow> string \<Rightarrow> bool" where
  "contains p [] = has_prefix p []"
| "contains p (c # cs) = (has_prefix p (c # cs) \<or> contains p cs)"

fun block_gap_not_found :: "string \<Rightarrow> bool" where
  "block_gap_not_found [] = False"
| "block_gap_not_found (c # cs) =
     (has_prefix ''BLOCK '' (c # cs)
        \<and> contains '' NOT FOUND'' (takeWhile (\<lambda>x. x \<noteq> CHR 0x0A) (drop 6 (c # cs)))
      \<or> block_gap_not_found cs)"

definition blockUnavailableRegex :: "string \<Rightarrow> bool" where
  "blockUnavailableRegex msg =
     (let m = fold_name msg in
      contains ''HEADER NOT FOUND'' m \<or> contains ''MISSING TRIE NODE'' m
      \<or> contains ''UNKNOWN BLOCK'' m \<or> contains ''BLOCK NOT FOUND'' m
      \<or> block_gap_not_found m \<or> contains ''STATE NOT AVAILABLE'' m
      \<or> contains ''CANNOT QUERY UNFINALIZED'' m)"

definition blockUnavailableSingle :: "raw \<Rightarrow> bool" where
  "blockUnavailableSingle response =
     (case errorField response of
        None \<Rightarrow> False
      | Some e \<Rightarrow>
        (case as_struct (Some e) of
           None \<Rightarrow> False
         | Some ms \<Rightarrow>
           (case string_field ''message'' ms of
              None \<Rightarrow> False
            | Some msg \<Rightarrow> blockUnavailableRegex msg)))"

definition BlockUnavailable :: "raw \<Rightarrow> bool" where
  "BlockUnavailable response =
     (case response of
        Some (JArr items) \<Rightarrow> list_ex (\<lambda>i. blockUnavailableSingle (Some i)) items
      | _ \<Rightarrow> blockUnavailableSingle response)"

section \<open>The block a response is about\<close>

text \<open>\<open>ExtractBlockInfo\<close>: the number and hash of a block object in the result.\<close>

definition ExtractBlockInfo :: "raw \<Rightarrow> u64 \<times> string" where
  "ExtractBlockInfo response =
     (case as_struct response of
        None \<Rightarrow> (0, [])
      | Some resp \<Rightarrow>
        (case as_any_map (raw_field ''result'' resp) of
           None \<Rightarrow> (0, [])
         | Some result \<Rightarrow>
           (let num = (case map_get_string ''number'' result of
                         None \<Rightarrow> 0
                       | Some s \<Rightarrow>
                         if has_prefix ''0x'' s
                         then (case parse_uint_hex (drop 2 s) of None \<Rightarrow> 0 | Some n \<Rightarrow> n) else 0);
                hash = (case map_get_string ''hash'' result of None \<Rightarrow> [] | Some h \<Rightarrow> h)
            in (num, hash))))"

definition extractParentHashFromBlockData :: "raw \<Rightarrow> string" where
  "extractParentHashFromBlockData blockData =
     (case as_struct blockData of
        None \<Rightarrow> []
      | Some resp \<Rightarrow>
        (case as_any_map (raw_field ''result'' resp) of
           None \<Rightarrow> []
         | Some result \<Rightarrow>
           (case map_get_string ''parentHash'' result of None \<Rightarrow> [] | Some h \<Rightarrow> h)))"

text \<open>The struct \<open>included\<close> of \<open>ResponseBlock\<close>.\<close>

record included =
  inc_Number :: raw
  inc_Hash :: string
  inc_BlockNumber :: raw
  inc_BlockHash :: string

definition decode_included :: "json \<Rightarrow> included option" where
  "decode_included v =
     (case as_struct (Some v) of
        None \<Rightarrow> None
      | Some ms \<Rightarrow>
        (case (string_field ''hash'' ms, string_field ''blockHash'' ms) of
           (Some h, Some bh) \<Rightarrow>
             Some \<lparr>inc_Number = raw_field ''number'' ms, inc_Hash = h,
                   inc_BlockNumber = raw_field ''blockNumber'' ms, inc_BlockHash = bh\<rparr>
         | _ \<Rightarrow> None))"

text \<open>The loop over a log list: the newest block named so far, and one log.\<close>

definition newest_log :: "u64 \<times> string \<Rightarrow> included \<Rightarrow> u64 \<times> string" where
  "newest_log best l =
     (let n = quantityFromRaw (inc_BlockNumber l) in
      if fst best < n \<and> inc_BlockHash l \<noteq> [] then (n, inc_BlockHash l) else best)"

definition decode_logs :: "raw \<Rightarrow> included list option" where
  "decode_logs r =
     (case as_slice r of None \<Rightarrow> None | Some vs \<Rightarrow> those (map decode_included vs))"

definition ResponseBlock :: "raw \<Rightarrow> u64 \<times> string" where
  "ResponseBlock response =
     (case as_struct response of
        None \<Rightarrow> (0, [])
      | Some resp \<Rightarrow>
        (let result = raw_field ''result'' resp in
         case decode_logs result of
           Some logs \<Rightarrow> foldl newest_log (0, []) logs
         | None \<Rightarrow>
           (case Option.bind result decode_included of
              None \<Rightarrow> (0, [])
            | Some obj \<Rightarrow>
              (let n = quantityFromRaw (inc_BlockNumber obj);
                   m = quantityFromRaw (inc_Number obj)
               in if 0 < n \<and> inc_BlockHash obj \<noteq> [] then (n, inc_BlockHash obj)
                  else if 0 < m \<and> inc_Hash obj \<noteq> [] then (m, inc_Hash obj)
                  else (0, [])))))"

definition HeadFromResponse :: "raw \<Rightarrow> u64 option" where
  "HeadFromResponse response =
     (case as_struct response of
        None \<Rightarrow> None
      | Some resp \<Rightarrow>
        (let n = quantityFromRaw (raw_field ''result'' resp) in
         if 0 < n then Some n
         else (let b = fst (ExtractBlockInfo response) in if 0 < b then Some b else None)))"

section \<open>Properties\<close>

subsection \<open>Responses\<close>

lemma errorField_None_iff:
  "errorField r = None \<longleftrightarrow>
   (case as_struct r of None \<Rightarrow> True | Some ms \<Rightarrow> is_null (raw_field ''error'' ms))"
  by (auto simp: errorField_def Let_def is_null_def split: option.splits)

text \<open>
  A response is cacheable exactly when it is an object whose result is there and not null and
  whose error is absent or null.
\<close>

lemma Cacheable_iff:
  "Cacheable r \<longleftrightarrow>
   (\<exists>ms. as_struct r = Some ms \<and> \<not> is_null (raw_field ''result'' ms)
      \<and> is_null (raw_field ''error'' ms))"
  by (auto simp: Cacheable_def IsErrorResponse_def errorField_None_iff split: option.splits)

lemma Cacheable_no_error: "Cacheable r \<Longrightarrow> \<not> IsErrorResponse r"
  by (auto simp: Cacheable_def split: option.splits if_splits)

lemma foldl_newest_log_fst:
  "fst b \<le> fst (foldl newest_log b ls)"
proof (induction ls arbitrary: b)
  case Nil
  then show ?case by simp
next
  case (Cons l ls)
  have "fst b \<le> fst (newest_log b l)"
    by (auto simp: newest_log_def Let_def)
  also have "\<dots> \<le> fst (foldl newest_log (newest_log b l) ls)"
    by (rule Cons.IH)
  finally show ?case by simp
qed

lemma foldl_newest_log_upper:
  "l \<in> set ls \<Longrightarrow> inc_BlockHash l \<noteq> [] \<Longrightarrow>
   quantityFromRaw (inc_BlockNumber l) \<le> fst (foldl newest_log b ls)"
proof (induction ls arbitrary: b)
  case Nil
  then show ?case by simp
next
  case (Cons x ls)
  show ?case
  proof (cases "l = x")
    case True
    have "quantityFromRaw (inc_BlockNumber l) \<le> fst (newest_log b l)"
      using Cons.prems(2) by (auto simp: newest_log_def Let_def)
    also have "\<dots> \<le> fst (foldl newest_log (newest_log b l) ls)"
      by (rule foldl_newest_log_fst)
    finally show ?thesis using True by simp
  next
    case False
    with Cons show ?thesis by simp
  qed
qed

lemma foldl_newest_log_source:
  "foldl newest_log b ls = b \<or>
   (\<exists>l \<in> set ls. foldl newest_log b ls = (quantityFromRaw (inc_BlockNumber l), inc_BlockHash l)
      \<and> inc_BlockHash l \<noteq> [])"
proof (induction ls arbitrary: b)
  case Nil
  then show ?case by simp
next
  case (Cons l ls)
  consider "newest_log b l = b"
    | "newest_log b l = (quantityFromRaw (inc_BlockNumber l), inc_BlockHash l)" "inc_BlockHash l \<noteq> []"
    by (cases "fst b < quantityFromRaw (inc_BlockNumber l) \<and> inc_BlockHash l \<noteq> []")
       (auto simp: newest_log_def Let_def)
  then show ?case
    using Cons.IH [of "newest_log b l"] by cases auto
qed

text \<open>
  For a response whose result is a list of logs, the block reported is the newest one any log
  names together with its hash: no log with a hash names a higher block, and the number and hash
  returned come from one and the same log of the list (or are 0 and the empty string).
\<close>

theorem ResponseBlock_logs_newest:
  assumes "as_struct response = Some ms"
    and "decode_logs (raw_field ''result'' ms) = Some logs"
    and "ResponseBlock response = (n, h)"
  shows "(\<forall>l \<in> set logs. inc_BlockHash l \<noteq> [] \<longrightarrow> quantityFromRaw (inc_BlockNumber l) \<le> n)
    \<and> (n = 0 \<and> h = [] \<or>
        (\<exists>l \<in> set logs. n = quantityFromRaw (inc_BlockNumber l) \<and> h = inc_BlockHash l \<and> h \<noteq> []))"
proof -
  have eq: "foldl newest_log (0, []) logs = (n, h)"
    using assms by (simp add: ResponseBlock_def Let_def)
  have "quantityFromRaw (inc_BlockNumber l) \<le> n"
    if "l \<in> set logs" "inc_BlockHash l \<noteq> []" for l
    using foldl_newest_log_upper [OF that, of "(0, [])"] eq by simp
  moreover have "n = 0 \<and> h = [] \<or>
      (\<exists>l \<in> set logs. n = quantityFromRaw (inc_BlockNumber l) \<and> h = inc_BlockHash l \<and> h \<noteq> [])"
    using foldl_newest_log_source [of "(0, [])" logs] eq by auto
  ultimately show ?thesis by blast
qed

definition two_logs :: json where
  "two_logs = JObj [(''result'', JArr
     [JObj [(''blockNumber'', JStr ''0x10''), (''blockHash'', JStr ''0xaa'')],
      JObj [(''blockNumber'', JStr ''0x11''), (''blockHash'', JStr ''0xbb'')]])]"

lemma two_logs_decoded:
  "as_struct (Some two_logs) = Some [(''result'', JArr
     [JObj [(''blockNumber'', JStr ''0x10''), (''blockHash'', JStr ''0xaa'')],
      JObj [(''blockNumber'', JStr ''0x11''), (''blockHash'', JStr ''0xbb'')]])]"
  by (simp add: two_logs_def)

definition two_logs_included :: "included list" where
  "two_logs_included =
     [\<lparr>inc_Number = None, inc_Hash = [], inc_BlockNumber = Some (JStr ''0x10''), inc_BlockHash = ''0xaa''\<rparr>,
      \<lparr>inc_Number = None, inc_Hash = [], inc_BlockNumber = Some (JStr ''0x11''), inc_BlockHash = ''0xbb''\<rparr>]"

theorem ResponseBlock_logs_newest_witness:
  "ResponseBlock (Some two_logs) = (17, ''0xbb'')
   \<and> quantityFromRaw (inc_BlockNumber (two_logs_included ! 0)) \<le> 17"
proof -
  have r: "raw_field ''result'' [(''result'', JArr
     [JObj [(''blockNumber'', JStr ''0x10''), (''blockHash'', JStr ''0xaa'')],
      JObj [(''blockNumber'', JStr ''0x11''), (''blockHash'', JStr ''0xbb'')]])] = Some (JArr
     [JObj [(''blockNumber'', JStr ''0x10''), (''blockHash'', JStr ''0xaa'')],
      JObj [(''blockNumber'', JStr ''0x11''), (''blockHash'', JStr ''0xbb'')]])"
    by (simp add: json_eval)
  have d: "decode_logs (Some (JArr
     [JObj [(''blockNumber'', JStr ''0x10''), (''blockHash'', JStr ''0xaa'')],
      JObj [(''blockNumber'', JStr ''0x11''), (''blockHash'', JStr ''0xbb'')]])) = Some two_logs_included"
    by (simp add: decode_logs_def decode_included_def two_logs_included_def json_eval)
  have f: "foldl newest_log (0, []) two_logs_included = (17, ''0xbb'')"
    by (simp add: two_logs_included_def newest_log_def quantityFromRaw_def hex_prefixed_def json_eval)
  have b: "ResponseBlock (Some two_logs) = (17, ''0xbb'')"
    by (simp add: ResponseBlock_def two_logs_decoded r d f)
  have "\<forall>l \<in> set two_logs_included. inc_BlockHash l \<noteq> [] \<longrightarrow> quantityFromRaw (inc_BlockNumber l) \<le> 17"
    using ResponseBlock_logs_newest [OF two_logs_decoded _ b] d r by simp
  moreover have "two_logs_included ! 0 \<in> set two_logs_included"
      "inc_BlockHash (two_logs_included ! 0) \<noteq> []"
    by (simp_all add: two_logs_included_def)
  ultimately show ?thesis using b by blast
qed

subsection \<open>Requests\<close>

text \<open>
  A request whose block parameter, at the position its method fixes, is a hexadecimal number is
  pinned to exactly that number: every 64-bit block number is read back from its rendering.
\<close>

theorem RequiredHead_reads_pin:
  assumes "blockParamIndex method = Some i" and "i < length items" and "items ! i = quantity n"
  shows "RequiredHead method (Some (JArr items)) = n \<and> pinnedToBlock method (Some (JArr items))"
proof -
  have "method \<noteq> ''eth_getLogs''"
    using assms(1) by (auto simp: blockParamIndex_def)
  with assms show ?thesis
    by (simp add: RequiredHead_def pinnedToBlock_def namesBlock_def)
qed

lemma RequiredHead_reads_pin_witness:
  "RequiredHead ''eth_call'' (Some (JArr [JObj [], quantity 291])) = 291"
proof -
  have "blockParamIndex ''eth_call'' = Some 1" by (simp add: blockParamIndex_def)
  then show ?thesis
    using RequiredHead_reads_pin [of "''eth_call''" 1 "[JObj [], quantity 291]" 291] by simp
qed

text \<open>A request that asks for a head is one the cache treats as pinned to a block.\<close>

lemma RequiredHead_pos_pinned:
  assumes "0 < RequiredHead method params" and "method \<noteq> ''eth_getLogs''"
  shows "pinnedToBlock method params"
proof -
  obtain idx items where "blockParamIndex method = Some idx" "as_slice params = Some items"
      "idx < length items" "quantityFromRaw (Some (items ! idx)) \<noteq> 0"
    using assms by (auto simp: RequiredHead_def split: option.splits if_splits)
  then show ?thesis
    using quantityFromRaw_pos_isQuantity by (simp add: pinnedToBlock_def namesBlock_def)
qed

end
