(* ===== verification/Rpc_Types.thy ===== *)
theory Rpc_Types
  imports Block_Info
begin

text \<open>
  The JSON-RPC messages of the batch pipeline, \<open>internal/backend/batch.go\<close>, and the messages the
  program writes itself. Identifiers, parameters, results and errors are raw messages.
\<close>

record BatchRequest =
  JSONRPC :: string
  ID :: raw
  Method :: string
  Params :: raw

text \<open>\<open>InternalErr\<close> carries the text of a transport or protocol failure, None for nil.\<close>

record BatchResponse =
  rJSONRPC :: string
  rID :: raw
  Result :: raw
  Error :: raw
  InternalErr :: "string option"

definition HasError :: "BatchResponse \<Rightarrow> bool" where
  "HasError r \<longleftrightarrow> \<not> is_null (Error r)"

definition rangeScans :: "string list" where
  "rangeScans =
     [''eth_getLogs'', ''trace_filter'', ''trace_block'', ''trace_replayBlockTransactions'',
      ''trace_replayTransaction'', ''trace_transaction'', ''debug_traceBlockByNumber'',
      ''debug_traceBlockByHash'', ''debug_traceTransaction'']"

text \<open>The error objects the program writes: \<open>json.Marshal\<close> sorts the keys of a map.\<close>

definition rpc_error :: "int \<Rightarrow> string \<Rightarrow> json" where
  "rpc_error c msg = JObj [(''code'', JNum (int_text c)), (''message'', jstring msg)]"

definition rpc_error_data :: "int \<Rightarrow> string \<Rightarrow> string \<Rightarrow> json" where
  "rpc_error_data c msg d =
     JObj [(''code'', JNum (int_text c)), (''data'', jstring d), (''message'', jstring msg)]"

definition result_response :: "raw \<Rightarrow> json \<Rightarrow> BatchResponse" where
  "result_response i v =
     \<lparr>rJSONRPC = ''2.0'', rID = i, Result = Some v, Error = None, InternalErr = None\<rparr>"

definition error_response :: "raw \<Rightarrow> raw \<Rightarrow> BatchResponse" where
  "error_response i e =
     \<lparr>rJSONRPC = ''2.0'', rID = i, Result = None, Error = e, InternalErr = None\<rparr>"

text \<open>The wire form of a request and the decoding of a response.\<close>

definition marshal_request :: "BatchRequest \<Rightarrow> json" where
  "marshal_request r =
     JObj [(''jsonrpc'', jstring (JSONRPC r)), (''id'', marshal_raw (ID r)),
           (''method'', jstring (Method r)), (''params'', marshal_raw (Params r))]"

definition decode_response :: "json \<Rightarrow> BatchResponse option" where
  "decode_response v =
     (case as_struct (Some v) of
        None \<Rightarrow> None
      | Some ms \<Rightarrow>
        (case string_field ''jsonrpc'' ms of
           None \<Rightarrow> None
         | Some ver \<Rightarrow>
           Some \<lparr>rJSONRPC = ver, rID = raw_field ''id'' ms, Result = raw_field ''result'' ms,
                 Error = raw_field ''error'' ms, InternalErr = None\<rparr>))"

lemma HasError_simps [simp]:
  "HasError (result_response i v) = False"
  "HasError (error_response i e) = (\<not> is_null e)"
  by (simp_all add: HasError_def result_response_def error_response_def is_null_def)

lemma rID_simps [simp]:
  "rID (result_response i v) = i" "rID (error_response i e) = i"
  "InternalErr (result_response i v) = None" "InternalErr (error_response i e) = None"
  by (simp_all add: result_response_def error_response_def)

lemma is_null_simps [simp]: "is_null None" "is_null (Some JNull)" "\<not> is_null (Some (JStr s))"
  "\<not> is_null (Some (JObj ms))" "\<not> is_null (Some (JArr vs))" "\<not> is_null (Some (JNum l))"
  by (simp_all add: is_null_def)

end
