(* ===== verification/Aggregate3.thy ===== *)
theory Aggregate3
  imports Go_Json
begin

unbundle bit_operations_syntax

text \<open>
  The ABI codec of Multicall3's aggregate3, \<open>internal/backend/multicall.go\<close>: the call array and the
  result array, each with an encoder that fills a zeroed buffer and a decoder that checks offsets
  with 64-bit arithmetic before it slices. A decoder's outcome is a panic where a Go slice
  expression or \<open>make\<close> would panic.
\<close>

section \<open>Words of the ABI\<close>

fun be_put :: "nat \<Rightarrow> nat \<Rightarrow> bytes" where
  "be_put 0 v = []"
| "be_put (Suc k) v = be_put k (v div 256) @ [of_nat (v mod 256)]"

definition be_get :: "bytes \<Rightarrow> nat" where
  "be_get bs = foldl (\<lambda>a b. 256 * a + unat b) 0 bs"

text \<open>\<open>readUint256\<close>: the last 8 bytes of a 32-byte word.\<close>

definition readUint256 :: "bytes \<Rightarrow> u64" where
  "readUint256 b = of_nat (be_get (take 8 (drop 24 b)))"

text \<open>\<open>copy(buf[pos:], d)\<close>: as many bytes as fit.\<close>

definition copy_at :: "nat \<Rightarrow> bytes \<Rightarrow> bytes \<Rightarrow> bytes" where
  "copy_at pos d buf =
     take pos buf @ take (length buf - pos) d @ drop (pos + length d) buf"

text \<open>\<open>writeUint256(buf[pos:], v)\<close> writes the bytes 24 to 31 of the word only.\<close>

definition writeUint256 :: "nat \<Rightarrow> u64 \<Rightarrow> bytes \<Rightarrow> bytes" where
  "writeUint256 pos v buf = copy_at (pos + 24) (be_put 8 (unat v)) buf"

text \<open>\<open>ceil32\<close>: the low five bits of \<open>n + 31\<close> cleared.\<close>

definition ceil32 :: "nat \<Rightarrow> nat" where
  "ceil32 n = push_bit 5 (drop_bit 5 (n + 31))"

text \<open>The word a written number makes in a zeroed buffer.\<close>

definition word256 :: "nat \<Rightarrow> bytes" where
  "word256 v = replicate 24 0 @ be_put 8 v"

lemma length_be_put [simp]: "length (be_put k v) = k"
  by (induction k arbitrary: v) simp_all

lemma length_word256 [simp]: "length (word256 v) = 32"
  by (simp add: word256_def)

lemma be_get_snoc: "be_get (bs @ [b]) = 256 * be_get bs + unat b"
  by (simp add: be_get_def)

lemma unat_of_nat_byte: "n < 256 \<Longrightarrow> unat (of_nat n :: u8) = n"
  by (simp add: unat_of_nat take_bit_nat_eq_self)

lemma be_get_put: "be_get (be_put k v) = v mod 256 ^ k"
proof (induction k arbitrary: v)
  case 0
  then show ?case by (simp add: be_get_def)
next
  case (Suc k)
  have "be_get (be_put (Suc k) v) = 256 * (v div 256 mod 256 ^ k) + v mod 256"
    by (simp add: be_get_snoc Suc.IH unat_of_nat_byte)
  also have "\<dots> = v mod (256 * 256 ^ k)"
    by (simp add: mod_mult2_eq)
  finally show ?case by simp
qed

lemma readUint256_word256:
  assumes "v < 2 ^ 64"
  shows "readUint256 (word256 v) = of_nat v"
proof -
  have "v mod 256 ^ 8 = v" using assms by simp
  then show ?thesis by (simp add: readUint256_def word256_def be_get_put)
qed

lemma ceil32_div: "ceil32 n = (n + 31) div 32 * 32"
  by (simp add: ceil32_def push_bit_eq_mult drop_bit_eq_div)

lemma ceil32_ge: "n \<le> ceil32 n"
  by (simp add: ceil32_div)

lemma ceil32_less: "ceil32 n < n + 32"
  by (simp add: ceil32_div)

lemma copy_at_zeros:
  assumes "length d \<le> k"
  shows "copy_at (length p) d (p @ replicate k 0) = p @ d @ replicate (k - length d) 0"
  using assms by (simp add: copy_at_def)

lemma copy_at_zeros_gap:
  assumes "g + length d \<le> k"
  shows "copy_at (length p + g) d (p @ replicate k 0)
       = p @ replicate g 0 @ d @ replicate (k - g - length d) 0"
  using assms by (simp add: copy_at_def)

lemma writeUint256_zeros:
  assumes "32 \<le> k"
  shows "writeUint256 (length p) v (p @ replicate k 0) = p @ word256 (unat v) @ replicate (k - 32) 0"
  using assms by (simp add: writeUint256_def copy_at_zeros_gap word256_def)

section \<open>The encoders\<close>

record call3 =
  Target :: bytes
  AllowFailure :: bool
  CallData :: bytes

record multicallResult =
  Success :: bool
  ReturnData :: bytes

definition aggregate3Selector :: bytes where
  "aggregate3Selector = [0x82, 0xad, 0x56, 0xcb]"

lemma length_selector [simp]: "length aggregate3Selector = 4"
  by (simp add: aggregate3Selector_def)

text \<open>
  The running offset of each tuple: the body sizes are \<open>128 + ceil32(len)\<close> for calls and
  \<open>96 + ceil32(len)\<close> for results.
\<close>

fun running_offsets :: "nat \<Rightarrow> nat list \<Rightarrow> nat list \<times> nat" where
  "running_offsets off [] = ([], off)"
| "running_offsets off (sz # szs) =
     (case running_offsets (off + sz) szs of (offs, tot) \<Rightarrow> (off # offs, tot))"

text \<open>The loops of the encoder over the buffer and the write position.\<close>

fun write_offsets :: "nat list \<Rightarrow> bytes \<times> nat \<Rightarrow> bytes \<times> nat" where
  "write_offsets [] (buf, pos) = (buf, pos)"
| "write_offsets (off # os) (buf, pos) = write_offsets os (writeUint256 pos (of_nat off) buf, pos + 32)"

fun write_calls :: "call3 list \<Rightarrow> bytes \<times> nat \<Rightarrow> bytes \<times> nat" where
  "write_calls [] (buf, pos) = (buf, pos)"
| "write_calls (c # cs) (buf, pos) =
     (let buf1 = copy_at (pos + 12) (take 20 (Target c)) buf; pos1 = pos + 32;
          buf2 = (if AllowFailure c then buf1[pos1 + 31 := 1] else buf1); pos2 = pos1 + 32;
          buf3 = writeUint256 pos2 96 buf2; pos3 = pos2 + 32;
          buf4 = writeUint256 pos3 (of_nat (length (CallData c))) buf3; pos4 = pos3 + 32;
          buf5 = copy_at pos4 (CallData c) buf4; pos5 = pos4 + ceil32 (length (CallData c))
      in write_calls cs (buf5, pos5))"

definition encodeAggregate3 :: "call3 list \<Rightarrow> bytes" where
  "encodeAggregate3 calls =
     (let n = length calls;
          (tupleOffsets, runningOffset) =
            running_offsets (n * 32) (map (\<lambda>c. 128 + ceil32 (length (CallData c))) calls);
          buf0 = replicate (4 + 32 + 32 + runningOffset) 0;
          buf1 = copy_at 0 aggregate3Selector buf0;
          buf2 = writeUint256 4 32 buf1;
          buf3 = writeUint256 36 (of_nat n) buf2;
          (buf4, pos4) = write_offsets tupleOffsets (buf3, 68);
          (buf5, pos5) = write_calls calls (buf4, pos4)
      in buf5)"

fun write_results :: "multicallResult list \<Rightarrow> bytes \<times> nat \<Rightarrow> bytes \<times> nat" where
  "write_results [] (buf, pos) = (buf, pos)"
| "write_results (r # rs) (buf, pos) =
     (let buf1 = (if Success r then buf[pos + 31 := 1] else buf); pos1 = pos + 32;
          buf2 = writeUint256 pos1 64 buf1; pos2 = pos1 + 32;
          buf3 = writeUint256 pos2 (of_nat (length (ReturnData r))) buf2; pos3 = pos2 + 32;
          buf4 = copy_at pos3 (ReturnData r) buf3; pos4 = pos3 + ceil32 (length (ReturnData r))
      in write_results rs (buf4, pos4))"

definition encodeAggregate3Result :: "multicallResult list \<Rightarrow> bytes" where
  "encodeAggregate3Result results =
     (let n = length results;
          (elemOffsets, running) =
            running_offsets (n * 32) (map (\<lambda>r. 96 + ceil32 (length (ReturnData r))) results);
          buf0 = replicate (32 + 32 + running) 0;
          buf1 = writeUint256 0 32 buf0;
          buf2 = writeUint256 32 (of_nat n) buf1;
          (buf3, pos3) = write_offsets elemOffsets (buf2, 64);
          (buf4, pos4) = write_results results (buf3, pos3)
      in buf4)"

section \<open>The layout of an encoding\<close>

text \<open>
  The reference: an array of dynamic tuples is its length, the table of tuple offsets (from the end
  of the length word) and the tuples.
\<close>

definition pad32 :: "bytes \<Rightarrow> bytes" where
  "pad32 d = d @ replicate (ceil32 (length d) - length d) 0"

definition bool_word :: "bool \<Rightarrow> bytes" where
  "bool_word b = replicate 31 0 @ [if b then 1 else 0]"

definition call_tuple :: "call3 \<Rightarrow> bytes" where
  "call_tuple c = (replicate 12 0 @ Target c) @ bool_word (AllowFailure c) @ word256 96
     @ word256 (length (CallData c)) @ pad32 (CallData c)"

definition result_tuple :: "multicallResult \<Rightarrow> bytes" where
  "result_tuple r = bool_word (Success r) @ word256 64
     @ word256 (length (ReturnData r)) @ pad32 (ReturnData r)"

definition tuple_offset :: "bytes list \<Rightarrow> nat \<Rightarrow> nat" where
  "tuple_offset ts i = length ts * 32 + length (concat (take i ts))"

definition array_layout :: "bytes list \<Rightarrow> bytes" where
  "array_layout ts = word256 (length ts)
     @ concat (map (\<lambda>i. word256 (tuple_offset ts i)) [0..<length ts]) @ concat ts"

definition wf_call :: "call3 \<Rightarrow> bool" where
  "wf_call c \<longleftrightarrow> length (Target c) = 20"

text \<open>What an encoder is used for: sizes a Go slice can have on a 64-bit machine.\<close>

definition wf_calls :: "call3 list \<Rightarrow> bool" where
  "wf_calls cs \<longleftrightarrow> cs \<noteq> [] \<and> length cs \<le> 10000 \<and> list_all wf_call cs
     \<and> length (array_layout (map call_tuple cs)) < 2 ^ 47"

definition wf_results :: "multicallResult list \<Rightarrow> bool" where
  "wf_results rs \<longleftrightarrow> length rs \<le> 10000 \<and> length (array_layout (map result_tuple rs)) < 2 ^ 47"

lemma length_pad32 [simp]: "length (pad32 d) = ceil32 (length d)"
  using ceil32_ge [of "length d"] by (simp add: pad32_def)

lemma length_bool_word [simp]: "length (bool_word b) = 32"
  by (simp add: bool_word_def)

lemma length_call_tuple: "wf_call c \<Longrightarrow> length (call_tuple c) = 128 + ceil32 (length (CallData c))"
  by (simp add: call_tuple_def wf_call_def)

lemma length_result_tuple: "length (result_tuple r) = 96 + ceil32 (length (ReturnData r))"
  by (simp add: result_tuple_def)

text \<open>The running offsets are the offsets of the layout.\<close>

lemma running_offsets_layout:
  "running_offsets off (map length ts)
     = (map (\<lambda>i. off + length (concat (take i ts))) [0..<length ts], off + length (concat ts))"
proof (induction ts arbitrary: off)
  case Nil
  then show ?case by simp
next
  case (Cons t ts)
  have idx: "[0..<length (t # ts)] = 0 # map Suc [0..<length ts]"
    by (simp only: map_Suc_upt upt_conv_Cons length_Cons zero_less_Suc)
  show ?case
    unfolding idx using Cons [of "off + length t"] by (simp add: add.assoc)
qed

text \<open>Each loop turns zeros behind the write position into its part of the layout.\<close>

lemma write_offsets_zeros:
  assumes "32 * length offs \<le> k" and "\<forall>x \<in> set offs. x < 2 ^ 64"
  shows "write_offsets offs (p @ replicate k 0, length p)
       = (p @ concat (map word256 offs) @ replicate (k - 32 * length offs) 0,
          length p + 32 * length offs)"
  using assms
proof (induction offs arbitrary: p k)
  case Nil
  then show ?case by simp
next
  case (Cons x offs)
  have w: "writeUint256 (length p) (of_nat x) (p @ replicate k 0)
      = (p @ word256 x) @ replicate (k - 32) 0"
    using Cons.prems by (simp add: writeUint256_zeros unat_of_nat_u64)
  have "write_offsets (x # offs) (p @ replicate k 0, length p)
      = write_offsets offs ((p @ word256 x) @ replicate (k - 32) 0, length (p @ word256 x))"
    by (simp only: write_offsets.simps w length_append length_word256)
  also have "\<dots> = ((p @ word256 x) @ concat (map word256 offs)
        @ replicate (k - 32 - 32 * length offs) 0, length (p @ word256 x) + 32 * length offs)"
    using Cons.prems by (intro Cons.IH) auto
  finally show ?case by (simp add: algebra_simps)
qed

lemma bool_write_zeros:
  assumes "32 \<le> k"
  shows "(if b then (p @ replicate k (0 :: u8))[length p + 31 := 1] else p @ replicate k 0)
       = p @ bool_word b @ replicate (k - 32) 0"
proof -
  have "k = 31 + Suc (k - 32)" using assms by simp
  then have z: "replicate k (0 :: u8) = replicate 31 0 @ 0 # replicate (k - 32) 0"
    by (metis replicate_add replicate_Suc)
  have u: "(p @ replicate 31 0 @ 0 # q)[length p + 31 := 1] = p @ replicate 31 0 @ 1 # q" for q :: bytes
    using list_update_length [of "p @ replicate 31 0" 0 q 1] by simp
  show ?thesis
    unfolding z bool_word_def u by simp
qed

lemma data_write_zeros:
  assumes "ceil32 (length d) \<le> k"
  shows "copy_at (length p) d (p @ replicate k 0) = p @ pad32 d @ replicate (k - ceil32 (length d)) 0"
proof -
  have le: "length d \<le> k" using assms ceil32_ge [of "length d"] by simp
  have "k - length d = (ceil32 (length d) - length d) + (k - ceil32 (length d))"
    using assms ceil32_ge [of "length d"] by simp
  then have "replicate (k - length d) (0 :: u8)
      = replicate (ceil32 (length d) - length d) 0 @ replicate (k - ceil32 (length d)) 0"
    by (simp only: replicate_add)
  then show ?thesis
    by (simp only: copy_at_zeros [OF le] pad32_def append_assoc)
qed

lemma target_write_zeros:
  assumes "length a = 20" and "32 \<le> k"
  shows "copy_at (length p + 12) (take 20 a) (p @ replicate k 0)
       = p @ (replicate 12 0 @ a) @ replicate (k - 32) 0"
  using assms by (simp add: copy_at_zeros_gap)

text \<open>The same with the position as a sum, as the loops compute it.\<close>

lemma writeUint256_at:
  assumes "q = length p" and "32 \<le> k"
  shows "writeUint256 q v (p @ replicate k 0) = (p @ word256 (unat v)) @ replicate (k - 32) 0"
  using assms by (simp add: writeUint256_zeros)

lemma bool_write_at:
  assumes "q = length p + 31" and "32 \<le> k"
  shows "(if b then (p @ replicate k (0 :: u8))[q := 1] else p @ replicate k 0)
       = (p @ bool_word b) @ replicate (k - 32) 0"
  using bool_write_zeros [OF assms(2), of b p] assms(1) by (cases b) simp_all

lemma data_write_at:
  assumes "q = length p" and "ceil32 (length d) \<le> k"
  shows "copy_at q d (p @ replicate k 0) = (p @ pad32 d) @ replicate (k - ceil32 (length d)) 0"
  using assms by (simp add: data_write_zeros)

lemma target_write_at:
  assumes "q = length p + 12" and "length a = 20" and "32 \<le> k"
  shows "copy_at q (take 20 a) (p @ replicate k 0)
       = (p @ replicate 12 0 @ a) @ replicate (k - 32) 0"
  using target_write_zeros [OF assms(2,3), of p] assms(1) by simp

lemma write_call_zeros:
  assumes "wf_call c" and "length (call_tuple c) \<le> k" and "k < 2 ^ 64"
  shows "write_calls (c # cs) (p @ replicate k 0, length p)
       = write_calls cs ((p @ call_tuple c) @ replicate (k - length (call_tuple c)) 0,
                         length (p @ call_tuple c))"
proof -
  let ?d = "CallData c"
  let ?p1 = "p @ replicate 12 0 @ Target c"
  let ?p2 = "?p1 @ bool_word (AllowFailure c)"
  let ?p3 = "?p2 @ word256 96"
  let ?p4 = "?p3 @ word256 (length ?d)"
  have k: "128 + ceil32 (length ?d) \<le> k"
    using assms(1,2) by (simp add: length_call_tuple)
  have t: "length (Target c) = 20"
    using assms(1) by (simp add: wf_call_def)
  have d: "unat (of_nat (length ?d) :: u64) = length ?d"
    using k ceil32_ge [of "length ?d"] assms(3) by (intro unat_of_nat_u64) linarith
  have 1: "copy_at (length p + 12) (take 20 (Target c)) (p @ replicate k 0) = ?p1 @ replicate (k - 32) 0"
    using t k by (intro target_write_at) simp_all
  have 2: "(if AllowFailure c then (?p1 @ replicate (k - 32) 0)[length p + 32 + 31 := 1]
      else ?p1 @ replicate (k - 32) 0) = ?p2 @ replicate (k - 32 - 32) 0"
    using k t by (intro bool_write_at) simp_all
  have 3: "writeUint256 (length p + 32 + 32) 96 (?p2 @ replicate (k - 32 - 32) 0)
      = ?p3 @ replicate (k - 32 - 32 - 32) 0"
    using writeUint256_at [of "length p + 32 + 32" ?p2 "k - 32 - 32" 96] k t by simp
  have 4: "writeUint256 (length p + 32 + 32 + 32) (of_nat (length ?d)) (?p3 @ replicate (k - 32 - 32 - 32) 0)
      = ?p4 @ replicate (k - 32 - 32 - 32 - 32) 0"
    using writeUint256_at [of "length p + 32 + 32 + 32" ?p3 "k - 32 - 32 - 32" "of_nat (length ?d)"] k t d
    by simp
  have 5: "copy_at (length p + 32 + 32 + 32 + 32) ?d (?p4 @ replicate (k - 32 - 32 - 32 - 32) 0)
      = (?p4 @ pad32 ?d) @ replicate (k - 32 - 32 - 32 - 32 - ceil32 (length ?d)) 0"
    using k t by (intro data_write_at) simp_all
  have "?p4 @ pad32 ?d = p @ call_tuple c"
    by (simp add: call_tuple_def)
  moreover have "length p + 32 + 32 + 32 + 32 + ceil32 (length ?d) = length (p @ call_tuple c)"
    using length_call_tuple [OF assms(1)] by simp
  moreover have "k - 32 - 32 - 32 - 32 - ceil32 (length ?d) = k - length (call_tuple c)"
    using length_call_tuple [OF assms(1)] by simp
  ultimately show ?thesis
    by (simp only: write_calls.simps Let_def 1 2 3 4 5)
qed

lemma write_calls_zeros:
  assumes "list_all wf_call cs" and "length (concat (map call_tuple cs)) \<le> k" and "k < 2 ^ 64"
  shows "write_calls cs (p @ replicate k 0, length p)
       = (p @ concat (map call_tuple cs) @ replicate (k - length (concat (map call_tuple cs))) 0,
          length (p @ concat (map call_tuple cs)))"
  using assms
proof (induction cs arbitrary: p k)
  case Nil
  then show ?case by simp
next
  case (Cons c cs)
  have "write_calls (c # cs) (p @ replicate k 0, length p)
      = write_calls cs ((p @ call_tuple c) @ replicate (k - length (call_tuple c)) 0,
                         length (p @ call_tuple c))"
    using Cons.prems by (intro write_call_zeros) simp_all
  also have "\<dots> = ((p @ call_tuple c) @ concat (map call_tuple cs)
      @ replicate (k - length (call_tuple c) - length (concat (map call_tuple cs))) 0,
      length ((p @ call_tuple c) @ concat (map call_tuple cs)))"
    using Cons.prems by (intro Cons.IH) auto
  finally show ?case by simp
qed

lemma write_result_zeros:
  assumes "length (result_tuple r) \<le> k" and "k < 2 ^ 64"
  shows "write_results (r # rs) (p @ replicate k 0, length p)
       = write_results rs ((p @ result_tuple r) @ replicate (k - length (result_tuple r)) 0,
                         length (p @ result_tuple r))"
proof -
  let ?d = "ReturnData r"
  let ?p1 = "p @ bool_word (Success r)"
  let ?p2 = "?p1 @ word256 64"
  let ?p3 = "?p2 @ word256 (length ?d)"
  have k: "96 + ceil32 (length ?d) \<le> k"
    using assms(1) by (simp add: length_result_tuple)
  have d: "unat (of_nat (length ?d) :: u64) = length ?d"
    using k ceil32_ge [of "length ?d"] assms(2) by (intro unat_of_nat_u64) linarith
  have 1: "(if Success r then (p @ replicate k 0)[length p + 31 := 1] else p @ replicate k 0)
      = ?p1 @ replicate (k - 32) 0"
    using k by (intro bool_write_at) simp_all
  have 2: "writeUint256 (length p + 32) 64 (?p1 @ replicate (k - 32) 0)
      = ?p2 @ replicate (k - 32 - 32) 0"
    using writeUint256_at [of "length p + 32" ?p1 "k - 32" 64] k by simp
  have 3: "writeUint256 (length p + 32 + 32) (of_nat (length ?d)) (?p2 @ replicate (k - 32 - 32) 0)
      = ?p3 @ replicate (k - 32 - 32 - 32) 0"
    using writeUint256_at [of "length p + 32 + 32" ?p2 "k - 32 - 32" "of_nat (length ?d)"] k d by simp
  have 4: "copy_at (length p + 32 + 32 + 32) ?d (?p3 @ replicate (k - 32 - 32 - 32) 0)
      = (?p3 @ pad32 ?d) @ replicate (k - 32 - 32 - 32 - ceil32 (length ?d)) 0"
    using k by (intro data_write_at) simp_all
  have "?p3 @ pad32 ?d = p @ result_tuple r"
    by (simp add: result_tuple_def)
  moreover have "length p + 32 + 32 + 32 + ceil32 (length ?d) = length (p @ result_tuple r)"
    by (simp add: length_result_tuple)
  moreover have "k - 32 - 32 - 32 - ceil32 (length ?d) = k - length (result_tuple r)"
    by (simp add: length_result_tuple)
  ultimately show ?thesis
    by (simp only: write_results.simps Let_def 1 2 3 4)
qed

lemma write_results_zeros:
  assumes "length (concat (map result_tuple rs)) \<le> k" and "k < 2 ^ 64"
  shows "write_results rs (p @ replicate k 0, length p)
       = (p @ concat (map result_tuple rs) @ replicate (k - length (concat (map result_tuple rs))) 0,
          length (p @ concat (map result_tuple rs)))"
  using assms
proof (induction rs arbitrary: p k)
  case Nil
  then show ?case by simp
next
  case (Cons r rs)
  have "write_results (r # rs) (p @ replicate k 0, length p)
      = write_results rs ((p @ result_tuple r) @ replicate (k - length (result_tuple r)) 0,
                         length (p @ result_tuple r))"
    using Cons.prems by (intro write_result_zeros) simp_all
  also have "\<dots> = ((p @ result_tuple r) @ concat (map result_tuple rs)
      @ replicate (k - length (result_tuple r) - length (concat (map result_tuple rs))) 0,
      length ((p @ result_tuple r) @ concat (map result_tuple rs)))"
    using Cons.prems by (intro Cons.IH) auto
  finally show ?case by simp
qed

lemma length_array_layout:
  "length (array_layout ts) = 32 + length ts * 32 + length (concat ts)"
proof -
  have "length (concat (map (\<lambda>i. word256 (f i)) xs)) = length xs * 32" for f and xs :: "nat list"
    by (induction xs) simp_all
  then show ?thesis by (simp add: array_layout_def)
qed

lemma tuple_offset_le: "tuple_offset ts i \<le> length ts * 32 + length (concat ts)"
proof -
  have "concat ts = concat (take i ts) @ concat (drop i ts)"
    by (simp flip: concat_append)
  then show ?thesis by (simp add: tuple_offset_def del: length_concat)
qed

lemma running_offsets_tuples:
  "running_offsets (length ts * 32) (map length ts)
     = (map (tuple_offset ts) [0..<length ts], length ts * 32 + length (concat ts))"
  by (simp add: running_offsets_layout tuple_offset_def [abs_def])

text \<open>The common start of both encoders: the array offset, the length and the table.\<close>

lemma write_table_zeros:
  assumes "length (array_layout ts) < 2 ^ 47" and "n = length ts"
    and "k = 64 + length ts * 32 + length (concat ts)"
  shows "write_offsets (map (tuple_offset ts) [0..<length ts])
      (writeUint256 (length p + 32) (of_nat n) (writeUint256 (length p) 32 (p @ replicate k 0)),
       length p + 64)
    = ((p @ word256 32 @ word256 n @ concat (map (\<lambda>i. word256 (tuple_offset ts i)) [0..<length ts]))
         @ replicate (length (concat ts)) 0,
       length (p @ word256 32 @ word256 n
         @ concat (map (\<lambda>i. word256 (tuple_offset ts i)) [0..<length ts])))"
proof -
  let ?offs = "map (tuple_offset ts) [0..<length ts]"
  have b: "length ts * 32 + length (concat ts) < 2 ^ 47"
    using assms(1) by (simp add: length_array_layout)
  have n: "unat (of_nat n :: u64) = n"
    using b assms(2) by (intro unat_of_nat_u64) simp
  have 1: "writeUint256 (length p) 32 (p @ replicate k 0) = (p @ word256 32) @ replicate (k - 32) 0"
    using writeUint256_zeros [of k p 32] assms(3) by simp
  have 2: "writeUint256 (length p + 32) (of_nat n) ((p @ word256 32) @ replicate (k - 32) 0)
      = ((p @ word256 32) @ word256 n) @ replicate (k - 64) 0"
    using writeUint256_zeros [of "k - 32" "p @ word256 32" "of_nat n"] assms(3) n by simp
  have o: "\<forall>x \<in> set ?offs. x < 2 ^ 64"
  proof
    fix x
    assume "x \<in> set ?offs"
    then obtain i where "x = tuple_offset ts i" by auto
    then have "x < 2 ^ 47" using tuple_offset_le [of ts i] b by linarith
    then show "x < 2 ^ 64" by simp
  qed
  have "write_offsets ?offs (((p @ word256 32) @ word256 n) @ replicate (k - 64) 0,
      length ((p @ word256 32) @ word256 n))
    = (((p @ word256 32) @ word256 n) @ concat (map word256 ?offs)
        @ replicate (k - 64 - 32 * length ?offs) 0,
       length ((p @ word256 32) @ word256 n) + 32 * length ?offs)"
    using o assms(3) by (intro write_offsets_zeros) simp_all
  moreover have "length (concat (map word256 ?offs)) = 32 * length ?offs"
    by (induction ts) (simp_all add: o_def sum_list_triv length_concat)
  moreover have "k - 64 - 32 * length ?offs = length (concat ts)"
    using assms(3) by simp
  ultimately show ?thesis
    by (simp only: 1 2) (simp add: o_def del: length_concat)
qed

text \<open>What \<open>encodeAggregate3\<close> writes.\<close>

lemma encodeAggregate3_layout:
  assumes "wf_calls cs"
  shows "encodeAggregate3 cs = aggregate3Selector @ word256 32 @ array_layout (map call_tuple cs)"
proof -
  let ?ts = "map call_tuple cs"
  let ?n = "length cs"
  let ?k = "64 + length ?ts * 32 + length (concat ?ts)"
  have w: "list_all wf_call cs" and b: "length (array_layout ?ts) < 2 ^ 47"
    using assms by (simp_all add: wf_calls_def)
  have sizes: "map (\<lambda>c. 128 + ceil32 (length (CallData c))) cs = map length ?ts"
    using w by (auto simp: list_all_iff length_call_tuple)
  have ro: "running_offsets (?n * 32) (map (\<lambda>c. 128 + ceil32 (length (CallData c))) cs)
      = (map (tuple_offset ?ts) [0..<length ?ts], length ?ts * 32 + length (concat ?ts))"
    unfolding sizes using running_offsets_tuples [of ?ts] by simp
  have sel: "copy_at 0 aggregate3Selector
      (replicate (4 + 32 + 32 + (length ?ts * 32 + length (concat ?ts))) 0)
      = aggregate3Selector @ replicate ?k 0"
    using copy_at_zeros [of aggregate3Selector "4 + ?k" "[]"]
    by (simp add: add.assoc)
  let ?head = "aggregate3Selector @ word256 32 @ word256 ?n
      @ concat (map (\<lambda>i. word256 (tuple_offset ?ts i)) [0..<length ?ts])"
  have tab: "write_offsets (map (tuple_offset ?ts) [0..<length ?ts])
      (writeUint256 36 (of_nat ?n) (writeUint256 4 32 (aggregate3Selector @ replicate ?k 0)), 68)
    = (?head @ replicate (length (concat ?ts)) 0, length ?head)"
    using write_table_zeros [OF b, of ?n ?k aggregate3Selector] by simp
  have calls: "write_calls cs (?head @ replicate (length (concat ?ts)) 0, length ?head)
      = (?head @ concat ?ts @ replicate (length (concat ?ts) - length (concat ?ts)) 0,
         length (?head @ concat ?ts))"
    using w b by (intro write_calls_zeros) (simp_all add: length_array_layout del: length_concat)
  show ?thesis
    by (simp only: encodeAggregate3_def Let_def ro prod.case sel tab calls)
       (simp add: array_layout_def)
qed

text \<open>What \<open>encodeAggregate3Result\<close> writes.\<close>

lemma encodeAggregate3Result_layout:
  assumes "wf_results rs"
  shows "encodeAggregate3Result rs = word256 32 @ array_layout (map result_tuple rs)"
proof -
  let ?ts = "map result_tuple rs"
  let ?n = "length rs"
  let ?k = "64 + length ?ts * 32 + length (concat ?ts)"
  have b: "length (array_layout ?ts) < 2 ^ 47"
    using assms by (simp add: wf_results_def)
  have sizes: "map (\<lambda>r. 96 + ceil32 (length (ReturnData r))) rs = map length ?ts"
    by (simp add: length_result_tuple)
  have ro: "running_offsets (?n * 32) (map (\<lambda>r. 96 + ceil32 (length (ReturnData r))) rs)
      = (map (tuple_offset ?ts) [0..<length ?ts], length ?ts * 32 + length (concat ?ts))"
    unfolding sizes using running_offsets_tuples [of ?ts] by simp
  let ?head = "word256 32 @ word256 ?n
      @ concat (map (\<lambda>i. word256 (tuple_offset ?ts i)) [0..<length ?ts])"
  have buf: "replicate (32 + 32 + (length ?ts * 32 + length (concat ?ts))) (0 :: u8) = replicate ?k 0"
    by (simp add: add.assoc)
  have tab: "write_offsets (map (tuple_offset ?ts) [0..<length ?ts])
      (writeUint256 32 (of_nat ?n) (writeUint256 0 32 (replicate ?k 0)), 64)
    = (?head @ replicate (length (concat ?ts)) 0, length ?head)"
    using write_table_zeros [OF b, of ?n ?k "[]"] by simp
  have results: "write_results rs (?head @ replicate (length (concat ?ts)) 0, length ?head)
      = (?head @ concat ?ts @ replicate (length (concat ?ts) - length (concat ?ts)) 0,
         length (?head @ concat ?ts))"
    using b by (intro write_results_zeros) (simp_all add: length_array_layout del: length_concat)
  show ?thesis
    by (simp only: encodeAggregate3Result_def Let_def ro prod.case buf tab results)
       (simp add: array_layout_def)
qed

section \<open>The decoders\<close>

text \<open>
  \<open>make([]byte, n)\<close> panics past the largest allocation of the 64-bit runtime.
\<close>

definition make_bytes :: "u64 \<Rightarrow> ('e, unit) outcome" where
  "make_bytes n = (if uint n \<le> 2 ^ 48 then Done () else Panic)"

text \<open>
  \<open>decodeAggregate3Calls\<close>: the body of its loop, for element \<open>i\<close> of the array.
\<close>

definition decode_call :: "bytes \<Rightarrow> nat \<Rightarrow> (unit, call3) outcome" where
  "decode_call arr i =
     obind (goslice arr (32 + int i * 32) (64 + int i * 32)) (\<lambda>w.
     let abs = wrap64 (32 + int_of_u64 (readUint256 w)) in
     fail_if (abs < 0 \<or> wrap64 (abs + 96) > int (length arr)) ()
     (obind (goslice arr abs (int (length arr))) (\<lambda>tuple.
      obind (goslice tuple 12 32) (\<lambda>target.
      obind (goslice tuple 63 64) (\<lambda>allow.
      obind (goslice tuple 64 96) (\<lambda>cw.
      let cdOff = readUint256 cw; cdStart = wrap64 (int_of_u64 cdOff + 32) in
      fail_if (cdStart > int (length tuple)) ()
      (obind (goslice tuple (uint cdOff) (uint (cdOff + 32))) (\<lambda>lw.
       let cdLen = readUint256 lw; cdEnd = wrap64 (cdStart + int_of_u64 cdLen) in
       fail_if (cdEnd > int (length tuple)) ()
       (obind (make_bytes cdLen) (\<lambda>_.
        obind (goslice tuple cdStart cdEnd) (\<lambda>cd.
        Done \<lparr>Target = target, AllowFailure = allow \<noteq> [0],
              CallData = take (unat cdLen) cd\<rparr>)))))))))))"

definition decodeAggregate3Calls :: "bytes \<Rightarrow> (unit, call3 list) outcome" where
  "decodeAggregate3Calls data =
     fail_if (length data < 4 \<or> take 4 data \<noteq> aggregate3Selector) ()
     (let args = drop 4 data in
      fail_if (length args < 32) ()
      (let arrayOff = readUint256 (take 32 args) in
       fail_if (int_of_u64 arrayOff > int (length args)
                \<or> wrap64 (int (length args) - int_of_u64 arrayOff) < 32) ()
       (obind (goslice args (uint arrayOff) (int (length args))) (\<lambda>arr.
        obind (goslice arr 0 32) (\<lambda>nw.
        let n = readUint256 nw in
        fail_if (n = 0 \<or> n > 10000) ()
        (fail_if (int (length arr) < 32 + int_of_u64 n * 32) ()
         (omap (decode_call arr) [0..<unat n])))))))"

text \<open>
  The errors of \<open>decodeAggregate3Result\<close>, and their texts. The error of \<open>hex.DecodeString\<close> is the
  first byte that is no digit, or else the odd length.
\<close>

definition sharp_U :: "char \<Rightarrow> string" where
  "sharp_U c =
     (let n = code c;
          printable = (32 \<le> n \<and> n < 127 \<or> 161 \<le> n \<and> n \<noteq> 173)
      in ''U+00'' @ map upcase (hex_byte (of_nat n))
         @ (if printable then '' '' @ [CHR 0x27] @ rune_utf8 n @ [CHR 0x27] else []))"

definition hex_error :: "string \<Rightarrow> string" where
  "hex_error s =
     (case dropWhile (\<lambda>c. hex_val c \<noteq> None) s of
        [] \<Rightarrow> ''encoding/hex: odd length hex string''
      | c # _ \<Rightarrow> ''encoding/hex: invalid byte: '' @ sharp_U c)"

datatype decode_error =
    InvalidHex string
  | ResultTooShort nat
  | ArrayOffsetOutOfBounds u64 nat
  | ArrayDataTooShort
  | UnreasonableLength u64
  | OffsetTableExceeds int nat
  | TupleOffsetOutOfBounds nat int nat
  | TupleTooShort nat nat
  | ReturnDataOffsetOutOfBounds nat
  | ReturnDataExceedsBounds nat u64 nat

fun decode_error_text :: "decode_error \<Rightarrow> string" where
  "decode_error_text (InvalidHex e) = ''invalid hex: '' @ e"
| "decode_error_text (ResultTooShort n) = ''result too short: '' @ itoa n @ '' bytes''"
| "decode_error_text (ArrayOffsetOutOfBounds off n) =
     ''array offset out of bounds: '' @ itoa (unat off) @ '' >= '' @ itoa n"
| "decode_error_text ArrayDataTooShort = ''array data too short for length word''"
| "decode_error_text (UnreasonableLength n) = ''unreasonable array length: '' @ itoa (unat n)"
| "decode_error_text (OffsetTableExceeds need n) =
     ''offset table exceeds data: need '' @ int_text need @ '', have '' @ itoa n"
| "decode_error_text (TupleOffsetOutOfBounds i off n) =
     ''tuple '' @ itoa i @ '' offset out of bounds: '' @ int_text off @ '' >= '' @ itoa n"
| "decode_error_text (TupleTooShort i n) = ''tuple '' @ itoa i @ '' too short: '' @ itoa n @ '' bytes''"
| "decode_error_text (ReturnDataOffsetOutOfBounds i) =
     ''tuple '' @ itoa i @ '' returnData offset out of bounds''"
| "decode_error_text (ReturnDataExceedsBounds i stop n) =
     ''tuple '' @ itoa i @ '' returnData exceeds bounds: end '' @ itoa (unat stop) @ '' > len '' @ itoa n"

definition decode_result :: "bytes \<Rightarrow> nat \<Rightarrow> (decode_error, multicallResult) outcome" where
  "decode_result arrayData i =
     obind (goslice arrayData (32 + int i * 32) (64 + int i * 32)) (\<lambda>w.
     let absOffset = wrap64 (32 + int_of_u64 (readUint256 w)) in
     fail_if (absOffset \<ge> int (length arrayData))
       (TupleOffsetOutOfBounds i absOffset (length arrayData))
     (obind (goslice arrayData absOffset (int (length arrayData))) (\<lambda>tupleData.
      fail_if (length tupleData < 64) (TupleTooShort i (length tupleData))
      (let success = tupleData ! 31 \<noteq> 0;
           returnDataOffset = readUint256 (take 32 (drop 32 tupleData))
       in fail_if (wrap64 (int_of_u64 returnDataOffset + 32) > int (length tupleData))
            (ReturnDataOffsetOutOfBounds i)
          (obind (goslice tupleData (uint returnDataOffset) (uint (returnDataOffset + 32))) (\<lambda>lw.
           let returnDataLen = readUint256 lw;
               start = returnDataOffset + 32;
               stop = start + returnDataLen
           in fail_if (int_of_u64 stop > int (length tupleData))
                (ReturnDataExceedsBounds i stop (length tupleData))
              (obind (make_bytes returnDataLen) (\<lambda>_.
               obind (goslice tupleData (uint start) (uint stop)) (\<lambda>rd.
               Done \<lparr>Success = success, ReturnData = take (unat returnDataLen) rd\<rparr>)))))))))"

definition decodeAggregate3Result_bytes :: "bytes \<Rightarrow> (decode_error, multicallResult list) outcome" where
  "decodeAggregate3Result_bytes data =
     fail_if (length data < 64) (ResultTooShort (length data))
     (let arrayOffset = readUint256 (take 32 data) in
      fail_if (int_of_u64 arrayOffset \<ge> int (length data))
        (ArrayOffsetOutOfBounds arrayOffset (length data))
      (obind (goslice data (uint arrayOffset) (int (length data))) (\<lambda>arrayData.
       fail_if (length arrayData < 32) ArrayDataTooShort
       (let n = readUint256 (take 32 arrayData) in
        fail_if (n > 10000) (UnreasonableLength n)
        (let offsetTableEnd = 32 + int_of_u64 n * 32 in
         fail_if (int (length arrayData) < offsetTableEnd)
           (OffsetTableExceeds offsetTableEnd (length arrayData))
         (omap (decode_result arrayData) [0..<unat n]))))))"

definition decodeAggregate3Result :: "string \<Rightarrow> (decode_error, multicallResult list) outcome" where
  "decodeAggregate3Result resultHex =
     (case hex_decode (trim_prefix ''0x'' resultHex) of
        None \<Rightarrow> Fail (InvalidHex (hex_error (trim_prefix ''0x'' resultHex)))
      | Some data \<Rightarrow> decodeAggregate3Result_bytes data)"

section \<open>Round trips\<close>

subsection \<open>Reading the layout\<close>

lemma uniform_chunk:
  assumes "\<forall>x \<in> set xs. length x = k" and "i < length xs"
  shows "take k (drop (i * k) (concat xs @ ys)) = xs ! i"
  using assms
proof (induction xs arbitrary: i)
  case Nil
  then show ?case by simp
next
  case (Cons x xs)
  then show ?case by (cases i) (simp_all add: add.commute)
qed

lemma goslice_int:
  assumes "lo = int a" and "hi = int b" and "a \<le> b" and "b \<le> length xs"
  shows "goslice xs lo hi = Done (take (b - a) (drop a xs))"
  using goslice_nat [OF assms(3,4)] assms(1,2) by simp

lemma goslice_middle:
  assumes "xs = p @ m @ q" and "lo = int (length p)" and "hi = int (length p + length m)"
  shows "goslice xs lo hi = Done m"
  using assms by (subst goslice_int [of _ "length p" _ "length p + length m"]) simp_all

lemma goslice_suffix:
  assumes "xs = p @ q" and "lo = int (length p)"
  shows "goslice xs lo (int (length xs)) = Done q"
  using goslice_middle [of xs p q "[]" lo "int (length xs)"] assms by simp

lemma make_bytes_small:
  assumes "n \<le> 2 ^ 48"
  shows "make_bytes (of_nat n) = Done ()"
proof -
  have "unat (of_nat n :: u64) = n"
    using assms by (intro unat_of_nat_u64) simp
  then have "uint (of_nat n :: u64) = int n"
    by (simp only: uint_nat)
  then have "uint (of_nat n :: u64) \<le> 2 ^ 48"
    using assms by simp
  then show ?thesis by (simp only: make_bytes_def if_True)
qed

lemma int_of_u64_numeral: "int_of_u64 64 = 64" "int_of_u64 96 = 96" "int_of_u64 32 = 32"
  by (simp_all add: int_of_u64_def wrap64_def)

lemma array_read_length: "take 32 (array_layout ts) = word256 (length ts)"
  by (simp add: array_layout_def)

lemma array_read_offset:
  assumes "i < length ts"
  shows "goslice (array_layout ts) (32 + int i * 32) (64 + int i * 32)
       = Done (word256 (tuple_offset ts i))"
proof -
  let ?tab = "map (\<lambda>i. word256 (tuple_offset ts i)) [0..<length ts]"
  have "take 32 (drop (32 + i * 32) (array_layout ts)) = take 32 (drop (i * 32) (concat ?tab @ concat ts))"
    by (simp add: array_layout_def)
  also have "\<dots> = ?tab ! i"
    using assms by (intro uniform_chunk) simp_all
  finally have t: "take 32 (drop (32 + i * 32) (array_layout ts)) = word256 (tuple_offset ts i)"
    using assms by simp
  have "64 + i * 32 \<le> length (array_layout ts)"
    using assms by (simp add: length_array_layout del: length_concat)
  then show ?thesis
    using t by (subst goslice_int [of _ "32 + i * 32" _ "64 + i * 32"]) simp_all
qed

lemma array_tuple_at:
  assumes "i < length ts"
  obtains p where "array_layout ts = p @ ts ! i @ concat (drop (Suc i) ts)"
    and "length p = 32 + tuple_offset ts i"
proof
  let ?h = "word256 (length ts) @ concat (map (\<lambda>i. word256 (tuple_offset ts i)) [0..<length ts])"
  have "ts = take i ts @ ts ! i # drop (Suc i) ts"
    using assms by (simp add: id_take_nth_drop)
  then have "concat ts = concat (take i ts) @ ts ! i @ concat (drop (Suc i) ts)"
    by (metis concat.simps(2) concat_append)
  then show "array_layout ts = (?h @ concat (take i ts)) @ ts ! i @ concat (drop (Suc i) ts)"
    by (simp add: array_layout_def)
  have "length ?h = 32 + length ts * 32"
    using length_array_layout [of ts] by (simp add: array_layout_def)
  then show "length (?h @ concat (take i ts)) = 32 + tuple_offset ts i"
    by (simp only: length_append tuple_offset_def)
qed

lemma pad32_prefix: "take (length d) (pad32 d @ r) = d"
  by (simp add: pad32_def)

subsection \<open>Calls\<close>

lemma decode_call_layout:
  assumes "i < length cs" and "list_all wf_call cs"
    and "length (array_layout (map call_tuple cs)) < 2 ^ 47"
  shows "decode_call (array_layout (map call_tuple cs)) i = Done (cs ! i)"
proof -
  let ?ts = "map call_tuple cs"
  let ?arr = "array_layout ?ts"
  let ?c = "cs ! i"
  let ?d = "CallData ?c"
  let ?off = "tuple_offset ?ts i"
  have wc: "wf_call ?c" using assms(1,2) by (simp add: list_all_length)
  obtain p where arr: "?arr = p @ call_tuple ?c @ concat (drop (Suc i) ?ts)"
    and p: "length p = 32 + ?off"
    using array_tuple_at [of i ?ts] assms(1) by auto
  define rest where "rest = concat (drop (Suc i) ?ts)"
  define tuple where "tuple = call_tuple ?c @ rest"
  have arr': "?arr = p @ tuple" using arr by (simp add: tuple_def rest_def)
  have lt: "length tuple < 2 ^ 47" and lo: "32 + ?off + length tuple < 2 ^ 47"
    using assms(3) p unfolding arr' by simp_all
  have lc: "length tuple = 128 + ceil32 (length ?d) + length rest"
    using length_call_tuple [OF wc] by (simp add: tuple_def)
  have ld: "128 + length ?d \<le> length tuple"
    using lc ceil32_ge [of "length ?d"] by simp
  have tt: "tuple = (replicate 12 0 @ Target ?c) @ bool_word (AllowFailure ?c) @ word256 96
     @ word256 (length ?d) @ ?d @ replicate (ceil32 (length ?d) - length ?d) 0 @ rest"
    by (simp add: tuple_def call_tuple_def pad32_def)
  have t20: "length (Target ?c) = 20" using wc by (simp add: wf_call_def)
  have g1: "goslice ?arr (32 + int i * 32) (64 + int i * 32) = Done (word256 ?off)"
    using assms(1) by (intro array_read_offset) simp
  have r1: "int_of_u64 (readUint256 (word256 ?off)) = int ?off"
    using lo by (simp add: readUint256_word256 int_of_u64_of_nat)
  have a1: "wrap64 (32 + int ?off) = 32 + int ?off"
    using lo by (intro wrap64_id) simp_all
  have a2: "wrap64 (32 + int ?off + 96) = 32 + int ?off + 96"
    using lo ld by (intro wrap64_id) simp_all
  have f1: "\<not> (32 + int ?off < 0 \<or> 32 + int ?off + 96 > int (length ?arr))"
    using arr' p ld by simp
  have g2: "goslice ?arr (32 + int ?off) (int (length ?arr)) = Done tuple"
    by (rule goslice_suffix [OF arr']) (simp add: p)
  have g3: "goslice tuple 12 32 = Done (Target ?c)"
    using t20 by (intro goslice_middle [OF tt [unfolded append_assoc]]) simp_all
  have g4: "goslice tuple 63 64 = Done [if AllowFailure ?c then 1 else 0]"
  proof (rule goslice_middle)
    show "tuple = (replicate 12 0 @ Target ?c @ replicate 31 0) @ [if AllowFailure ?c then 1 else 0]
        @ word256 96 @ word256 (length ?d) @ ?d @ replicate (ceil32 (length ?d) - length ?d) 0 @ rest"
      by (simp add: tt bool_word_def)
  qed (use t20 in simp_all)
  have g5: "goslice tuple 64 96 = Done (word256 96)"
  proof (rule goslice_middle)
    show "tuple = (replicate 12 0 @ Target ?c @ bool_word (AllowFailure ?c)) @ word256 96
        @ word256 (length ?d) @ ?d @ replicate (ceil32 (length ?d) - length ?d) 0 @ rest"
      by (simp add: tt)
  qed (use t20 in simp_all)
  have r5: "readUint256 (word256 96) = 96"
    by (simp add: readUint256_word256)
  have s5: "wrap64 (96 + 32) = 128"
    by (simp add: wrap64_def)
  have f5: "\<not> 128 > int (length tuple)" using lc by simp
  have g6: "goslice tuple (uint (96 :: u64)) (uint (96 + 32 :: u64)) = Done (word256 (length ?d))"
  proof (rule goslice_middle)
    show "tuple = (replicate 12 0 @ Target ?c @ bool_word (AllowFailure ?c) @ word256 96)
        @ word256 (length ?d) @ ?d @ replicate (ceil32 (length ?d) - length ?d) 0 @ rest"
      by (simp add: tt)
  qed (use t20 in simp_all)
  have r6: "readUint256 (word256 (length ?d)) = of_nat (length ?d)"
    using ld lt by (intro readUint256_word256) simp
  have i6: "int_of_u64 (of_nat (length ?d)) = int (length ?d)"
    using ld lt by (intro int_of_u64_of_nat) simp
  have u6: "unat (of_nat (length ?d) :: u64) = length ?d"
    using ld lt by (intro unat_of_nat_u64) simp
  have e6: "wrap64 (128 + int (length ?d)) = 128 + int (length ?d)"
    using ld lt by (intro wrap64_id) simp_all
  have f6: "\<not> 128 + int (length ?d) > int (length tuple)" using ld by simp
  have m6: "make_bytes (of_nat (length ?d)) = Done ()"
    using ld lt by (intro make_bytes_small) simp
  have g7: "goslice tuple 128 (128 + int (length ?d)) = Done ?d"
  proof (rule goslice_middle)
    show "tuple = (replicate 12 0 @ Target ?c @ bool_word (AllowFailure ?c) @ word256 96
        @ word256 (length ?d)) @ ?d @ replicate (ceil32 (length ?d) - length ?d) 0 @ rest"
      by (simp add: tt)
  qed (use t20 in simp_all)
  have al: "([if AllowFailure ?c then 1 else 0] \<noteq> [0 :: u8]) = AllowFailure ?c" by simp
  show ?thesis
    by (simp only: decode_call_def g1 obind.simps Let_def r1 a1 a2 f1 fail_if_False g2 g3 g4 g5 r5
          int_of_u64_numeral s5 f5 g6 r6 i6 e6 f6 m6 g7 u6 al take_all order_refl) simp
qed

lemma decodeAggregate3Calls_encode:
  assumes "wf_calls cs"
  shows "decodeAggregate3Calls (encodeAggregate3 cs) = Done cs"
proof -
  let ?ts = "map call_tuple cs"
  let ?arr = "array_layout ?ts"
  let ?args = "word256 32 @ ?arr"
  have w: "cs \<noteq> []" "length cs \<le> 10000" "list_all wf_call cs" "length ?arr < 2 ^ 47"
    using assms by (simp_all add: wf_calls_def)
  have enc: "encodeAggregate3 cs = aggregate3Selector @ ?args"
    by (rule encodeAggregate3_layout [OF assms])
  have la: "32 + length cs * 32 \<le> length ?arr"
    by (simp add: length_array_layout del: length_concat)
  have s: "\<not> (length (encodeAggregate3 cs) < 4 \<or> take 4 (encodeAggregate3 cs) \<noteq> aggregate3Selector)"
    by (simp add: enc)
  have d: "drop 4 (encodeAggregate3 cs) = ?args" by (simp add: enc)
  have o: "readUint256 (take 32 ?args) = 32"
    by (simp add: readUint256_word256)
  have f1: "\<not> (32 > int (length ?args) \<or> wrap64 (int (length ?args) - 32) < 32)"
  proof -
    have "wrap64 (int (length ?args) - 32) = int (length ?arr)"
      using w(4) by (subst wrap64_id) simp_all
    then show ?thesis using la by simp
  qed
  have g1: "goslice ?args (uint (32 :: u64)) (int (length ?args)) = Done ?arr"
    by (rule goslice_suffix [where p = "word256 32"]) simp_all
  have g2: "goslice ?arr 0 32 = Done (word256 (length cs))"
    using array_read_length [of ?ts] la by (subst goslice_int [of _ 0 _ 32]) simp_all
  have n: "readUint256 (word256 (length cs)) = of_nat (length cs)"
    using w(2) by (intro readUint256_word256) simp
  have u: "unat (of_nat (length cs) :: u64) = length cs"
    using w(2) by (intro unat_of_nat_u64) simp
  have f2: "\<not> ((of_nat (length cs) :: u64) = 0 \<or> (of_nat (length cs) :: u64) > 10000)"
    using w(1,2) u by (auto simp: word_less_nat_alt simp flip: unat_eq_zero)
  have i: "int_of_u64 (of_nat (length cs)) = int (length cs)"
    using w(2) by (intro int_of_u64_of_nat) simp
  have f3: "\<not> int (length ?arr) < 32 + int (length cs) * 32" using la by simp
  have m: "omap (decode_call ?arr) [0..<length cs] = Done (map ((!) cs) [0..<length cs])"
    using w by (intro omap_Done decode_call_layout) simp_all
  have f0: "\<not> length ?args < 32" by simp
  show ?thesis
    by (simp only: decodeAggregate3Calls_def Let_def s d o f0 int_of_u64_numeral f1 fail_if_False
          g1 obind.simps g2 n f2 i f3 u m map_nth)
qed

subsection \<open>Results\<close>

lemma decode_result_layout:
  assumes "i < length rs" and "length (array_layout (map result_tuple rs)) < 2 ^ 47"
  shows "decode_result (array_layout (map result_tuple rs)) i = Done (rs ! i)"
proof -
  let ?ts = "map result_tuple rs"
  let ?arr = "array_layout ?ts"
  let ?r = "rs ! i"
  let ?d = "ReturnData ?r"
  let ?off = "tuple_offset ?ts i"
  obtain p where arr: "?arr = p @ result_tuple ?r @ concat (drop (Suc i) ?ts)"
    and p: "length p = 32 + ?off"
    using array_tuple_at [of i ?ts] assms(1) by auto
  define rest where "rest = concat (drop (Suc i) ?ts)"
  define tuple where "tuple = result_tuple ?r @ rest"
  have arr': "?arr = p @ tuple" using arr by (simp add: tuple_def rest_def)
  have lt: "length tuple < 2 ^ 47" and lo: "32 + ?off + length tuple < 2 ^ 47"
    using assms(2) p unfolding arr' by simp_all
  have lc: "length tuple = 96 + ceil32 (length ?d) + length rest"
    by (simp add: tuple_def length_result_tuple)
  have ld: "96 + length ?d \<le> length tuple"
    using lc ceil32_ge [of "length ?d"] by simp
  have tt: "tuple = bool_word (Success ?r) @ word256 64 @ word256 (length ?d)
     @ ?d @ replicate (ceil32 (length ?d) - length ?d) 0 @ rest"
    by (simp add: tuple_def result_tuple_def pad32_def)
  have g1: "goslice ?arr (32 + int i * 32) (64 + int i * 32) = Done (word256 ?off)"
    using assms(1) by (intro array_read_offset) simp
  have r1: "int_of_u64 (readUint256 (word256 ?off)) = int ?off"
    using lo by (simp add: readUint256_word256 int_of_u64_of_nat)
  have a1: "wrap64 (32 + int ?off) = 32 + int ?off"
    using lo by (intro wrap64_id) simp_all
  have f1: "\<not> (32 + int ?off \<ge> int (length ?arr))"
  proof -
    have "length ?arr = 32 + ?off + length tuple"
      by (simp only: arr' length_append p)
    then show ?thesis using ld by linarith
  qed
  have g2: "goslice ?arr (32 + int ?off) (int (length ?arr)) = Done tuple"
    by (rule goslice_suffix [OF arr']) (simp add: p)
  have f2: "\<not> length tuple < 64" using lc by simp
  have su: "(tuple ! 31 \<noteq> 0) = Success ?r"
    by (simp add: tt bool_word_def nth_append)
  have r3: "readUint256 (take 32 (drop 32 tuple)) = 64"
    by (simp add: tt readUint256_word256)
  have s3: "wrap64 (64 + 32) = 96"
    by (simp add: wrap64_def)
  have f3: "\<not> 96 > int (length tuple)" using lc by simp
  have g3: "goslice tuple (uint (64 :: u64)) (uint (64 + 32 :: u64)) = Done (word256 (length ?d))"
  proof (rule goslice_middle)
    show "tuple = (bool_word (Success ?r) @ word256 64) @ word256 (length ?d)
        @ ?d @ replicate (ceil32 (length ?d) - length ?d) 0 @ rest"
      by (simp add: tt)
  qed simp_all
  have r4: "readUint256 (word256 (length ?d)) = of_nat (length ?d)"
    using ld lt by (intro readUint256_word256) simp
  have e4: "(64 + 32 + of_nat (length ?d) :: u64) = of_nat (96 + length ?d)"
    by simp
  have i4: "int_of_u64 (of_nat (96 + length ?d)) = int (96 + length ?d)"
    by (intro int_of_u64_of_nat order.strict_trans [OF le_less_trans [OF ld lt]]) simp
  have u4: "unat (of_nat (length ?d) :: u64) = length ?d"
    using ld lt by (intro unat_of_nat_u64) simp
  have u5: "uint (of_nat (96 + length ?d) :: u64) = int (96 + length ?d)"
  proof -
    have "unat (of_nat (96 + length ?d) :: u64) = 96 + length ?d"
      by (intro unat_of_nat_u64 order.strict_trans [OF le_less_trans [OF ld lt]]) simp
    then show ?thesis by (simp only: uint_nat)
  qed
  have f4: "\<not> int (96 + length ?d) > int (length tuple)" using ld by simp
  have m4: "make_bytes (of_nat (length ?d)) = Done ()"
    using ld lt by (intro make_bytes_small) simp
  have g4: "goslice tuple (uint (64 + 32 :: u64)) (int (96 + length ?d)) = Done ?d"
  proof (rule goslice_middle)
    show "tuple = (bool_word (Success ?r) @ word256 64 @ word256 (length ?d)) @ ?d
        @ replicate (ceil32 (length ?d) - length ?d) 0 @ rest"
      by (simp add: tt)
  qed simp_all
  show ?thesis
    by (simp only: decode_result_def g1 obind.simps Let_def r1 a1 f1 fail_if_False g2 f2 su r3
          int_of_u64_numeral s3 f3 g3 r4 e4 i4 u5 f4 m4 g4 u4 take_all order_refl) simp
qed

lemma decodeAggregate3Result_bytes_encode:
  assumes "wf_results rs"
  shows "decodeAggregate3Result_bytes (encodeAggregate3Result rs) = Done rs"
proof -
  let ?ts = "map result_tuple rs"
  let ?arr = "array_layout ?ts"
  let ?data = "word256 32 @ ?arr"
  have w: "length rs \<le> 10000" "length ?arr < 2 ^ 47"
    using assms by (simp_all add: wf_results_def)
  have enc: "encodeAggregate3Result rs = ?data"
    by (rule encodeAggregate3Result_layout [OF assms])
  have la: "32 + length rs * 32 \<le> length ?arr"
    by (simp add: length_array_layout del: length_concat)
  have f0: "\<not> length ?data < 64" using la by simp
  have o: "readUint256 (take 32 ?data) = 32"
    by (simp add: readUint256_word256)
  have f1: "\<not> 32 \<ge> int (length ?data)"
  proof -
    have "length ?data = 32 + length ?arr"
      by (simp only: length_append length_word256)
    then show ?thesis using la by linarith
  qed
  have g1: "goslice ?data (uint (32 :: u64)) (int (length ?data)) = Done ?arr"
    by (rule goslice_suffix [where p = "word256 32"]) simp_all
  have f2: "\<not> length ?arr < 32" using la by simp
  have n: "readUint256 (take 32 ?arr) = of_nat (length rs)"
    using array_read_length [of ?ts] w(1) by (simp add: readUint256_word256)
  have u: "unat (of_nat (length rs) :: u64) = length rs"
    using w(1) by (intro unat_of_nat_u64) simp
  have f3: "\<not> (of_nat (length rs) :: u64) > 10000"
    using w(1) u by (simp add: word_less_nat_alt)
  have i: "int_of_u64 (of_nat (length rs)) = int (length rs)"
    using w(1) by (intro int_of_u64_of_nat) simp
  have f4: "\<not> int (length ?arr) < 32 + int (length rs) * 32" using la by simp
  have m: "omap (decode_result ?arr) [0..<length rs] = Done (map ((!) rs) [0..<length rs])"
    using w by (intro omap_Done decode_result_layout) simp_all
  show ?thesis
    by (simp only: decodeAggregate3Result_bytes_def enc Let_def f0 o int_of_u64_numeral f1 fail_if_False
          g1 obind.simps f2 n f3 i f4 u m map_nth)
qed

section \<open>Addresses and calldata in hexadecimal\<close>

definition hexToBytes :: "string \<Rightarrow> bytes" where
  "hexToBytes s = (case hex_decode (trim_prefix ''0x'' s) of None \<Rightarrow> [] | Some b \<Rightarrow> b)"

text \<open>The last 20 bytes, right-aligned; the zero address when the string is not hexadecimal.\<close>

definition hexToAddress :: "string \<Rightarrow> bytes" where
  "hexToAddress s =
     (case hex_decode (trim_prefix ''0x'' s) of
        None \<Rightarrow> replicate 20 0
      | Some b \<Rightarrow>
        (let b' = (if length b > 20 then drop (length b - 20) b else b)
         in replicate (20 - length b') 0 @ b'))"

definition hex0x :: "bytes \<Rightarrow> string" where
  "hex0x b = ''0x'' @ hex_encode b"

lemma length_hexToAddress [simp]: "length (hexToAddress s) = 20"
  by (simp add: hexToAddress_def Let_def split: option.split)

lemma hexToBytes_hex0x [simp]: "hexToBytes (hex0x b) = b"
  by (simp add: hexToBytes_def hex0x_def)

lemma hexToAddress_hex0x: "length a = 20 \<Longrightarrow> hexToAddress (hex0x a) = a"
  by (simp add: hexToAddress_def hex0x_def)

lemma hex0x_inj: "hex0x a = hex0x b \<longleftrightarrow> a = b"
  by (simp add: hex0x_def hex_encode_inj)

section \<open>The two codecs\<close>

text \<open>Both pairs of functions, and the hexadecimal wire form of the results, meet the contract.\<close>

interpretation calls: codec encodeAggregate3 decodeAggregate3Calls wf_calls
  by unfold_locales (rule decodeAggregate3Calls_encode)

interpretation result_bytes: codec encodeAggregate3Result decodeAggregate3Result_bytes wf_results
  by unfold_locales (rule decodeAggregate3Result_bytes_encode)

lemma decodeAggregate3Result_hex0x: "decodeAggregate3Result (hex0x b) = decodeAggregate3Result_bytes b"
  by (simp add: decodeAggregate3Result_def hex0x_def)

interpretation results: codec "\<lambda>rs. hex0x (encodeAggregate3Result rs)" decodeAggregate3Result wf_results
  by unfold_locales (simp add: decodeAggregate3Result_hex0x result_bytes.dec_enc)

lemma wf_calls_small:
  assumes "cs \<noteq> []" and "length cs \<le> 10000" and "list_all wf_call cs"
    and "\<And>c. c \<in> set cs \<Longrightarrow> length (CallData c) \<le> 2 ^ 20"
  shows "wf_calls cs"
proof -
  have "length (call_tuple c) \<le> 2 ^ 21" if "c \<in> set cs" for c
  proof -
    have "length (call_tuple c) = 128 + ceil32 (length (CallData c))"
      using assms(3) that by (intro length_call_tuple) (simp add: list_all_iff)
    then show ?thesis
      using ceil32_less [of "length (CallData c)"] assms(4) [OF that] by simp
  qed
  then have "length (concat (map call_tuple cs)) \<le> length cs * 2 ^ 21"
  proof (induction cs)
    case Nil
    then show ?case by simp
  next
    case (Cons c cs)
    then have "length (call_tuple c) \<le> 2 ^ 21" and "length (concat (map call_tuple cs)) \<le> length cs * 2 ^ 21"
      by simp_all
    then show ?case by simp
  qed
  then have "length (array_layout (map call_tuple cs)) < 2 ^ 47"
    using assms(2) by (simp add: length_array_layout del: length_concat)
  then show ?thesis using assms by (simp add: wf_calls_def)
qed

text \<open>
  C29. Decoding the calldata of an aggregate3 call gives back exactly the encoded calls: targets,
  flags and calldata, in order.
\<close>

theorem calls_roundtrip:
  assumes "wf_calls cs"
  shows "decodeAggregate3Calls (encodeAggregate3 cs) = Done cs"
  using assms by (rule calls.dec_enc)

definition sample_calls :: "call3 list" where
  "sample_calls =
     [\<lparr>Target = replicate 20 0x11, AllowFailure = True, CallData = [0x31, 0x3c, 0xe5, 0x67]\<rparr>,
      \<lparr>Target = replicate 20 0x22, AllowFailure = False, CallData = replicate 36 0xff\<rparr>]"

lemma wf_sample_calls: "wf_calls sample_calls"
  by (rule wf_calls_small) (auto simp: sample_calls_def wf_call_def)

theorem calls_roundtrip_witness:
  "decodeAggregate3Calls (encodeAggregate3 sample_calls) = Done sample_calls"
  by (rule calls_roundtrip [OF wf_sample_calls])

text \<open>
  C30. The result array survives its encoding and its hexadecimal rendering: decoding the string a
  synthesized multicall response carries gives back the success flags and return data.
\<close>

theorem results_roundtrip:
  assumes "wf_results rs"
  shows "decodeAggregate3Result (hex0x (encodeAggregate3Result rs)) = Done rs"
  using assms by (rule results.dec_enc)

definition sample_results :: "multicallResult list" where
  "sample_results =
     [\<lparr>Success = True, ReturnData = replicate 31 0 @ [18]\<rparr>, \<lparr>Success = False, ReturnData = []\<rparr>]"

lemma wf_sample_results: "wf_results sample_results"
  by (simp add: wf_results_def sample_results_def length_array_layout result_tuple_def ceil32_div)

theorem results_roundtrip_witness:
  "decodeAggregate3Result (hex0x (encodeAggregate3Result sample_results)) = Done sample_results"
  by (rule results_roundtrip [OF wf_sample_results])

section \<open>When decoding panics\<close>

text \<open>
  The bound checks compare after the conversion to the signed \<open>int\<close>, the slice expressions use the
  unsigned word: an offset or length of at least \<open>2 ^ 63\<close> passes the check and then panics. The
  words of element \<open>i\<close> with that effect:
\<close>

definition wrapping_tuple :: "bytes \<Rightarrow> nat \<Rightarrow> bool" where
  "wrapping_tuple arrayData i =
     (let absOffset = wrap64 (32 + int_of_u64 (readUint256 (take 32 (drop (32 + i * 32) arrayData))));
          tupleData = drop (nat absOffset) arrayData;
          ro = readUint256 (take 32 (drop 32 tupleData));
          len = readUint256 (take 32 (drop (unat ro) tupleData))
      in absOffset < 0 \<or> wrap64 (int_of_u64 ro + 32) < 32 \<or> uint len > 2 ^ 48)"

definition wrapping_words :: "bytes \<Rightarrow> bool" where
  "wrapping_words data =
     (let off = readUint256 (take 32 data);
          arrayData = drop (unat off) data
      in int_of_u64 off < 0
         \<or> (\<exists>i \<in> set [0..<unat (readUint256 (take 32 arrayData))]. wrapping_tuple arrayData i))"

lemma goslice_ok:
  assumes "0 \<le> lo" and "lo \<le> hi" and "hi \<le> int (length xs)"
  shows "goslice xs lo hi = Done (take (nat (hi - lo)) (drop (nat lo) xs))"
  using assms by (simp add: goslice_def)

lemma int_of_u64_nonneg: "0 \<le> int_of_u64 w \<Longrightarrow> int_of_u64 w = uint w"
proof -
  assume nn: "0 \<le> int_of_u64 w"
  have "uint w < 2 ^ 63"
  proof (rule ccontr)
    assume "\<not> uint w < 2 ^ 63"
    then have "wrap64 (uint w) = uint w - 2 ^ 64"
      using uint_lt2p [of w] by (simp add: wrap64_def mod_pos_pos_trivial [of "uint w - 2 ^ 63"]
          flip: minus_mod_eq_mult_div)
         (smt (verit) mod_pos_pos_trivial minus_mod_self2)
    then show False using nn uint_lt2p [of w] by (simp add: int_of_u64_def)
  qed
  then show ?thesis by (simp add: int_of_u64_def wrap64_id order_trans [OF _ uint_ge_0])
qed

text \<open>
  Without those words every slice expression is in range: the guards are then exact.
\<close>

lemma fail_if_guard: "(\<not> b \<Longrightarrow> m \<noteq> Panic) \<Longrightarrow> fail_if b e m \<noteq> Panic"
  by (simp add: fail_if_def)

lemma uint_add_u64: "uint a + uint b < 2 ^ 64 \<Longrightarrow> uint (a + b :: u64) = uint a + uint b"
  by (simp add: uint_word_ariths)

lemma small_word:
  assumes "32 \<le> wrap64 (int_of_u64 w + 32)"
  shows "int_of_u64 w = uint w" and "uint (w + 32) = uint w + 32" and "wrap64 (int_of_u64 w + 32) = uint w + 32"
proof -
  have r: "- (2 ^ 63) \<le> int_of_u64 w" "int_of_u64 w < 2 ^ 63"
    by (simp_all only: int_of_u64_def wrap64_lower wrap64_upper)
  have nn: "0 \<le> int_of_u64 w \<and> int_of_u64 w + 32 < 2 ^ 63"
  proof (cases "int_of_u64 w + 32 < 2 ^ 63")
    case True
    then have "wrap64 (int_of_u64 w + 32) = int_of_u64 w + 32"
      using r by (intro wrap64_id) simp_all
    then show ?thesis using True assms by simp
  next
    case False
    then have "wrap64 (int_of_u64 w + 32) = int_of_u64 w + 32 - 2 ^ 64"
      using r by (simp add: wrap64_def) (smt (verit) mod_pos_pos_trivial minus_mod_self2)
    then show ?thesis using r assms by simp
  qed
  then show 1: "int_of_u64 w = uint w" by (simp add: int_of_u64_nonneg)
  have lt: "uint w + 32 < 2 ^ 63" using nn 1 by simp
  then show "uint (w + 32) = uint w + 32"
    by (simp add: uint_word_ariths)
  show "wrap64 (int_of_u64 w + 32) = uint w + 32"
    unfolding 1 using lt uint_ge_0 [of w] by (intro wrap64_id) simp_all
qed

text \<open>The part of a tuple behind its return-data offset.\<close>

lemma return_data_safe:
  fixes ro :: u64
  assumes ro: "32 \<le> wrap64 (int_of_u64 ro + 32)" and small: "length tuple < 2 ^ 47"
    and le: "wrap64 (int_of_u64 ro + 32) \<le> int (length tuple)"
    and ln: "uint (readUint256 (take 32 (drop (unat ro) tuple))) \<le> 2 ^ 48"
  shows "obind (goslice tuple (uint ro) (uint (ro + 32))) (\<lambda>lw.
       fail_if (int_of_u64 (ro + 32 + readUint256 lw) > int (length tuple)) (e lw)
        (obind (make_bytes (readUint256 lw)) (\<lambda>_.
         obind (goslice tuple (uint (ro + 32)) (uint (ro + 32 + readUint256 lw))) (\<lambda>rd.
         Done (f lw rd))))) \<noteq> Panic"
proof -
  note w = small_word [OF ro]
  define l where "l = int (length tuple)"
  define len where "len = readUint256 (take 32 (drop (unat ro) tuple))"
  have l: "l < 2 ^ 47" "uint ro + 32 \<le> l" "uint len \<le> 2 ^ 48"
    using small le ln w(3) by (simp_all add: l_def len_def)
  have g: "goslice tuple (uint ro) (uint (ro + 32)) = Done (take 32 (drop (unat ro) tuple))"
    using goslice_ok [of "uint ro" "uint (ro + 32)" tuple] l w(2) by (simp add: l_def)
  have su: "uint (ro + 32 + len) = uint ro + 32 + uint len"
  proof -
    have "uint ro + 32 + uint len < 2 ^ 64" using l by simp
    then show ?thesis using uint_add_u64 [of "ro + 32" len] w(2) by simp
  qed
  have si: "int_of_u64 (ro + 32 + len) = uint ro + 32 + uint len"
    unfolding int_of_u64_def su
    using l uint_ge_0 [of ro] uint_ge_0 [of len] by (intro wrap64_id; simp)
  have m: "make_bytes len = Done ()" using l(3) by (simp add: make_bytes_def)
  show ?thesis
  proof (cases "uint ro + 32 + uint len > l")
    case True
    then show ?thesis by (simp add: g si fail_if_def l_def flip: len_def)
  next
    case False
    then have "0 \<le> uint (ro + 32)" and "uint (ro + 32) \<le> uint (ro + 32 + len)"
      and "uint (ro + 32 + len) \<le> int (length tuple)"
      using w(2) su uint_ge_0 [of len] by (simp_all add: l_def)
    then show ?thesis
      using False by (simp add: g si m fail_if_def l_def goslice_ok flip: len_def)
  qed
qed

lemma decode_result_safe:
  assumes i: "64 + i * 32 \<le> length arr" and small: "length arr < 2 ^ 47"
    and ok: "\<not> wrapping_tuple arr i"
  shows "decode_result arr i \<noteq> Panic"
proof -
  define abs where "abs = wrap64 (32 + int_of_u64 (readUint256 (take 32 (drop (32 + i * 32) arr))))"
  define tuple where "tuple = drop (nat abs) arr"
  define ro where "ro = readUint256 (take 32 (drop 32 tuple))"
  have g1: "goslice arr (32 + int i * 32) (64 + int i * 32) = Done (take 32 (drop (32 + i * 32) arr))"
    using i by (subst goslice_int [of _ "32 + i * 32" _ "64 + i * 32"]) simp_all
  have ab: "0 \<le> abs" and ro: "32 \<le> wrap64 (int_of_u64 ro + 32)"
    and ln: "uint (readUint256 (take 32 (drop (unat ro) tuple))) \<le> 2 ^ 48"
    using ok by (simp_all only: wrapping_tuple_def Let_def not_less de_Morgan_disj abs_def tuple_def ro_def)
  have lt: "length tuple < 2 ^ 47" using small by (simp add: tuple_def)
  show ?thesis
  proof (cases "abs \<ge> int (length arr)")
    case True
    then show ?thesis
      by (simp add: decode_result_def g1 fail_if_def Let_def flip: abs_def)
  next
    case False
    then have g2: "goslice arr abs (int (length arr)) = Done tuple"
      using ab by (simp add: goslice_def tuple_def)
    show ?thesis
      unfolding decode_result_def g1 obind.simps Let_def abs_def [symmetric]
      using False
      by (simp only: g2 obind.simps fail_if_False ro_def [symmetric])
         (intro fail_if_guard return_data_safe [OF ro lt _ ln], simp add: not_less)
  qed
qed

lemma decodeAggregate3Result_bytes_safe:
  assumes small: "length data < 2 ^ 47" and ok: "\<not> wrapping_words data"
  shows "decodeAggregate3Result_bytes data \<noteq> Panic"
proof -
  define off where "off = readUint256 (take 32 data)"
  define arr where "arr = drop (unat off) data"
  define n where "n = readUint256 (take 32 arr)"
  have nn: "0 \<le> int_of_u64 off" and tup: "\<forall>i \<in> set [0..<unat n]. \<not> wrapping_tuple arr i"
    using ok by (simp_all add: wrapping_words_def Let_def off_def arr_def n_def not_less)
  have la: "length arr < 2 ^ 47" using small by (simp add: arr_def)
  have loop: "omap (decode_result arr) [0..<unat n] \<noteq> Panic"
    if "n \<le> 10000" and "32 + int_of_u64 n * 32 \<le> int (length arr)"
  proof (intro omap_neq_Panic decode_result_safe la)
    fix i assume i: "i \<in> set [0..<unat n]"
    have "unat n \<le> 10000" using that(1) by (simp add: word_le_nat_alt)
    then have "int_of_u64 n = int (unat n)" by (intro int_of_u64_small) simp
    then have "32 + unat n * 32 \<le> length arr" using that(2) by linarith
    then show "64 + i * 32 \<le> length arr" using i by simp
    show "\<not> wrapping_tuple arr i" using tup i by blast
  qed
  have slice: "obind (goslice data (uint off) (int (length data))) F \<noteq> Panic"
    if "int_of_u64 off < int (length data)" and "F arr \<noteq> Panic"
    for F :: "bytes \<Rightarrow> (decode_error, multicallResult list) outcome"
  proof -
    have "int (unat off) < int (length data)"
      using that(1) int_of_u64_nonneg [OF nn] by (simp only: uint_nat)
    then have "unat off < length data" by linarith
    then show ?thesis
      using that(2) by (simp only: uint_nat goslice_tail less_imp_le obind.simps arr_def not_False_eq_True)
  qed
  then show ?thesis
    unfolding decodeAggregate3Result_bytes_def Let_def off_def [symmetric]
    using loop by (intro fail_if_guard slice) (simp_all add: not_less not_le flip: n_def)
qed

text \<open>
  On any reply of a size that fits the address space in which no offset or length word wraps,
  the decoder of an aggregate3 result returns: it gives the results or one of its errors, and no
  slice expression is out of range.
\<close>

theorem decode_results_no_panic:
  assumes "length data < 2 ^ 47" and "\<not> wrapping_words data"
  shows "decodeAggregate3Result_bytes data \<noteq> Panic"
  using assms by (rule decodeAggregate3Result_bytes_safe)

text \<open>A reply that is cut off behind its offset table: the decoder reports the error.\<close>

theorem decode_results_no_panic_witness:
  "decodeAggregate3Result_bytes (word256 32 @ word256 1 @ word256 4096) \<noteq> Panic"
  by (rule decode_results_no_panic) (simp, code_simp)

text \<open>
  A reply of at least 64 bytes whose array offset is a word of at least \<open>2 ^ 63\<close> makes the
  decoder panic, before any of its errors is reported.
\<close>

theorem decode_results_panics:
  assumes "64 \<le> length data" and "length data < 2 ^ 63"
    and "int_of_u64 (readUint256 (take 32 data)) < 0"
  shows "decodeAggregate3Result_bytes data = Panic"
proof -
  define off where "off = readUint256 (take 32 data)"
  have "\<not> uint off < 2 ^ 63"
  proof
    assume "uint off < 2 ^ 63"
    then have "int_of_u64 off = uint off"
      unfolding int_of_u64_def by (intro wrap64_id) (use uint_ge_0 [of off] in linarith)+
    then show False using assms(3) uint_ge_0 [of off] by (simp add: off_def)
  qed
  then have g: "goslice data (uint off) (int (length data)) = Panic"
    using assms(2) by (simp add: goslice_def)
  have "\<not> int_of_u64 off \<ge> int (length data)"
    using assms(1,3) by (simp add: off_def)
  then show ?thesis
    using assms(1)
    by (simp only: decodeAggregate3Result_bytes_def Let_def g obind.simps flip: off_def)
       (simp add: fail_if_def)
qed

lemma readUint256_ones: "readUint256 (replicate 32 0xff) = 0xffffffffffffffff"
proof -
  have "drop 24 (replicate 32 (0xff :: u8)) = [0xff, 0xff, 0xff, 0xff, 0xff, 0xff, 0xff, 0xff]"
    by (simp add: numeral_eq_Suc)
  then show ?thesis by (simp add: readUint256_def be_get_def)
qed

theorem decode_results_panics_witness:
  "decodeAggregate3Result_bytes (replicate 64 0xff) = Panic"
  by (rule decode_results_panics) (simp_all add: readUint256_ones int_of_u64_def wrap64_def)

end
