(* ===== verification/Multicall.thy ===== *)
theory Multicall
  imports Rpc_Types Aggregate3 "HOL-Library.Multiset"
begin

text \<open>
  The aggregation of \<open>eth_call\<close> requests, \<open>internal/backend/multicall.go\<close>: reading the parameters of a
  call, combining the eligible calls of a batch into aggregate3 calls (one per block tag and chunk of
  at most \<open>MaxCalls\<close>), and expanding the answers back to the original requests.
\<close>

section \<open>Reading eth_call\<close>

record ethCallParams =
  To :: string
  Data :: string
  From :: string
  Gas :: string
  GasPrice :: string
  Value :: string

record parsedEthCall =
  CallParams :: ethCallParams
  BlockTag :: string
  HasStateOverrides :: bool

definition decode_ethCallParams :: "members \<Rightarrow> ethCallParams option" where
  "decode_ethCallParams ms =
     (case those (map (\<lambda>f. string_field f ms) [''to'', ''data'', ''from'', ''gas'', ''gasPrice'', ''value'']) of
        Some [to, d, from, gas, price, val] \<Rightarrow>
          Some \<lparr>To = to, Data = d, From = from, Gas = gas, GasPrice = price, Value = val\<rparr>
      | _ \<Rightarrow> None)"

definition parseEthCallParams :: "raw \<Rightarrow> parsedEthCall option" where
  "parseEthCallParams params =
     (case as_slice params of
        Some (obj # rest) \<Rightarrow>
          (case Option.bind (as_struct (Some obj)) decode_ethCallParams of
             None \<Rightarrow> None
           | Some callObj \<Rightarrow>
             (let tag = (case rest of
                           [] \<Rightarrow> ''latest''
                         | t # _ \<Rightarrow>
                           (case as_string (Some t) of
                              Some s \<Rightarrow> if s \<noteq> [] then s else ''latest''
                            | None \<Rightarrow> ''latest''))
              in Some \<lparr>CallParams = callObj, BlockTag = tag, HasStateOverrides = length rest > 1\<rparr>))
      | _ \<Rightarrow> None)"

text \<open>Calls whose answer is fixed for the life of the contract.\<close>

definition immutableSelectors :: "bytes list" where
  "immutableSelectors =
     [[0x31, 0x3c, 0xe5, 0x67], [0x95, 0xd8, 0x9b, 0x41], [0x06, 0xfd, 0xde, 0x03],
      [0x0d, 0xfe, 0x16, 0x81], [0xd2, 0x12, 0x20, 0xa7]]"

definition isImmutableSelector :: "bytes \<Rightarrow> bool" where
  "isImmutableSelector callData =
     (if length callData < 4 then False else take 4 callData \<in> set immutableSelectors)"

definition execution_context :: "ethCallParams \<Rightarrow> bool" where
  "execution_context p \<longleftrightarrow> From p \<noteq> [] \<or> Value p \<noteq> [] \<or> Gas p \<noteq> [] \<or> GasPrice p \<noteq> []"

definition decodeImmutableCallParsed :: "parsedEthCall \<Rightarrow> (bytes \<times> bytes) option" where
  "decodeImmutableCallParsed parsed =
     (let p = CallParams parsed in
      if To p = [] \<or> Data p = [] then None
      else if HasStateOverrides parsed \<or> execution_context p then None
      else let callData = hexToBytes (Data p) in
        if \<not> isImmutableSelector callData then None
        else Some (hexToAddress (To p), callData))"

definition decodeImmutableCallFrom :: "parsedEthCall option \<Rightarrow> (bytes \<times> bytes) option" where
  "decodeImmutableCallFrom parsed =
     (case parsed of None \<Rightarrow> None | Some p \<Rightarrow> decodeImmutableCallParsed p)"

definition decodeImmutableCall :: "string \<Rightarrow> raw \<Rightarrow> (bytes \<times> bytes) option" where
  "decodeImmutableCall method params =
     (case parseEthCallParams params of
        None \<Rightarrow> None
      | Some parsed \<Rightarrow> if method \<noteq> ''eth_call'' then None else decodeImmutableCallParsed parsed)"

definition decodeMulticallParsed :: "parsedEthCall \<Rightarrow> (unit, call3 list) outcome" where
  "decodeMulticallParsed parsed =
     (if Data (CallParams parsed) = [] then Fail ()
      else decodeAggregate3Calls (hexToBytes (Data (CallParams parsed))))"

definition decodeMulticall :: "string \<Rightarrow> raw \<Rightarrow> (unit, call3 list) outcome" where
  "decodeMulticall method params =
     (case parseEthCallParams params of
        None \<Rightarrow> Fail ()
      | Some parsed \<Rightarrow> if method \<noteq> ''eth_call'' then Fail () else decodeMulticallParsed parsed)"

text \<open>
  The calls that the program reads as a node does: an object with just a target of 20 bytes and calldata,
  both in hexadecimal, and a block parameter that is absent or a string.
\<close>

definition names_address :: "string \<Rightarrow> bytes \<Rightarrow> bool" where
  "names_address to t \<longleftrightarrow> length t = 20 \<and> (\<exists>a. to = ''0x'' @ a \<and> hex_decode a = Some t)"

definition plain_params :: "raw \<Rightarrow> string \<Rightarrow> bytes \<Rightarrow> bytes \<Rightarrow> bool" where
  "plain_params ps tag t d \<longleftrightarrow>
     (\<exists>l1 l2 to x rest.
        unquote l1 = Some to \<and> names_address to t
        \<and> unquote l2 = Some (''0x'' @ x) \<and> hex_decode x = Some d
        \<and> (ps = Some (JArr (JObj [(''to'', JStr l1), (''data'', JStr l2)] # rest))
           \<or> ps = Some (JArr (JObj [(''data'', JStr l2), (''to'', JStr l1)] # rest)))
        \<and> (rest = [] \<and> tag = ''latest'' \<or> (\<exists>l. rest = [JStr l] \<and> unquote l = Some tag \<and> tag \<noteq> [])))"

lemma plain_params_parsed:
  assumes "plain_params ps tag t d"
  shows "\<exists>to x. parseEthCallParams ps
      = Some \<lparr>CallParams = \<lparr>To = to, Data = x, From = [], Gas = [], GasPrice = [], Value = []\<rparr>, BlockTag = tag,
              HasStateOverrides = False\<rparr>
    \<and> names_address to t \<and> to \<noteq> [] \<and> x \<noteq> [] \<and> hexToAddress to = t \<and> hexToBytes x = d"
proof -
  obtain l1 l2 a x rest where p: "unquote l1 = Some (''0x'' @ a)" "hex_decode a = Some t" "length t = 20"
      "unquote l2 = Some (''0x'' @ x)" "hex_decode x = Some d"
    and ps: "ps = Some (JArr (JObj [(''to'', JStr l1), (''data'', JStr l2)] # rest))
           \<or> ps = Some (JArr (JObj [(''data'', JStr l2), (''to'', JStr l1)] # rest))"
    and tag: "rest = [] \<and> tag = ''latest'' \<or> (\<exists>l. rest = [JStr l] \<and> unquote l = Some tag \<and> tag \<noteq> [])"
    using assms unfolding plain_params_def names_address_def by blast
  moreover have "names_address (''0x'' @ a) t" using p(2,3) by (simp add: names_address_def)
  moreover have "hexToAddress (''0x'' @ a) = t" "hexToBytes (''0x'' @ x) = d"
    using p by (simp_all add: hexToAddress_def hexToBytes_def)
  moreover have "parseEthCallParams ps
      = Some \<lparr>CallParams = \<lparr>To = ''0x'' @ a, Data = ''0x'' @ x, From = [], Gas = [], GasPrice = [], Value = []\<rparr>, BlockTag = tag,
              HasStateOverrides = False\<rparr>"
    using ps tag p(1,4) by (elim disjE exE conjE) (simp_all add: parseEthCallParams_def decode_ethCallParams_def json_eval)
  ultimately show ?thesis by (intro exI conjI) auto
qed
section \<open>Aggregation\<close>

text \<open>\<open>MaxCalls\<close> is at least 1: the configuration replaces any other value by 150.\<close>

record MulticallConfig =
  McEnabled :: bool
  MaxCalls :: nat
  Address :: string

record multicallEntry =
  OriginalID :: raw
  OriginalParams :: raw
  Index :: nat

record multicallGroup =
  SyntheticID :: raw
  GroupTag :: string
  Entries :: "multicallEntry list"

record MulticallMapping =
  Groups :: "multicallGroup list"
  Passthrough :: "BatchRequest list"

record eligibleCall =
  requestIdx :: nat
  eparams :: ethCallParams
  eblockTag :: string

text \<open>The body of the first loop: what a request is eligible as, None to pass it through.\<close>

definition eligible_call :: "nat \<Rightarrow> BatchRequest \<Rightarrow> eligibleCall option" where
  "eligible_call i req =
     (if Method req \<noteq> ''eth_call'' then None
      else
        (case parseEthCallParams (Params req) of
           None \<Rightarrow> None
         | Some parsed \<Rightarrow>
           if To (CallParams parsed) = [] \<or> Data (CallParams parsed) = [] then None
           else if HasStateOverrides parsed then None
           else if execution_context (CallParams parsed) then None
           else Some \<lparr>requestIdx = i, eparams = CallParams parsed, eblockTag = BlockTag parsed\<rparr>))"

fun classify :: "nat \<Rightarrow> BatchRequest list \<Rightarrow> BatchRequest list \<times> eligibleCall list" where
  "classify i [] = ([], [])"
| "classify i (req # reqs) =
     (case classify (Suc i) reqs of (pass, elig) \<Rightarrow>
        (case eligible_call i req of
           None \<Rightarrow> (req # pass, elig)
         | Some e \<Rightarrow> (pass, e # elig)))"

text \<open>Grouping by tag, the tags in the order of their first call.\<close>

type_synonym tag_groups = "string list \<times> (string \<rightharpoonup> eligibleCall list)"

definition group_call :: "tag_groups \<Rightarrow> eligibleCall \<Rightarrow> tag_groups" where
  "group_call st e =
     (case st of (tagOrder, tagGroups) \<Rightarrow>
        (case tagGroups (eblockTag e) of
           None \<Rightarrow> (tagOrder @ [eblockTag e], tagGroups(eblockTag e \<mapsto> [e]))
         | Some es \<Rightarrow> (tagOrder, tagGroups(eblockTag e \<mapsto> es @ [e]))))"

text \<open>
  The bounds of the chunks of a group: the loop over \<open>chunkStart\<close>. It does not return when
  \<open>MaxCalls\<close> is 0.
\<close>

partial_function (option) chunk_bounds :: "nat \<Rightarrow> nat \<Rightarrow> nat \<Rightarrow> (nat \<times> nat) list option" where
  "chunk_bounds k chunkStart n =
     (if chunkStart < n then
        Option.bind (chunk_bounds k (chunkStart + k) n)
          (\<lambda>bs. Some ((chunkStart, min (chunkStart + k) n) # bs))
      else Some [])"

declare chunk_bounds.simps [code]

definition synthetic_id :: "u64 \<Rightarrow> raw" where
  "synthetic_id n = Some (JStr (''__multicall_'' @ itoa (unat n)))"

definition call3_of :: "eligibleCall \<Rightarrow> call3" where
  "call3_of c =
     \<lparr>Target = hexToAddress (To (eparams c)), AllowFailure = True,
      CallData = hexToBytes (Data (eparams c))\<rparr>"

definition multicall_params :: "string \<Rightarrow> string \<Rightarrow> bytes \<Rightarrow> json" where
  "multicall_params to tag calldata =
     JArr [JObj [(''data'', jstring (hex0x calldata)), (''to'', jstring to)], jstring tag]"

definition group_request :: "MulticallConfig \<Rightarrow> raw \<Rightarrow> string \<Rightarrow> eligibleCall list \<Rightarrow> BatchRequest" where
  "group_request cfg syn tag chunk =
     \<lparr>JSONRPC = ''2.0'', ID = syn, Method = ''eth_call'',
      Params = Some (multicall_params (Address cfg) tag (encodeAggregate3 (map call3_of chunk)))\<rparr>"

definition chunk_entry :: "BatchRequest list \<Rightarrow> nat \<Rightarrow> eligibleCall \<Rightarrow> multicallEntry" where
  "chunk_entry requests j c =
     \<lparr>OriginalID = ID (requests ! requestIdx c), OriginalParams = Params (requests ! requestIdx c),
      Index = j\<rparr>"

text \<open>
  The state of the second loop: the outgoing requests, the mapping, and how often the counter of
  synthetic identifiers was raised. The \<open>k\<close>-th increment of this call gives \<open>fresh k\<close>: other batches
  raise the same counter in between.
\<close>

record agg_state =
  agg_out :: "BatchRequest list"
  agg_pass :: "BatchRequest list"
  agg_groups :: "multicallGroup list"
  agg_count :: nat

definition emit_chunk ::
  "(nat \<Rightarrow> u64) \<Rightarrow> MulticallConfig \<Rightarrow> BatchRequest list \<Rightarrow> string \<Rightarrow> agg_state \<Rightarrow> eligibleCall list
     \<Rightarrow> agg_state" where
  "emit_chunk fresh cfg requests tag st chunk =
     (case chunk of
        [c] \<Rightarrow>
          st\<lparr>agg_pass := agg_pass st @ [requests ! requestIdx c],
             agg_out := agg_out st @ [requests ! requestIdx c]\<rparr>
      | _ \<Rightarrow>
          (let syn = synthetic_id (fresh (agg_count st)) in
           st\<lparr>agg_out := agg_out st @ [group_request cfg syn tag chunk],
              agg_groups := agg_groups st
                @ [\<lparr>SyntheticID = syn, GroupTag = tag,
                    Entries = map (\<lambda>(j, c). chunk_entry requests j c) (enumerate 0 chunk)\<rparr>],
              agg_count := Suc (agg_count st)\<rparr>))"

definition emit_tag ::
  "(nat \<Rightarrow> u64) \<Rightarrow> MulticallConfig \<Rightarrow> BatchRequest list \<Rightarrow> tag_groups \<Rightarrow> agg_state option \<Rightarrow> string
     \<Rightarrow> agg_state option" where
  "emit_tag fresh cfg requests tg st tag =
     Option.bind st (\<lambda>s.
       (let calls = (case snd tg tag of None \<Rightarrow> [] | Some cs \<Rightarrow> cs) in
        map_option
          (\<lambda>bs. foldl (emit_chunk fresh cfg requests tag) s
                  (map (\<lambda>(lo, hi). take (hi - lo) (drop lo calls)) bs))
          (chunk_bounds (MaxCalls cfg) 0 (length calls))))"

text \<open>
  The outer None: the call does not return. The inner one: no mapping, the requests are sent as
  they are.
\<close>

definition aggregateEthCalls ::
  "(nat \<Rightarrow> u64) \<Rightarrow> BatchRequest list \<Rightarrow> MulticallConfig
     \<Rightarrow> (BatchRequest list \<times> MulticallMapping option) option" where
  "aggregateEthCalls fresh requests cfg =
     (case classify 0 requests of (pass, eligible) \<Rightarrow>
        if length eligible < 2 then Some (requests, None)
        else
          (let tg = foldl group_call ([], Map.empty) eligible;
               st0 = \<lparr>agg_out = pass, agg_pass = pass, agg_groups = [], agg_count = 0\<rparr>
           in map_option
                (\<lambda>st. (agg_out st, Some \<lparr>Groups = agg_groups st, Passthrough = agg_pass st\<rparr>))
                (foldl (emit_tag fresh cfg requests tg) (Some st0) (fst tg))))"

definition buildMulticallBody :: "raw \<Rightarrow> string \<Rightarrow> string \<Rightarrow> bytes \<Rightarrow> json" where
  "buildMulticallBody i to blockTag calldata =
     JObj [(''jsonrpc'', jstring ''2.0''), (''id'', marshal_raw i), (''method'', jstring ''eth_call''),
           (''params'', multicall_params to blockTag calldata)]"

section \<open>Expansion\<close>

text \<open>The map from identifiers to responses: a later response replaces an earlier one.\<close>

definition resp_by_id :: "BatchResponse list \<Rightarrow> raw \<Rightarrow> BatchResponse option" where
  "resp_by_id responses i = List.find (\<lambda>r. rID r = i) (rev responses)"

definition countEntries :: "MulticallMapping \<Rightarrow> nat" where
  "countEntries m = sum_list (map (\<lambda>g. length (Entries g)) (Groups m))"

text \<open>The answer of one sub-call, and the same error for every entry of a group.\<close>

definition sub_call_response :: "raw \<Rightarrow> multicallResult \<Rightarrow> BatchResponse" where
  "sub_call_response i r =
     (if Success r then result_response i (jstring (hex0x (ReturnData r)))
      else error_response i (Some (rpc_error_data 3 ''execution reverted'' (hex0x (ReturnData r)))))"

definition entry_response :: "multicallEntry \<Rightarrow> multicallResult \<Rightarrow> BatchResponse" where
  "entry_response e r = sub_call_response (OriginalID e) r"

lemma rID_sub_call_response [simp]: "rID (sub_call_response i r) = i"
  by (simp add: sub_call_response_def)

definition group_error :: "multicallGroup \<Rightarrow> raw \<Rightarrow> BatchResponse list" where
  "group_error g e = map (\<lambda>en. error_response (OriginalID en) e) (Entries g)"

definition internal_error :: "string \<Rightarrow> raw" where
  "internal_error msg = Some (rpc_error (-32603) msg)"

definition expand_group ::
  "(raw \<Rightarrow> BatchResponse option) \<Rightarrow> multicallGroup \<Rightarrow> (unit, BatchResponse list) outcome" where
  "expand_group respByID g =
     (case respByID (SyntheticID g) of
        None \<Rightarrow> Done (group_error g (internal_error ''multicall response missing''))
      | Some resp \<Rightarrow>
        if HasError resp then Done (group_error g (Error resp))
        else
          (case as_string (Result resp) of
             None \<Rightarrow> Done (group_error g (internal_error ''multicall result not a hex string''))
           | Some resultHex \<Rightarrow>
             (case decodeAggregate3Result resultHex of
                Panic \<Rightarrow> Panic
              | Fail e \<Rightarrow>
                  Done (group_error g (internal_error (''multicall decode error: '' @ decode_error_text e)))
              | Done results \<Rightarrow>
                  if length results \<noteq> length (Entries g) then
                    Done (group_error g (internal_error
                      (''multicall result count mismatch: got '' @ itoa (length results)
                       @ '', expected '' @ itoa (length (Entries g)))))
                  else
                    omap (\<lambda>e. if Index e < length results
                              then Done (entry_response e (results ! Index e)) else Panic)
                      (Entries g))))"

definition expandMulticallResponses ::
  "BatchResponse list \<Rightarrow> MulticallMapping \<Rightarrow> (unit, BatchResponse list) outcome" where
  "expandMulticallResponses responses mapping =
     (let respByID = resp_by_id responses;
          passed = List.map_filter (\<lambda>pt. respByID (ID pt)) (Passthrough mapping)
      in obind (omap (expand_group respByID) (Groups mapping)) (\<lambda>expanded.
         Done (passed @ concat expanded)))"

section \<open>The chunk loop\<close>

definition slice_of :: "'a list \<Rightarrow> nat \<times> nat \<Rightarrow> 'a list" where
  "slice_of xs b = take (snd b - fst b) (drop (fst b) xs)"

lemma chunk_bounds_ok:
  assumes "0 < k"
  shows "\<exists>bs. chunk_bounds k s (length xs) = Some bs
    \<and> concat (map (slice_of xs) bs) = drop s xs
    \<and> (\<forall>b \<in> set bs. slice_of xs b \<noteq> [] \<and> length (slice_of xs b) \<le> k)"
proof (induction "length xs - s" arbitrary: s rule: less_induct)
  case less
  show ?case
  proof (cases "s < length xs")
    case False
    then show ?thesis by (subst chunk_bounds.simps) simp
  next
    case True
    let ?h = "min (s + k) (length xs)"
    have "length xs - (s + k) < length xs - s" using True assms by simp
    from less [OF this] obtain bs where bs: "chunk_bounds k (s + k) (length xs) = Some bs"
      "concat (map (slice_of xs) bs) = drop (s + k) xs"
      "\<forall>b \<in> set bs. slice_of xs b \<noteq> [] \<and> length (slice_of xs b) \<le> k" by blast
    have sl: "slice_of xs (s, ?h) = take k (drop s xs)"
      by (auto simp: slice_of_def min_def)
    have "take k (drop s xs) @ drop (s + k) xs = drop s xs"
      by (metis add.commute append_take_drop_id drop_drop)
    moreover have "chunk_bounds k s (length xs) = Some ((s, ?h) # bs)"
      using True bs(1) by (subst chunk_bounds.simps) simp
    ultimately show ?thesis
      using bs(2,3) sl True assms by auto
  qed
qed

section \<open>The loops in closed form\<close>

lemma classify_spec:
  "classify i reqs =
     (map snd (filter (\<lambda>(j, r). eligible_call j r = None) (enumerate i reqs)),
      List.map_filter (\<lambda>(j, r). eligible_call j r) (enumerate i reqs))"
  by (induction reqs arbitrary: i) (auto simp: List.map_filter_def split: option.splits)

lemma group_calls_spec:
  "foldl group_call ([], Map.empty) es = (tagOrder, tagGroups) \<Longrightarrow>
     distinct tagOrder \<and> set tagOrder = eblockTag ` set es
     \<and> (\<forall>t. tagGroups t = (if t \<in> eblockTag ` set es
                          then Some (filter (\<lambda>e. eblockTag e = t) es) else None))"
proof (induction es arbitrary: tagOrder tagGroups rule: rev_induct)
  case Nil
  then show ?case by auto
next
  case (snoc e es)
  obtain o' g' where og: "foldl group_call ([], Map.empty) es = (o', g')" by fastforce
  note IH = snoc.IH [OF og]
  have st: "group_call (o', g') e = (tagOrder, tagGroups)"
    using snoc.prems og by simp
  show ?case
  proof (cases "eblockTag e \<in> eblockTag ` set es")
    case True
    then have "tagOrder = o'"
      and "tagGroups = g'(eblockTag e \<mapsto> filter (\<lambda>x. eblockTag x = eblockTag e) es @ [e])"
      using st IH by (auto simp: group_call_def)
    then show ?thesis using IH True by (auto simp: insert_absorb)
  next
    case False
    then have n: "g' (eblockTag e) = None" using IH by simp
    then have "tagOrder = o' @ [eblockTag e]" and "tagGroups = g'(eblockTag e \<mapsto> [e])"
      using st by (auto simp: group_call_def)
    moreover have "filter (\<lambda>x. eblockTag x = eblockTag e) es = []"
      using False by (auto simp: filter_empty_conv image_iff)
    ultimately show ?thesis using IH False by auto
  qed
qed

text \<open>
  What the second loop emits, from the list of its chunks with their tags: a single call goes out as
  it is, the others as one request each.
\<close>

type_synonym emission = "string \<times> eligibleCall list"

fun plan_out :: "(nat \<Rightarrow> u64) \<Rightarrow> MulticallConfig \<Rightarrow> BatchRequest list \<Rightarrow> nat \<Rightarrow> emission list
    \<Rightarrow> BatchRequest list" where
  "plan_out fresh cfg rs k [] = []"
| "plan_out fresh cfg rs k ((tag, chunk) # p) =
     (if length chunk = 1 then rs ! requestIdx (hd chunk) # plan_out fresh cfg rs k p
      else group_request cfg (synthetic_id (fresh k)) tag chunk # plan_out fresh cfg rs (Suc k) p)"

fun plan_pass :: "BatchRequest list \<Rightarrow> emission list \<Rightarrow> BatchRequest list" where
  "plan_pass rs [] = []"
| "plan_pass rs ((tag, chunk) # p) =
     (if length chunk = 1 then rs ! requestIdx (hd chunk) # plan_pass rs p else plan_pass rs p)"

definition group_of :: "raw \<Rightarrow> BatchRequest list \<Rightarrow> emission \<Rightarrow> multicallGroup" where
  "group_of syn rs em =
     \<lparr>SyntheticID = syn, GroupTag = fst em,
      Entries = map (\<lambda>(j, c). chunk_entry rs j c) (enumerate 0 (snd em))\<rparr>"

fun plan_groups :: "(nat \<Rightarrow> u64) \<Rightarrow> BatchRequest list \<Rightarrow> nat \<Rightarrow> emission list \<Rightarrow> multicallGroup list" where
  "plan_groups fresh rs k [] = []"
| "plan_groups fresh rs k ((tag, chunk) # p) =
     (if length chunk = 1 then plan_groups fresh rs k p
      else group_of (synthetic_id (fresh k)) rs (tag, chunk) # plan_groups fresh rs (Suc k) p)"

definition emit :: "(nat \<Rightarrow> u64) \<Rightarrow> MulticallConfig \<Rightarrow> BatchRequest list \<Rightarrow> agg_state \<Rightarrow> emission \<Rightarrow> agg_state" where
  "emit fresh cfg rs st em = emit_chunk fresh cfg rs (fst em) st (snd em)"

lemma emit_single:
  "length chunk = 1 \<Longrightarrow> emit fresh cfg rs st (tag, chunk) =
     st\<lparr>agg_pass := agg_pass st @ [rs ! requestIdx (hd chunk)],
        agg_out := agg_out st @ [rs ! requestIdx (hd chunk)]\<rparr>"
  by (cases chunk) (simp_all add: emit_def emit_chunk_def)

lemma emit_many:
  assumes "length chunk \<noteq> 1"
  shows "emit fresh cfg rs st (tag, chunk) =
     st\<lparr>agg_out := agg_out st @ [group_request cfg (synthetic_id (fresh (agg_count st))) tag chunk],
        agg_groups := agg_groups st @ [group_of (synthetic_id (fresh (agg_count st))) rs (tag, chunk)],
        agg_count := Suc (agg_count st)\<rparr>"
proof (cases chunk)
  case Nil
  then show ?thesis by (simp add: emit_def emit_chunk_def group_of_def Let_def)
next
  case (Cons c cs)
  then obtain d ds where "cs = d # ds" using assms by (cases cs) auto
  then show ?thesis using Cons by (simp add: emit_def emit_chunk_def group_of_def Let_def)
qed

lemma emit_plan:
  "agg_out (foldl (emit fresh cfg rs) st p) = agg_out st @ plan_out fresh cfg rs (agg_count st) p"
  "agg_pass (foldl (emit fresh cfg rs) st p) = agg_pass st @ plan_pass rs p"
  "agg_groups (foldl (emit fresh cfg rs) st p) = agg_groups st @ plan_groups fresh rs (agg_count st) p"
proof (induction p arbitrary: st)
  case Nil
  { case 1 then show ?case by simp }
  { case 2 then show ?case by simp }
  { case 3 then show ?case by simp }
next
  case (Cons em p)
  obtain tag chunk where em: "em = (tag, chunk)" by fastforce
  { case 1 then show ?case
      using Cons(1) by (cases "length chunk = 1") (simp_all add: em emit_single emit_many) }
  { case 2 then show ?case
      using Cons(2) by (cases "length chunk = 1") (simp_all add: em emit_single emit_many) }
  { case 3 then show ?case
      using Cons(3) by (cases "length chunk = 1") (simp_all add: em emit_single emit_many) }
qed

lemma mset_by_tag:
  "distinct ts \<Longrightarrow>
   mset (concat (map (\<lambda>t. filter (\<lambda>e. f e = t) es) ts)) = mset (filter (\<lambda>e. f e \<in> set ts) es)"
proof (induction ts)
  case Nil
  then show ?case by simp
next
  case (Cons t ts)
  have "mset (filter (\<lambda>e. f e \<in> set (t # ts)) es)
      = mset (filter (\<lambda>e. f e = t) es) + mset (filter (\<lambda>e. f e \<in> set ts) es)"
    using Cons.prems by (induction es) auto
  then show ?case using Cons by simp
qed

definition tag_calls :: "tag_groups \<Rightarrow> string \<Rightarrow> eligibleCall list" where
  "tag_calls tg t = (case snd tg t of None \<Rightarrow> [] | Some cs \<Rightarrow> cs)"

lemma emit_tag_plan:
  assumes "0 < MaxCalls cfg"
  shows "\<exists>plan. emit_tag fresh cfg rs tg (Some s) t = Some (foldl (emit fresh cfg rs) s plan)
    \<and> concat (map snd plan) = tag_calls tg t
    \<and> (\<forall>em \<in> set plan. fst em = t \<and> snd em \<noteq> [] \<and> length (snd em) \<le> MaxCalls cfg)"
proof -
  obtain bs where bs: "chunk_bounds (MaxCalls cfg) 0 (length (tag_calls tg t)) = Some bs"
    "concat (map (slice_of (tag_calls tg t)) bs) = tag_calls tg t"
    "\<forall>b \<in> set bs. slice_of (tag_calls tg t) b \<noteq> [] \<and> length (slice_of (tag_calls tg t) b) \<le> MaxCalls cfg"
    using chunk_bounds_ok [OF assms, of 0 "tag_calls tg t"] by auto
  let ?plan = "map (\<lambda>b. (t, slice_of (tag_calls tg t) b)) bs"
  have fold: "foldl (emit_chunk fresh cfg rs t) s (map (slice_of (tag_calls tg t)) bs)
      = foldl (emit fresh cfg rs) s ?plan" for s
    by (induction bs arbitrary: s) (simp_all add: emit_def)
  have sl: "(\<lambda>(lo, hi). take (hi - lo) (drop lo (tag_calls tg t))) = slice_of (tag_calls tg t)"
    by (auto simp: slice_of_def fun_eq_iff)
  have "emit_tag fresh cfg rs tg (Some s) t = Some (foldl (emit fresh cfg rs) s ?plan)"
    unfolding emit_tag_def tag_calls_def [symmetric] Let_def
    using bs(1) by (simp add: sl fold)
  then show ?thesis
    using bs by (intro exI [of _ ?plan]) (auto simp: o_def)
qed

lemma emit_tags_plan:
  assumes "0 < MaxCalls cfg"
  shows "\<exists>plan. foldl (emit_tag fresh cfg rs tg) (Some s) ts = Some (foldl (emit fresh cfg rs) s plan)
    \<and> concat (map snd plan) = concat (map (tag_calls tg) ts)
    \<and> (\<forall>em \<in> set plan. snd em \<noteq> [] \<and> length (snd em) \<le> MaxCalls cfg
         \<and> set (snd em) \<subseteq> set (tag_calls tg (fst em)))"
proof (induction ts arbitrary: s)
  case Nil
  show ?case by (intro exI [of _ "[]"]) simp
next
  case (Cons t ts)
  obtain p1 where p1: "emit_tag fresh cfg rs tg (Some s) t = Some (foldl (emit fresh cfg rs) s p1)"
    "concat (map snd p1) = tag_calls tg t"
    "\<forall>em \<in> set p1. fst em = t \<and> snd em \<noteq> [] \<and> length (snd em) \<le> MaxCalls cfg"
    using emit_tag_plan [OF assms] by blast
  obtain p2 where p2: "foldl (emit_tag fresh cfg rs tg) (Some (foldl (emit fresh cfg rs) s p1)) ts
      = Some (foldl (emit fresh cfg rs) (foldl (emit fresh cfg rs) s p1) p2)"
    "concat (map snd p2) = concat (map (tag_calls tg) ts)"
    "\<forall>em \<in> set p2. snd em \<noteq> [] \<and> length (snd em) \<le> MaxCalls cfg
         \<and> set (snd em) \<subseteq> set (tag_calls tg (fst em))"
    using Cons by blast
  have "set (snd em) \<subseteq> set (tag_calls tg (fst em))" if "em \<in> set p1" for em
  proof -
    have "fst em = t" using p1(3) that by blast
    moreover have "set (snd em) \<subseteq> set (concat (map snd p1))" using that by auto
    ultimately show ?thesis using p1(2) by simp
  qed
  then show ?case
    using p1 p2 by (intro exI [of _ "p1 @ p2"]) (simp add: ball_Un)
qed

text \<open>The result of the aggregation, from a plan that holds each eligible call once.\<close>

lemma aggregate_plan:
  assumes cl: "classify 0 requests = (pass, eligible)" and two: "2 \<le> length eligible"
    and pos: "0 < MaxCalls cfg"
  obtains plan where
    "aggregateEthCalls fresh requests cfg =
       Some (pass @ plan_out fresh cfg requests 0 plan,
             Some \<lparr>Groups = plan_groups fresh requests 0 plan, Passthrough = pass @ plan_pass requests plan\<rparr>)"
    and "mset (concat (map snd plan)) = mset eligible"
    and "\<And>em. em \<in> set plan \<Longrightarrow> snd em \<noteq> [] \<and> length (snd em) \<le> MaxCalls cfg
           \<and> (\<forall>c \<in> set (snd em). eblockTag c = fst em \<and> c \<in> set eligible)"
proof -
  obtain tagOrder tagGroups where tg: "foldl group_call ([], Map.empty) eligible = (tagOrder, tagGroups)"
    by fastforce
  note g = group_calls_spec [OF tg]
  have calls: "tag_calls (tagOrder, tagGroups) t = filter (\<lambda>e. eblockTag e = t) eligible" for t
  proof (cases "t \<in> eblockTag ` set eligible")
    case True
    then show ?thesis using g by (simp add: tag_calls_def)
  next
    case False
    then have "filter (\<lambda>e. eblockTag e = t) eligible = []"
      by (auto simp: filter_empty_conv image_iff)
    then show ?thesis using g False by (simp add: tag_calls_def)
  qed
  let ?st0 = "\<lparr>agg_out = pass, agg_pass = pass, agg_groups = [], agg_count = 0\<rparr>"
  obtain plan where plan:
    "foldl (emit_tag fresh cfg requests (tagOrder, tagGroups)) (Some ?st0) tagOrder
       = Some (foldl (emit fresh cfg requests) ?st0 plan)"
    "concat (map snd plan) = concat (map (tag_calls (tagOrder, tagGroups)) tagOrder)"
    "\<forall>em \<in> set plan. snd em \<noteq> [] \<and> length (snd em) \<le> MaxCalls cfg
         \<and> set (snd em) \<subseteq> set (tag_calls (tagOrder, tagGroups) (fst em))"
    using emit_tags_plan [OF pos] by blast
  have "aggregateEthCalls fresh requests cfg =
       Some (pass @ plan_out fresh cfg requests 0 plan,
             Some \<lparr>Groups = plan_groups fresh requests 0 plan, Passthrough = pass @ plan_pass requests plan\<rparr>)"
    using two plan(1) by (simp add: aggregateEthCalls_def cl tg emit_plan)
  moreover have "mset (concat (map snd plan)) = mset eligible"
  proof -
    have "filter (\<lambda>e. eblockTag e \<in> set tagOrder) eligible = eligible"
      using g by (simp add: filter_id_conv)
    then show ?thesis
      using g mset_by_tag [of tagOrder eblockTag eligible] by (simp add: plan(2) calls [abs_def])
  qed
  moreover have "snd em \<noteq> [] \<and> length (snd em) \<le> MaxCalls cfg
           \<and> (\<forall>c \<in> set (snd em). eblockTag c = fst em \<and> c \<in> set eligible)" if "em \<in> set plan" for em
    using plan(3) that by (auto simp: calls)
  ultimately show ?thesis by (rule that)
qed

section \<open>What the aggregation does with the requests\<close>

definition request_key :: "BatchRequest \<Rightarrow> raw \<times> raw" where
  "request_key r = (ID r, Params r)"

definition entry_key :: "multicallEntry \<Rightarrow> raw \<times> raw" where
  "entry_key e = (OriginalID e, OriginalParams e)"

lemma eligible_index: "eligible_call i r = Some c \<Longrightarrow> requestIdx c = i"
  by (auto simp: eligible_call_def split: if_splits option.splits)

lemma eligible_member:
  assumes "classify 0 rs = (pass, eligible)" and "c \<in> set eligible"
  shows "requestIdx c < length rs \<and> eligible_call (requestIdx c) (rs ! requestIdx c) = Some c"
proof -
  have "eligible = List.map_filter (\<lambda>(j, r). eligible_call j r) (enumerate 0 rs)"
    using assms(1) by (simp add: classify_spec)
  then obtain j r where "(j, r) \<in> set (enumerate 0 rs)" and "eligible_call j r = Some c"
    using assms(2) by (auto simp: List.map_filter_def)
  then show ?thesis using eligible_index [of j r c] by (auto simp: in_set_enumerate_eq)
qed

lemma classify_keys:
  assumes "classify (length pre) reqs = (pass, eligible)"
  shows "mset (map request_key reqs)
    = mset (map request_key pass)
      + mset (map (\<lambda>c. request_key ((pre @ reqs) ! requestIdx c)) eligible)"
  using assms
proof (induction reqs arbitrary: pre pass eligible)
  case Nil
  then show ?case by simp
next
  case (Cons r reqs)
  obtain pass' elig' where c: "classify (length (pre @ [r])) reqs = (pass', elig')" by fastforce
  show ?case
    using Cons.prems Cons.IH [OF c] c eligible_index [of "length pre" r]
    by (auto split: option.splits)
qed

lemma plan_keys:
  "mset (map request_key (plan_pass rs plan))
     + mset (map entry_key (concat (map Entries (plan_groups fresh rs k plan))))
   = mset (map (\<lambda>c. request_key (rs ! requestIdx c)) (concat (map snd plan)))"
proof (induction plan arbitrary: k)
  case Nil
  then show ?case by simp
next
  case (Cons em plan)
  obtain tag chunk where em: "em = (tag, chunk)" by fastforce
  have "map entry_key (Entries (group_of syn rs em)) = map (\<lambda>c. request_key (rs ! requestIdx c)) chunk" for syn
    by (rule nth_equalityI)
       (simp_all add: group_of_def em split_def entry_key_def chunk_entry_def request_key_def
          nth_enumerate_eq)
  then have g: "image_mset entry_key (mset (Entries (group_of syn rs em)))
      = image_mset (\<lambda>c. request_key (rs ! requestIdx c)) (mset chunk)" for syn
    by (metis mset_map)
  show ?case
  proof (cases "length chunk = 1")
    case True
    then obtain c where "chunk = [c]" by (cases chunk) auto
    then show ?thesis using Cons.IH [of k] by (simp add: em)
  next
    case False
    then show ?thesis
      using Cons.IH [of "Suc k"] g [of "synthetic_id (fresh k)"] by (simp add: em add.left_commute)
  qed
qed

lemma aggregate_Some_mapping:
  assumes "aggregateEthCalls fresh requests cfg = Some (out, Some m)" and "0 < MaxCalls cfg"
  obtains pass eligible plan where "classify 0 requests = (pass, eligible)"
    and "out = pass @ plan_out fresh cfg requests 0 plan"
    and "Groups m = plan_groups fresh requests 0 plan"
    and "Passthrough m = pass @ plan_pass requests plan"
    and "mset (concat (map snd plan)) = mset eligible"
    and "\<And>em. em \<in> set plan \<Longrightarrow> snd em \<noteq> [] \<and> length (snd em) \<le> MaxCalls cfg
           \<and> (\<forall>c \<in> set (snd em). eblockTag c = fst em \<and> c \<in> set eligible)"
proof -
  obtain pass eligible where cl: "classify 0 requests = (pass, eligible)" by fastforce
  have two: "2 \<le> length eligible"
    using assms(1) by (simp add: aggregateEthCalls_def cl split: if_splits)
  show ?thesis
  proof (rule aggregate_plan [OF cl two assms(2), of fresh])
    fix plan
    assume a: "aggregateEthCalls fresh requests cfg =
       Some (pass @ plan_out fresh cfg requests 0 plan,
             Some \<lparr>Groups = plan_groups fresh requests 0 plan, Passthrough = pass @ plan_pass requests plan\<rparr>)"
      and "mset (concat (map snd plan)) = mset eligible"
      and "\<And>em. em \<in> set plan \<Longrightarrow> snd em \<noteq> [] \<and> length (snd em) \<le> MaxCalls cfg
           \<and> (\<forall>c \<in> set (snd em). eblockTag c = fst em \<and> c \<in> set eligible)"
    then show ?thesis using assms(1) by (intro that [OF cl]) auto
  qed
qed

lemma aggregate_returns:
  assumes "0 < MaxCalls cfg"
  shows "aggregateEthCalls fresh requests cfg \<noteq> None"
proof -
  obtain pass eligible where cl: "classify 0 requests = (pass, eligible)" by fastforce
  show ?thesis
  proof (cases "2 \<le> length eligible")
    case True
    then show ?thesis using aggregate_plan [OF cl True assms, of fresh] by (metis option.distinct(1))
  next
    case False
    then show ?thesis by (simp add: aggregateEthCalls_def cl)
  qed
qed

lemma plan_pass_member:
  "r \<in> set (plan_pass rs plan) \<Longrightarrow> \<exists>c \<in> set (concat (map snd plan)). r = rs ! requestIdx c"
proof (induction plan)
  case Nil
  then show ?case by simp
next
  case (Cons em plan)
  obtain tag chunk where "em = (tag, chunk)" by fastforce
  then show ?case using Cons by (cases chunk) (auto split: if_splits)
qed

lemma partition_keys:
  assumes "0 < MaxCalls cfg" and "aggregateEthCalls fresh requests cfg = Some (out, Some m)"
  shows "mset (map request_key requests)
    = mset (map request_key (Passthrough m)) + mset (map entry_key (concat (map Entries (Groups m))))"
proof -
  obtain pass eligible plan where p: "classify 0 requests = (pass, eligible)"
    "Groups m = plan_groups fresh requests 0 plan" "Passthrough m = pass @ plan_pass requests plan"
    "mset (concat (map snd plan)) = mset eligible"
    using aggregate_Some_mapping [OF assms(2,1)] by metis
  have "mset (map (\<lambda>c. request_key (requests ! requestIdx c)) eligible)
      = mset (map (\<lambda>c. request_key (requests ! requestIdx c)) (concat (map snd plan)))"
    using p(4) by (metis mset_map)
  then show ?thesis
    using classify_keys [of "[]" requests pass eligible] p(1) plan_keys [of requests plan fresh 0]
    by (simp add: p(2,3) add.assoc del: map_concat)
qed

lemma eligible_call_params:
  assumes "eligible_call i r = Some c"
  shows "Method r = ''eth_call'' \<and>
    parseEthCallParams (Params r)
      = Some \<lparr>CallParams = eparams c, BlockTag = eblockTag c, HasStateOverrides = False\<rparr>
    \<and> \<not> execution_context (eparams c) \<and> To (eparams c) \<noteq> [] \<and> Data (eparams c) \<noteq> []"
  using assms by (auto simp: eligible_call_def split: if_splits option.splits)

text \<open>The request that stands for the entries of a group: their own calls, in their order.\<close>

definition entry_call :: "multicallEntry \<Rightarrow> call3" where
  "entry_call e =
     (case parseEthCallParams (OriginalParams e) of
        None \<Rightarrow> \<lparr>Target = [], AllowFailure = True, CallData = []\<rparr>
      | Some p \<Rightarrow>
          \<lparr>Target = hexToAddress (To (CallParams p)), AllowFailure = True, CallData = hexToBytes (Data (CallParams p))\<rparr>)"

definition multicall_request :: "MulticallConfig \<Rightarrow> multicallGroup \<Rightarrow> BatchRequest" where
  "multicall_request cfg g =
     \<lparr>JSONRPC = ''2.0'', ID = SyntheticID g, Method = ''eth_call'',
      Params = Some (multicall_params (Address cfg) (GroupTag g) (encodeAggregate3 (map entry_call (Entries g))))\<rparr>"

text \<open>What makes an entry part of a group: a call at its block tag, with nothing that would be lost.\<close>

definition joins :: "string \<Rightarrow> multicallEntry \<Rightarrow> bool" where
  "joins tag e \<longleftrightarrow>
     (\<exists>p. parseEthCallParams (OriginalParams e) = Some \<lparr>CallParams = p, BlockTag = tag, HasStateOverrides = False\<rparr>
        \<and> \<not> execution_context p)"

lemma group_of_entries:
  assumes "\<forall>c \<in> set chunk. eblockTag c = tag \<and> eligible_call (requestIdx c) (rs ! requestIdx c) = Some c"
  shows "multicall_request cfg (group_of syn rs (tag, chunk)) = group_request cfg syn tag chunk"
    and "\<forall>e \<in> set (Entries (group_of syn rs (tag, chunk))). joins tag e"
proof -
  let ?es = "Entries (group_of syn rs (tag, chunk))"
  have parsed: "parseEthCallParams (OriginalParams (?es ! j))
      = Some \<lparr>CallParams = eparams (chunk ! j), BlockTag = tag, HasStateOverrides = False\<rparr>"
    "\<not> execution_context (eparams (chunk ! j))" if "j < length chunk" for j
    using assms that eligible_call_params [of "requestIdx (chunk ! j)" "rs ! requestIdx (chunk ! j)" "chunk ! j"]
    by (simp_all add: group_of_def nth_enumerate_eq chunk_entry_def)
  have len: "length ?es = length chunk" by (simp add: group_of_def)
  have "map entry_call ?es = map call3_of chunk"
    by (rule nth_equalityI) (simp_all add: len parsed entry_call_def call3_of_def)
  then show "multicall_request cfg (group_of syn rs (tag, chunk)) = group_request cfg syn tag chunk"
    by (simp add: multicall_request_def group_request_def group_of_def)
  show "\<forall>e \<in> set ?es. joins tag e"
    using parsed by (auto simp: in_set_conv_nth len joins_def)
qed

lemma plan_out_requests:
  assumes "\<And>em. em \<in> set plan \<Longrightarrow>
      \<forall>c \<in> set (snd em). eblockTag c = fst em \<and> eligible_call (requestIdx c) (rs ! requestIdx c) = Some c"
  shows "mset (plan_out fresh cfg rs k plan)
    = mset (plan_pass rs plan) + mset (map (multicall_request cfg) (plan_groups fresh rs k plan))"
  using assms
proof (induction plan arbitrary: k)
  case (Cons em plan)
  obtain tag chunk where em: "em = (tag, chunk)" by fastforce
  have "multicall_request cfg (group_of syn rs (tag, chunk)) = group_request cfg syn tag chunk" for syn
    using Cons.prems [of em] by (intro group_of_entries(1)) (simp add: em)
  moreover have "mset (plan_out fresh cfg rs j plan)
      = mset (plan_pass rs plan) + mset (map (multicall_request cfg) (plan_groups fresh rs j plan))" for j
    by (rule Cons.IH [OF Cons.prems]) simp
  ultimately show ?case by (simp add: em)
qed simp

lemma plan_groups_entries:
  assumes "g \<in> set (plan_groups fresh rs k plan)"
    and "\<And>em. em \<in> set plan \<Longrightarrow> snd em \<noteq> [] \<and> length (snd em) \<le> n
      \<and> (\<forall>c \<in> set (snd em). eblockTag c = fst em \<and> eligible_call (requestIdx c) (rs ! requestIdx c) = Some c)"
  shows "2 \<le> length (Entries g) \<and> length (Entries g) \<le> n \<and> (\<forall>e \<in> set (Entries g). joins (GroupTag g) e)"
  using assms
proof (induction plan arbitrary: k)
  case (Cons em plan)
  obtain tag chunk where em: "em = (tag, chunk)" by fastforce
  note ok = Cons.prems(2) [of em, unfolded em, simplified]
  show ?case
  proof (cases "length chunk \<noteq> 1 \<and> g = group_of (synthetic_id (fresh k)) rs (tag, chunk)")
    case True
    then have "2 \<le> length chunk" using ok by (cases chunk) (auto simp: Suc_le_eq)
    moreover have "GroupTag g = tag" "length (Entries g) = length chunk" using True by (simp_all add: group_of_def)
    ultimately show ?thesis using True ok group_of_entries(2) [of chunk tag rs] by simp
  next
    case False
    then obtain j where "g \<in> set (plan_groups fresh rs j plan)"
      using Cons.prems(1) by (cases "length chunk = 1") (auto simp: em)
    then show ?thesis by (rule Cons.IH [OF _ Cons.prems(2)]) simp
  qed
qed simp


subsection \<open>A sample batch\<close>

definition sample_call :: "string \<Rightarrow> string \<Rightarrow> json" where
  "sample_call to d = JObj [(''to'', JStr to), (''data'', JStr d)]"

definition sample_request :: "nat \<Rightarrow> json \<Rightarrow> BatchRequest" where
  "sample_request i params =
     \<lparr>JSONRPC = ''2.0'', ID = Some (JNum (itoa i)), Method = ''eth_call'', Params = Some params\<rparr>"

definition sample_params :: "string \<Rightarrow> string \<Rightarrow> json" where
  "sample_params to d = JArr [sample_call to d, JStr ''latest'']"

definition head_request :: BatchRequest where
  "head_request = \<lparr>JSONRPC = ''2.0'', ID = Some (JNum (itoa 2)), Method = ''eth_blockNumber'', Params = Some (JArr [])\<rparr>"

definition sample_batch :: "BatchRequest list" where
  "sample_batch =
     [sample_request 0 (sample_params ''0x11'' ''0xaa''), sample_request 1 (sample_params ''0x22'' ''0xbb''),
      head_request]"

definition sample_cfg :: MulticallConfig where
  "sample_cfg = \<lparr>McEnabled = True, MaxCalls = 100, Address = ''0xca11''\<rparr>"

definition sample_parsed :: "string \<Rightarrow> string \<Rightarrow> ethCallParams" where
  "sample_parsed to d = \<lparr>To = to, Data = d, From = [], Gas = [], GasPrice = [], Value = []\<rparr>"

lemma parse_sample:
  assumes "plain to" and "plain d"
  shows "parseEthCallParams (Some (sample_params to d))
       = Some \<lparr>CallParams = sample_parsed to d, BlockTag = ''latest'', HasStateOverrides = False\<rparr>"
proof -
  have "unquote ''latest'' = Some ''latest''"
    by (rule unquote_plain) (simp add: json_eval)
  then show ?thesis
    using assms
    by (simp add: parseEthCallParams_def sample_params_def sample_call_def decode_ethCallParams_def
        sample_parsed_def json_eval)
qed

definition sample_eligible :: "eligibleCall list" where
  "sample_eligible =
     [\<lparr>requestIdx = 0, eparams = sample_parsed ''0x11'' ''0xaa'', eblockTag = ''latest''\<rparr>,
      \<lparr>requestIdx = 1, eparams = sample_parsed ''0x22'' ''0xbb'', eblockTag = ''latest''\<rparr>]"

lemma classify_sample: "classify 0 sample_batch = ([head_request], sample_eligible)"
proof -
  have p: "plain ''0x11''" "plain ''0xaa''" "plain ''0x22''" "plain ''0xbb''"
    by (simp_all add: json_eval)
  show ?thesis
    by (simp add: sample_batch_def sample_request_def head_request_def eligible_call_def
        parse_sample [OF p(1,2)] parse_sample [OF p(3,4)] sample_eligible_def sample_parsed_def execution_context_def)
qed

definition sample_group :: multicallGroup where
  "sample_group =
     \<lparr>SyntheticID = synthetic_id 1, GroupTag = ''latest'',
      Entries =
       [\<lparr>OriginalID = Some (JNum (itoa 0)), OriginalParams = Some (sample_params ''0x11'' ''0xaa''), Index = 0\<rparr>,
        \<lparr>OriginalID = Some (JNum (itoa 1)), OriginalParams = Some (sample_params ''0x22'' ''0xbb''), Index = 1\<rparr>]\<rparr>"

definition sample_out :: "BatchRequest list" where
  "sample_out = [head_request, group_request sample_cfg (synthetic_id 1) ''latest'' sample_eligible]"

definition sample_mapping :: MulticallMapping where
  "sample_mapping = \<lparr>Groups = [sample_group], Passthrough = [head_request]\<rparr>"

definition sample_fresh :: "nat \<Rightarrow> u64" where
  "sample_fresh k = of_nat (k + 1)"

lemma aggregate_sample:
  "aggregateEthCalls sample_fresh sample_batch sample_cfg = Some (sample_out, Some sample_mapping)"
proof -
  have c: "chunk_bounds 100 0 2 = Some [(0, 2)]"
    by (subst chunk_bounds.simps, subst chunk_bounds.simps) simp
  have l: "length sample_eligible = 2" by (simp add: sample_eligible_def)
  have g: "foldl group_call ([], Map.empty) sample_eligible = ([''latest''], [''latest'' \<mapsto> sample_eligible])"
    by (simp add: sample_eligible_def group_call_def)
  have two: "length sample_eligible < 2 \<longleftrightarrow> False" by (simp add: l)
  have m: "MaxCalls sample_cfg = 100" by (simp add: sample_cfg_def)
  have en: "enumerate 0 sample_eligible = [(0, sample_eligible ! 0), (1, sample_eligible ! 1)]"
    by (simp add: sample_eligible_def)
  have ix: "requestIdx (sample_eligible ! 0) = 0" "requestIdx (sample_eligible ! Suc 0) = Suc 0"
    by (simp_all add: sample_eligible_def)
  have b: "sample_batch ! 0 = sample_request 0 (sample_params ''0x11'' ''0xaa'')"
    "sample_batch ! Suc 0 = sample_request 1 (sample_params ''0x22'' ''0xbb'')"
    by (simp_all add: sample_batch_def)
  have em: "emit_chunk sample_fresh sample_cfg sample_batch ''latest''
      \<lparr>agg_out = [head_request], agg_pass = [head_request], agg_groups = [], agg_count = 0\<rparr> sample_eligible
    = \<lparr>agg_out = sample_out, agg_pass = [head_request], agg_groups = [sample_group], agg_count = 1\<rparr>"
    using emit_many [of sample_eligible sample_fresh sample_cfg sample_batch _ "''latest''"]
    by (simp add: l emit_def sample_out_def sample_group_def group_of_def en chunk_entry_def ix b sample_fresh_def)
       (simp add: sample_request_def)
  show ?thesis
    by (simp only: aggregateEthCalls_def classify_sample prod.case two if_False Let_def g foldl.simps
          fst_conv snd_conv emit_tag_def Option.bind.simps m l c option.map list.map fun_upd_same option.case)
       (simp add: l em sample_mapping_def)
qed


subsection \<open>Groups\<close>

lemma plan_groups_member:
  "g \<in> set (plan_groups fresh rs k plan) \<Longrightarrow>
   \<exists>em k'. em \<in> set plan \<and> length (snd em) \<noteq> 1 \<and> g = group_of (synthetic_id (fresh k')) rs em
     \<and> group_request cfg (synthetic_id (fresh k')) (fst em) (snd em) \<in> set (plan_out fresh cfg rs k plan)"
proof (induction plan arbitrary: k)
  case Nil
  then show ?case by simp
next
  case (Cons em plan)
  obtain tag chunk where em: "em = (tag, chunk)" by fastforce
  show ?case
  proof (cases "length chunk = 1")
    case True
    then have "g \<in> set (plan_groups fresh rs k plan)" using Cons.prems by (simp add: em)
    from Cons.IH [OF this] show ?thesis using True by (auto simp: em)
  next
    case False
    show ?thesis
    proof (cases "g = group_of (synthetic_id (fresh k)) rs em")
      case True
      then show ?thesis using False by (intro exI [of _ em] exI [of _ k]) (simp add: em)
    next
      case g: False
      then have "g \<in> set (plan_groups fresh rs (Suc k) plan)" using Cons.prems False by (simp add: em)
      from Cons.IH [OF this] show ?thesis using False by (auto simp: em)
    qed
  qed
qed

text \<open>
  Each group stands for one outgoing request. It has between 2 and MaxCalls entries, and the
  calls encoded in the request are, in order, the target and calldata of the entries' own
  parameters; each of them is at the block tag of the request and has no override, sender, value or
  gas setting that the aggregation would lose.
\<close>

theorem aggregate_groups:
  assumes "0 < MaxCalls cfg" and "aggregateEthCalls fresh requests cfg = Some (out, Some m)"
    and "g \<in> set (Groups m)"
  shows "2 \<le> length (Entries g) \<and> length (Entries g) \<le> MaxCalls cfg
    \<and> map Index (Entries g) = [0..<length (Entries g)]
    \<and> (\<exists>calls. \<lparr>JSONRPC = ''2.0'', ID = SyntheticID g, Method = ''eth_call'',
            Params = Some (multicall_params (Address cfg) (GroupTag g) (encodeAggregate3 calls))\<rparr> \<in> set out
        \<and> list_all2 (\<lambda>e c. \<exists>p. parseEthCallParams (OriginalParams e)
               = Some \<lparr>CallParams = p, BlockTag = GroupTag g, HasStateOverrides = False\<rparr>
             \<and> \<not> execution_context p
             \<and> c = \<lparr>Target = hexToAddress (To p), AllowFailure = True, CallData = hexToBytes (Data p)\<rparr>)
           (Entries g) calls)"
proof -
  obtain pass eligible plan where p: "classify 0 requests = (pass, eligible)"
    "out = pass @ plan_out fresh cfg requests 0 plan" "Groups m = plan_groups fresh requests 0 plan"
    "\<And>em. em \<in> set plan \<Longrightarrow> snd em \<noteq> [] \<and> length (snd em) \<le> MaxCalls cfg
           \<and> (\<forall>c \<in> set (snd em). eblockTag c = fst em \<and> c \<in> set eligible)"
    using aggregate_Some_mapping [OF assms(2,1)] by metis
  obtain em k where em: "em \<in> set plan" "length (snd em) \<noteq> 1"
    "g = group_of (synthetic_id (fresh k)) requests em"
    "group_request cfg (synthetic_id (fresh k)) (fst em) (snd em) \<in> set (plan_out fresh cfg requests 0 plan)"
    using plan_groups_member assms(3) p(3) by metis
  note ok = p(4) [OF em(1)]
  have len: "length (Entries g) = length (snd em)" by (simp add: em(3) group_of_def)
  have "2 \<le> length (snd em)" using ok em(2) by (cases "snd em") (auto simp: Suc_le_eq)
  moreover have "map Index (Entries g) = [0..<length (Entries g)]"
    by (rule nth_equalityI) (simp_all add: em(3) group_of_def nth_enumerate_eq chunk_entry_def)
  moreover have "list_all2 (\<lambda>e c. \<exists>p. parseEthCallParams (OriginalParams e)
               = Some \<lparr>CallParams = p, BlockTag = GroupTag g, HasStateOverrides = False\<rparr>
             \<and> \<not> execution_context p
             \<and> c = \<lparr>Target = hexToAddress (To p), AllowFailure = True, CallData = hexToBytes (Data p)\<rparr>)
           (Entries g) (map call3_of (snd em))"
  proof (rule list_all2_all_nthI)
    show "length (Entries g) = length (map call3_of (snd em))" by (simp add: len)
    fix j
    assume j: "j < length (Entries g)"
    let ?c = "snd em ! j"
    have c: "eblockTag ?c = fst em" "?c \<in> set eligible" using ok j len by simp_all
    note el = eligible_call_params [OF conjunct2 [OF eligible_member [OF p(1) c(2)]]]
    have "OriginalParams (Entries g ! j) = Params (requests ! requestIdx ?c)" "GroupTag g = fst em"
      using j len by (simp_all add: em(3) group_of_def nth_enumerate_eq chunk_entry_def)
    then show "\<exists>p. parseEthCallParams (OriginalParams (Entries g ! j))
               = Some \<lparr>CallParams = p, BlockTag = GroupTag g, HasStateOverrides = False\<rparr>
             \<and> \<not> execution_context p
             \<and> map call3_of (snd em) ! j
               = \<lparr>Target = hexToAddress (To p), AllowFailure = True, CallData = hexToBytes (Data p)\<rparr>"
      using el c j len by (intro exI [of _ "eparams ?c"]) (simp add: call3_of_def)
  qed
  moreover have "\<lparr>JSONRPC = ''2.0'', ID = SyntheticID g, Method = ''eth_call'',
            Params = Some (multicall_params (Address cfg) (GroupTag g) (encodeAggregate3 (map call3_of (snd em))))\<rparr>
          \<in> set out"
    using em(4) p(2) by (simp add: em(3) group_of_def group_request_def)
  ultimately show ?thesis using ok len by (simp only: conj_assoc) blast
qed

theorem aggregate_groups_witness:
  "2 \<le> length (Entries sample_group)
    \<and> (\<exists>calls. \<lparr>JSONRPC = ''2.0'', ID = SyntheticID sample_group, Method = ''eth_call'',
            Params = Some (multicall_params (Address sample_cfg) (GroupTag sample_group)
              (encodeAggregate3 calls))\<rparr> \<in> set sample_out)"
  using aggregate_groups [OF _ aggregate_sample, of sample_group]
  by (auto simp: sample_cfg_def sample_mapping_def)

text \<open>
  A call pinned to one block by an EIP-1898 object (a block hash or number in an object), as
  the cache's own pinnedToBlock recognizes it, is eligible for aggregation at the tag latest: the
  aggregated request asks for the call at another block than the client did.
\<close>

theorem eip1898_pin_lost:
  assumes "parseEthCallParams (Some (JArr [obj])) = Some p" and "To (CallParams p) \<noteq> []"
    and "Data (CallParams p) \<noteq> []" and "\<not> execution_context (CallParams p)"
    and "Method r = ''eth_call''" and "Params r = Some (JArr [obj, JObj ms])"
    and "namesBlock (Some (JObj ms))"
  shows "pinnedToBlock (Method r) (Params r)
    \<and> eligible_call i r = Some \<lparr>requestIdx = i, eparams = CallParams p, eblockTag = ''latest''\<rparr>"
proof -
  obtain c where c: "Option.bind (as_struct (Some obj)) decode_ethCallParams = Some c" "CallParams p = c"
    using assms(1) by (auto simp: parseEthCallParams_def split: option.splits)
  have "parseEthCallParams (Params r) = Some \<lparr>CallParams = c, BlockTag = ''latest'', HasStateOverrides = False\<rparr>"
    by (simp add: parseEthCallParams_def assms(6) c)
  then have "eligible_call i r = Some \<lparr>requestIdx = i, eparams = CallParams p, eblockTag = ''latest''\<rparr>"
    using assms(2,3,4,5) c(2) by (simp add: eligible_call_def)
  moreover have "pinnedToBlock (Method r) (Params r)"
    using assms(5,6,7) by (simp add: pinnedToBlock_def blockParamIndex_def)
  ultimately show ?thesis by blast
qed

definition eip1898_request :: BatchRequest where
  "eip1898_request =
     \<lparr>JSONRPC = ''2.0'', ID = Some (JNum ''7''), Method = ''eth_call'',
      Params = Some (JArr [sample_call ''0x11'' ''0xaa'', JObj [(''blockHash'', JStr ''0xabcd'')]])\<rparr>"

theorem eip1898_pin_lost_witness:
  "pinnedToBlock (Method eip1898_request) (Params eip1898_request)
    \<and> eligible_call 0 eip1898_request
      = Some \<lparr>requestIdx = 0, eparams = sample_parsed ''0x11'' ''0xaa'', eblockTag = ''latest''\<rparr>"
proof -
  have p: "plain ''0x11''" "plain ''0xaa''" "plain ''0xabcd''" by (simp_all add: json_eval)
  have "parseEthCallParams (Some (JArr [sample_call ''0x11'' ''0xaa'']))
      = Some \<lparr>CallParams = sample_parsed ''0x11'' ''0xaa'', BlockTag = ''latest'', HasStateOverrides = False\<rparr>"
    using p by (simp add: parseEthCallParams_def sample_call_def decode_ethCallParams_def
        sample_parsed_def json_eval)
  moreover have "namesBlock (Some (JObj [(''blockHash'', JStr ''0xabcd'')]))"
    using p by (simp add: namesBlock_def json_eval)
  ultimately show ?thesis
    using eip1898_pin_lost [of _ _ eip1898_request]
    by (simp add: eip1898_request_def sample_parsed_def execution_context_def)
qed

section \<open>What the expansion does with the answers\<close>

lemma plain_hex0x [simp]: "plain (hex0x b)"
proof -
  have "plain (''0x'' @ hex_encode b)"
    by (simp only: list_all_append plain_0x plain_hex_encode simp_thms)
  then show ?thesis by (simp only: hex0x_def)
qed

lemma as_string_hex0x [simp]: "as_string (Some (jstring (hex0x b))) = Some (hex0x b)"
  by (simp add: jstring_def)

lemma omap_results:
  assumes "map Index es = [k..<k + length es]" and "k + length es = length rs"
  shows "omap (\<lambda>e. if Index e < length rs then Done (entry_response e (rs ! Index e)) else Panic) es
       = Done (map2 entry_response es (drop k rs))"
  using assms
proof (induction es arbitrary: k)
  case Nil
  then show ?case by simp
next
  case (Cons e es)
  have k: "k < length rs" using Cons.prems(2) by simp
  have "[k..<k + length (e # es)] = k # [Suc k..<Suc k + length es]"
    by (simp add: upt_conv_Cons del: upt_Suc)
  with Cons.prems(1) have "Index e = k" and "map Index es = [Suc k..<Suc k + length es]" by simp_all
  then show ?case
    using Cons.IH [of "Suc k"] Cons.prems(2) k by (simp add: Cons_nth_drop_Suc [symmetric])
qed

text \<open>A faithful answer of the contract gives each entry the result of its own call.\<close>

lemma expand_group_results:
  assumes "respByID (SyntheticID g) = Some resp" and "\<not> HasError resp"
    and "Result resp = Some (jstring (hex0x (encodeAggregate3Result rs)))" and "wf_results rs"
    and "length rs = length (Entries g)" and "map Index (Entries g) = [0..<length (Entries g)]"
  shows "expand_group respByID g = Done (map2 entry_response (Entries g) rs)"
  using assms omap_results [of "Entries g" 0 rs]
  by (simp add: expand_group_def results.dec_enc)

lemma wf_results_small:
  assumes "length rs \<le> 10000" and "\<And>r. r \<in> set rs \<Longrightarrow> length (ReturnData r) \<le> 2 ^ 20"
  shows "wf_results rs"
proof -
  have "length (concat (map result_tuple rs)) \<le> length rs * 2 ^ 21"
    using assms(2)
  proof (induction rs)
    case Nil
    then show ?case by simp
  next
    case (Cons r rs)
    then have "length (concat (map result_tuple rs)) \<le> length rs * 2 ^ 21" by simp
    moreover have "length (result_tuple r) \<le> 2 ^ 21"
      using Cons.prems [of r] ceil32_less [of "length (ReturnData r)"] by (simp add: length_result_tuple)
    ultimately show ?case by simp
  qed
  then have "length (array_layout (map result_tuple rs)) < 2 ^ 47"
    using assms(1) by (simp add: length_array_layout del: length_concat)
  then show ?thesis using assms(1) by (simp add: wf_results_def)
qed

lemma resp_by_id_find:
  assumes "r \<in> set rs" and "\<And>r'. r' \<in> set rs \<Longrightarrow> rID r' = rID r \<Longrightarrow> r' = r"
  shows "resp_by_id rs (rID r) = Some r"
proof -
  have "List.find (\<lambda>r'. rID r' = rID r) (rev rs) \<noteq> None"
    using assms(1) by (auto simp: find_None_iff)
  then obtain r' where r': "List.find (\<lambda>r'. rID r' = rID r) (rev rs) = Some r'" by blast
  then have "rID r' = rID r" and "r' \<in> set rs"
    by (auto simp: find_Some_iff) (metis length_rev nth_mem set_rev)
  then show ?thesis using r' assms(2) by (simp add: resp_by_id_def)
qed

text \<open>The identifiers of the outgoing requests are distinct, so each response is found.\<close>

lemma synthetic_id_inj: "synthetic_id m = synthetic_id n \<longleftrightarrow> m = n"
  by (simp add: synthetic_id_def itoa_inj word_unat_eq_iff)

lemma ID_group_request [simp]: "ID (group_request cfg syn tag chunk) = syn"
  by (simp add: group_request_def)

lemma plan_out_member:
  assumes "r \<in> set (plan_out fresh cfg rs k plan)"
  shows "(\<exists>c \<in> set (concat (map snd plan)). r = rs ! requestIdx c)
    \<or> (\<exists>em k'. em \<in> set plan \<and> k \<le> k' \<and> k' < k + length plan \<and> r = group_request cfg (synthetic_id (fresh k')) (fst em) (snd em))"
  using assms
proof (induction plan arbitrary: k)
  case Nil
  then show ?case by simp
next
  case (Cons em plan)
  obtain tag chunk where em: "em = (tag, chunk)" by fastforce
  show ?case
  proof (cases "length chunk = 1")
    case True
    then obtain c where c: "chunk = [c]" by (cases chunk) auto
    then have "r = rs ! requestIdx c \<or> r \<in> set (plan_out fresh cfg rs k plan)"
      using Cons.prems by (auto simp: em)
    then show ?thesis
    proof
      assume "r = rs ! requestIdx c"
      then show ?thesis by (intro disjI1) (simp add: em c)
    next
      assume "r \<in> set (plan_out fresh cfg rs k plan)"
      from Cons.IH [OF this] show ?thesis
        by (elim disjE exE conjE)
           (force, metis add_Suc_right less_Suc_eq length_Cons list.set_intros(2))
    qed
  next
    case False
    then have "r = group_request cfg (synthetic_id (fresh k)) (fst em) (snd em)
        \<or> r \<in> set (plan_out fresh cfg rs (Suc k) plan)"
      using Cons.prems by (auto simp: em)
    then show ?thesis
    proof
      assume "r = group_request cfg (synthetic_id (fresh k)) (fst em) (snd em)"
      then show ?thesis by (intro disjI2 exI [of _ em] exI [of _ k]) simp
    next
      assume "r \<in> set (plan_out fresh cfg rs (Suc k) plan)"
      from Cons.IH [OF this] show ?thesis
        by (elim disjE exE conjE) (force, metis Suc_leD add_Suc_shift length_Cons list.set_intros(2))
    qed
  qed
qed

definition wire_id :: "nat \<Rightarrow> raw" where
  "wire_id i = Some (JNum (itoa i))"

lemma wire_id_inj: "wire_id i = wire_id j \<longleftrightarrow> i = j"
  by (simp add: wire_id_def itoa_inj)

lemma wire_synthetic [simp]: "wire_id i \<noteq> synthetic_id n" "synthetic_id n \<noteq> wire_id i"
  by (simp_all add: wire_id_def synthetic_id_def)

text \<open>A batch as processBatch builds it: request \<open>i\<close> has the wire identifier \<open>i\<close>.\<close>

definition wired :: "BatchRequest list \<Rightarrow> bool" where
  "wired rs \<longleftrightarrow> (\<forall>i < length rs. ID (rs ! i) = wire_id i)"

lemma wired_inj:
  assumes "wired rs" and "r \<in> set rs" and "r' \<in> set rs" and "ID r = ID r'"
  shows "r = r'"
  using assms by (metis in_set_conv_nth wire_id_inj wired_def)

lemma plan_out_synthetic:
  assumes "wired rs" and "inj_on fresh {..<k + length plan}" and "\<forall>c \<in> set (concat (map snd plan)). requestIdx c < length rs"
    and "r \<in> set (plan_out fresh cfg rs k plan)" and "r' \<in> set (plan_out fresh cfg rs k plan)"
    and "ID r = ID r'"
  shows "r = r'"
  using assms(2-6)
proof (induction plan arbitrary: k)
  case Nil
  then show ?case by simp
next
  case (Cons em plan)
  obtain tag chunk where em: "em = (tag, chunk)" by fastforce
  have IH: "inj_on fresh {..<q + length plan} \<Longrightarrow>
      r \<in> set (plan_out fresh cfg rs q plan) \<Longrightarrow> r' \<in> set (plan_out fresh cfg rs q plan) \<Longrightarrow> r = r'" for q
    using Cons.prems(2,5) by (intro Cons.IH) simp_all
  have member: "x \<in> set rs \<or> (\<exists>q' \<ge> q. q' < q + length plan \<and> ID x = synthetic_id (fresh q'))"
    if "x \<in> set (plan_out fresh cfg rs q plan)" for x q
    using plan_out_member [OF that] Cons.prems(2) by fastforce
  show ?case
  proof (cases "length chunk = 1")
    case True
    then obtain c where c: "chunk = [c]" by (cases chunk) auto
    then have h: "rs ! requestIdx c \<in> set rs" "ID (rs ! requestIdx c) = wire_id (requestIdx c)"
      using Cons.prems(2) assms(1) by (auto simp: em wired_def)
    have cross: "x = rs ! requestIdx c"
      if "x \<in> set (plan_out fresh cfg rs k plan)" and "ID x = ID (rs ! requestIdx c)" for x
      using member [OF that(1)] wired_inj [OF assms(1) _ h(1)] that(2) h(2) by auto
    have "inj_on fresh {..<k + length plan}"
      using Cons.prems(1) by (rule inj_on_subset) auto
    moreover have "x = rs ! requestIdx c \<or> x \<in> set (plan_out fresh cfg rs k plan)"
      if "x \<in> set (plan_out fresh cfg rs k (em # plan))" for x
      using that by (auto simp: em c)
    ultimately show ?thesis using Cons.prems(3,4,5) IH [of k] cross by metis
  next
    case False
    have cross: "ID x \<noteq> synthetic_id (fresh k)" if tl: "x \<in> set (plan_out fresh cfg rs (Suc k) plan)" for x
    proof
      assume x: "ID x = synthetic_id (fresh k)"
      then have "x \<notin> set rs" using assms(1) by (auto simp: wired_def in_set_conv_nth)
      then obtain q where "Suc k \<le> q" "q < Suc k + length plan" "ID x = synthetic_id (fresh q)"
        using member [OF tl] by blast
      then show False
        using x Cons.prems(1) inj_onD [of fresh "{..<k + length (em # plan)}" q k]
        by (auto simp: synthetic_id_inj)
    qed
    have "x = group_request cfg (synthetic_id (fresh k)) tag chunk \<or> x \<in> set (plan_out fresh cfg rs (Suc k) plan)"
      if "x \<in> set (plan_out fresh cfg rs k (em # plan))" for x
      using that False by (auto simp: em)
    then show ?thesis
      using Cons.prems(1,3,4,5) IH [of "Suc k"] cross by (metis ID_group_request add_Suc_shift length_Cons)
  qed
qed

lemma plan_pass_subset: "set (plan_pass rs plan) \<subseteq> set (plan_out fresh cfg rs k plan)"
proof (induction plan arbitrary: k)
  case Nil
  then show ?case by simp
next
  case (Cons em plan)
  then show ?case by (cases em) fastforce
qed

lemma out_ids_inj:
  assumes "wired rs" and "inj_on fresh {..<k + length plan}"
    and "\<forall>c \<in> set (concat (map snd plan)). requestIdx c < length rs"
    and "set pass \<subseteq> set rs"
    and "r \<in> set (pass @ plan_out fresh cfg rs k plan)" and "r' \<in> set (pass @ plan_out fresh cfg rs k plan)"
    and "ID r = ID r'"
  shows "r = r'"
proof -
  have mem: "x \<in> set rs \<or> (\<exists>n. ID x = synthetic_id n)" if "x \<in> set (plan_out fresh cfg rs k plan)" for x
    using plan_out_member [OF that] assms(3) by fastforce
  have wid: "\<exists>i. ID x = wire_id i" if "x \<in> set rs" for x
    using that assms(1) by (auto simp: wired_def in_set_conv_nth)
  show ?thesis
  proof (cases "r \<in> set rs \<or> r' \<in> set rs")
    case True
    then have "r \<in> set rs \<and> r' \<in> set rs"
      using assms(4-7) mem wid by (metis Un_iff set_append subsetD wire_synthetic)
    then show ?thesis using wired_inj assms(1,7) by blast
  next
    case False
    then have "r \<in> set (plan_out fresh cfg rs k plan)" "r' \<in> set (plan_out fresh cfg rs k plan)"
      using assms(4-6) by auto
    then show ?thesis using plan_out_synthetic [OF assms(1,2,3)] assms(7) by blast
  qed
qed

end
