(* ===== verification/Batch.thy ===== *)
theory Batch
  imports Multicall
begin

text \<open>
  The batch processor, \<open>internal/backend/batch.go\<close>: what is done with the entries of one batch once
  it holds a worker (\<open>processBatch\<close> from the wire identifiers on, \<open>sendBatch\<close>, delivery).
  The concurrent part, how entries come into a batch, is in \<open>Batch_Machine\<close>.
\<close>

text \<open>
  An entry is a request with its caller; the caller's context and its response channel are both
  named by a number.
\<close>

record batchEntry =
  caller :: nat
  req :: BatchRequest

section \<open>Wire identifiers\<close>

definition wire_request :: "nat \<times> batchEntry \<Rightarrow> BatchRequest" where
  "wire_request ie = (req (snd ie))\<lparr>ID := Some (JNum (itoa (fst ie)))\<rparr>"

definition wire_requests :: "batchEntry list \<Rightarrow> BatchRequest list" where
  "wire_requests entries = map wire_request (enumerate 0 entries)"

text \<open>
  \<open>strings.Trim(id, quote)\<close> and \<open>Atoi\<close>: a number, or a string of a number. The text of any other
  value starts with a byte that is no digit.
\<close>

definition parseWireID :: "raw \<Rightarrow> int option" where
  "parseWireID i =
     (case i of
        Some (JNum l) \<Rightarrow> parse_int_dec l
      | Some (JStr l) \<Rightarrow> parse_int_dec (trim_set (\<lambda>c. c = CHR 0x22) l)
      | _ \<Rightarrow> None)"

section \<open>Sending\<close>

text \<open>
  What one attempt meets outside the program: the error of \<open>client.Do\<close> with what \<open>isTransientError\<close>
  asks of it (whether it wraps an end of file; its \<open>Timeout()\<close> when it is a \<open>net.Error\<close>), or the
  response. The texts of the errors and of the body are given with them.
\<close>

record send_error =
  is_EOF :: bool
  net_timeout :: "bool option"
  err_text :: string

datatype attempt_result =
    RequestFailed string
  | SendFailed send_error
  | ReadFailed string
  | Received nat raw string

record attempt_env =
  callers_left :: "string option"
  attempt :: attempt_result
  ctx_done :: bool

definition isTransientError :: "send_error \<Rightarrow> bool" where
  "isTransientError e =
     (if is_EOF e then True
      else
        (case net_timeout e of
           Some t \<Rightarrow> t
         | None \<Rightarrow>
           contains ''connection reset'' (err_text e) \<or> contains ''connection refused'' (err_text e)
           \<or> contains ''broken pipe'' (err_text e)))"

definition isRetryableHTTPStatus :: "nat \<Rightarrow> bool" where
  "isRetryableHTTPStatus c \<longleftrightarrow> c = 429 \<or> c = 408 \<or> (500 \<le> c \<and> c \<noteq> 501 \<and> c \<noteq> 505)"

text \<open>A batch response, or a single one; \<open>json_error\<close> is the text of the decoder's error.\<close>

definition decode_batch_body :: "raw \<Rightarrow> BatchResponse list option" where
  "decode_batch_body body =
     (case Option.bind (as_slice body) (\<lambda>vs. those (map decode_response vs)) of
        Some rs \<Rightarrow> Some rs
      | None \<Rightarrow> map_option (\<lambda>r. [r]) (Option.bind body decode_response))"

text \<open>The base of the wait before a retry, in nanoseconds; \<open>rand.Int64N\<close> panics on a bound below 1.\<close>

definition backoff_base :: "nat \<Rightarrow> int" where
  "backoff_base k = wrap64 (wrap64 (50 * 2 ^ (k - 1)) * 1000000)"

text \<open>
  The loop of \<open>sendBatch\<close> from attempt \<open>k\<close> on, with \<open>left\<close> attempts left after it; the number of
  requests it has sent is counted.
\<close>

fun send_loop ::
  "(raw \<Rightarrow> string) \<Rightarrow> (nat \<Rightarrow> attempt_env) \<Rightarrow> nat \<Rightarrow> nat \<Rightarrow> (string, BatchResponse list) outcome \<times> nat"
where
  "send_loop json_error env k left =
     (let again = (\<lambda>e. case left of
            0 \<Rightarrow> (Fail e, 1)
          | Suc m \<Rightarrow> (case send_loop json_error env (Suc k) m of (r, n) \<Rightarrow> (r, Suc n)))
      in
      if 0 < k \<and> backoff_base k div 2 < 1 then (Panic, 0)
      else
        (case (if 0 < k then callers_left (env k) else None) of
           Some cause \<Rightarrow> (Fail (''batch callers left: '' @ cause), 0)
         | None \<Rightarrow>
           (case attempt (env k) of
              RequestFailed e \<Rightarrow> (Fail (''failed to create batch request: '' @ e), 0)
            | SendFailed e \<Rightarrow>
                (if \<not> ctx_done (env k) \<and> isTransientError e
                 then again (''failed to send batch request: '' @ err_text e)
                 else (Fail (''failed to send batch request: '' @ err_text e), 1))
            | ReadFailed e \<Rightarrow> again (''failed to read batch response: '' @ e)
            | Received status body txt \<Rightarrow>
                (if isRetryableHTTPStatus status
                 then again (''batch request returned status '' @ itoa status)
                 else if status \<noteq> 200
                 then (Fail (''batch request returned status '' @ itoa status @ '': '' @ txt), 1)
                 else
                   (case decode_batch_body body of
                      None \<Rightarrow> (Fail (''failed to decode batch response: '' @ json_error body), 1)
                    | Some rs \<Rightarrow> (Done rs, 1))))))"

declare send_loop.simps [simp del]

text \<open>\<open>env\<close> may depend on the body sent.\<close>

definition sendBatch ::
  "(raw \<Rightarrow> string) \<Rightarrow> nat \<Rightarrow> (json \<Rightarrow> nat \<Rightarrow> attempt_env) \<Rightarrow> BatchRequest list
     \<Rightarrow> (string, BatchResponse list) outcome" where
  "sendBatch json_error maxRetries env requests =
     fst (send_loop json_error (env (JArr (map marshal_request requests))) 0 maxRetries)"

section \<open>Delivery\<close>

definition internal_failure :: "batchEntry \<Rightarrow> string \<Rightarrow> BatchResponse" where
  "internal_failure e err =
     (error_response (ID (req e)) (internal_error (''Internal error: '' @ err)))\<lparr>InternalErr := Some err\<rparr>"

text \<open>
  The first response with the wire identifier of an entry is delivered to it, under the identifier
  the client gave. \<open>delivered\<close> are the flags of the loop.
\<close>

fun deliver :: "batchEntry list \<Rightarrow> bool list \<Rightarrow> BatchResponse list \<Rightarrow> (nat \<times> BatchResponse) list \<times> bool list"
where
  "deliver entries delivered [] = ([], delivered)"
| "deliver entries delivered (resp # rest) =
     (case parseWireID (rID resp) of
        None \<Rightarrow> deliver entries delivered rest
      | Some idx \<Rightarrow>
        if idx < 0 \<or> int (length entries) \<le> idx then deliver entries delivered rest
        else if delivered ! nat idx then deliver entries delivered rest
        else
          (case deliver entries (delivered[nat idx := True]) rest of (ds, fl) \<Rightarrow>
             ((nat idx, resp\<lparr>rID := ID (req (entries ! nat idx))\<rparr>) # ds, fl)))"

definition errMissingUpstreamResponse :: string where
  "errMissingUpstreamResponse = ''upstream batch response missing''"

definition deliver_missing :: "batchEntry list \<Rightarrow> bool list \<Rightarrow> (nat \<times> BatchResponse) list" where
  "deliver_missing entries delivered =
     map (\<lambda>i. (i, internal_failure (entries ! i) errMissingUpstreamResponse))
       (filter (\<lambda>i. \<not> delivered ! i) [0..<length entries])"

definition deliver_all :: "batchEntry list \<Rightarrow> BatchResponse list \<Rightarrow> (nat \<times> BatchResponse) list" where
  "deliver_all entries responses =
     (case deliver entries (replicate (length entries) False) responses of (ds, fl) \<Rightarrow>
        ds @ deliver_missing entries fl)"

text \<open>
  \<open>processBatch\<close> from the moment it holds a worker and has dropped the abandoned entries: the sends on
  the response channels, as pairs of an entry's position and its response. The outer None is an
  aggregation that does not return; \<open>Panic\<close> ends the process.
\<close>

definition process_entries ::
  "(nat \<Rightarrow> u64) \<Rightarrow> MulticallConfig \<Rightarrow> (BatchRequest list \<Rightarrow> (string, BatchResponse list) outcome)
     \<Rightarrow> batchEntry list \<Rightarrow> (unit, (nat \<times> BatchResponse) list) outcome option" where
  "process_entries fresh cfg send entries =
     Option.bind
       (if McEnabled cfg then aggregateEthCalls fresh (wire_requests entries) cfg
        else Some (wire_requests entries, None))
       (\<lambda>(requests, mapping).
          Some
            (case send requests of
               Panic \<Rightarrow> Panic
             | Fail err \<Rightarrow>
                 Done (map (\<lambda>(i, e). (i, internal_failure e err)) (enumerate 0 entries))
             | Done responses \<Rightarrow>
                 (case mapping of
                    None \<Rightarrow> Done (deliver_all entries responses)
                  | Some m \<Rightarrow>
                      obind (expandMulticallResponses responses m)
                        (\<lambda>expanded. Done (deliver_all entries expanded)))))"

section \<open>Every entry is answered once\<close>

lemma deliver_flags:
  assumes "deliver entries fl rs = (ds, fl')" and "length fl = length entries"
  shows "length fl' = length entries \<and> distinct (map fst ds)
    \<and> set (map fst ds) = {i. i < length entries \<and> fl' ! i \<and> \<not> fl ! i}
    \<and> (\<forall>i < length entries. fl ! i \<longrightarrow> fl' ! i)"
  using assms
proof (induction rs arbitrary: fl ds fl')
  case Nil
  then show ?case by auto
next
  case (Cons r rs)
  show ?case
  proof (cases "\<exists>idx. parseWireID (rID r) = Some idx \<and> 0 \<le> idx \<and> idx < int (length entries) \<and> \<not> fl ! nat idx")
    case False
    then have "deliver entries fl rs = (ds, fl')"
      using Cons.prems(1) by (auto split: option.splits if_splits)
    then show ?thesis using Cons.IH Cons.prems(2) by blast
  next
    case True
    then obtain idx where i: "parseWireID (rID r) = Some idx" "0 \<le> idx" "idx < int (length entries)"
      "\<not> fl ! nat idx" by blast
    obtain ds' where d: "deliver entries (fl[nat idx := True]) rs = (ds', fl')"
      and ds: "ds = (nat idx, r\<lparr>rID := ID (req (entries ! nat idx))\<rparr>) # ds'"
      using Cons.prems(1) i by (auto split: prod.splits)
    have n: "nat idx < length entries" using i by linarith
    note IH = Cons.IH [OF d]
    have set_ds': "set (map fst ds') = {j. j < length entries \<and> fl' ! j \<and> \<not> fl[nat idx := True] ! j}"
      and mono: "\<forall>j < length entries. fl[nat idx := True] ! j \<longrightarrow> fl' ! j"
      using IH Cons.prems(2) by simp_all
    have "fl' ! nat idx" using mono n Cons.prems(2) by simp
    moreover have "\<forall>j < length entries. fl ! j \<longrightarrow> fl' ! j"
      using mono by (metis Cons.prems(2) nth_list_update_eq nth_list_update_neq)
    moreover have "set (map fst ds) = insert (nat idx) (set (map fst ds'))" by (simp add: ds)
    ultimately show ?thesis
      using IH Cons.prems(2) n i(4) set_ds' by (auto simp: ds nth_list_update)
  qed
qed

lemma deliver_ids:
  "deliver entries fl rs = (ds, fl') \<Longrightarrow> (i, r) \<in> set ds \<Longrightarrow> rID r = ID (req (entries ! i))"
proof (induction rs arbitrary: fl ds fl')
  case Nil
  then show ?case by simp
next
  case (Cons a rs)
  show ?case
  proof (cases "deliver entries fl rs = (ds, fl')")
    case True
    then show ?thesis using Cons.IH Cons.prems(2) by blast
  next
    case False
    then obtain idx ds' where "deliver entries (fl[nat idx := True]) rs = (ds', fl')"
      and "ds = (nat idx, a\<lparr>rID := ID (req (entries ! nat idx))\<rparr>) # ds'"
      using Cons.prems(1) by (auto split: option.splits if_splits prod.splits)
    then show ?thesis using Cons.IH Cons.prems(2) by auto
  qed
qed

definition answered_once :: "batchEntry list \<Rightarrow> (nat \<times> BatchResponse) list \<Rightarrow> bool" where
  "answered_once entries ds \<longleftrightarrow>
     distinct (map fst ds) \<and> set (map fst ds) = {..<length entries}
     \<and> (\<forall>(i, r) \<in> set ds. rID r = ID (req (entries ! i)))"

lemma rID_internal_failure [simp]: "rID (internal_failure e err) = ID (req e)"
  by (simp add: internal_failure_def error_response_def)

lemma deliver_all_once: "answered_once entries (deliver_all entries rs)"
proof -
  obtain ds fl where d: "deliver entries (replicate (length entries) False) rs = (ds, fl)" by fastforce
  note f = deliver_flags [OF d]
  have "map fst (deliver_missing entries fl) = filter (\<lambda>i. \<not> fl ! i) [0..<length entries]"
    by (simp add: deliver_missing_def o_def)
  then show ?thesis
    using f deliver_ids [OF d]
    by (auto simp: answered_once_def deliver_all_def d deliver_missing_def)
qed

lemma internal_failures_once:
  "answered_once entries (map (\<lambda>(i, e). (i, internal_failure e err)) (enumerate 0 entries))"
proof -
  have "map fst (map (\<lambda>(i, e). (i, internal_failure e err)) (enumerate 0 entries)) = [0..<length entries]"
    by (rule nth_equalityI) (simp_all add: nth_enumerate_eq)
  then show ?thesis
    by (auto simp: answered_once_def in_set_enumerate_eq simp del: map_map)
qed

lemma process_entries_once:
  assumes "process_entries fresh cfg send entries = Some (Done ds)"
  shows "answered_once entries ds"
proof -
  obtain requests mapping where rm:
    "(case send requests of
        Panic \<Rightarrow> Panic
      | Fail err \<Rightarrow> Done (map (\<lambda>(i, e). (i, internal_failure e err)) (enumerate 0 entries))
      | Done responses \<Rightarrow>
          (case mapping of
             None \<Rightarrow> Done (deliver_all entries responses)
           | Some m \<Rightarrow>
               obind (expandMulticallResponses responses m)
                 (\<lambda>expanded. Done (deliver_all entries expanded)))) = Done ds"
  proof (cases "if McEnabled cfg then aggregateEthCalls fresh (wire_requests entries) cfg
        else Some (wire_requests entries, None)")
    case None
    then show ?thesis using assms by (simp only: process_entries_def) simp
  next
    case (Some p)
    obtain requests mapping where "p = (requests, mapping)" by fastforce
    then show ?thesis
      using assms that [where requests = requests and mapping = mapping] by (simp only: process_entries_def Some) simp
  qed
  show ?thesis
  proof (cases "send requests")
    case Panic
    then show ?thesis using rm by simp
  next
    case (Fail err)
    then show ?thesis using rm internal_failures_once by auto
  next
    case (Done responses)
    then show ?thesis
      using rm deliver_all_once
      by (cases mapping) (auto elim!: obind_DoneE)
  qed
qed

text \<open>
  C27. Whatever the upstream sends back (an error, missing, duplicated or unknown identifiers, a
  multicall it cannot answer), each entry of a batch gets exactly one response, under the
  identifier its own client gave, unless the process panics.
\<close>

theorem entries_answered_once:
  assumes "process_entries fresh cfg send entries = Some (Done ds)"
  shows "answered_once entries ds"
  using assms by (rule process_entries_once)

definition two_entries :: "batchEntry list" where
  "two_entries =
     [\<lparr>caller = 0, req = sample_request 7 (JArr [])\<rparr>, \<lparr>caller = 1, req = sample_request 7 (JArr [])\<rparr>]"

definition no_multicall :: MulticallConfig where
  "no_multicall = \<lparr>McEnabled = False, MaxCalls = 100, Address = []\<rparr>"

text \<open>Two clients with the same identifier; the upstream answers the second twice, and an unknown one.\<close>

definition odd_answers :: "BatchResponse list" where
  "odd_answers =
     [result_response (Some (JNum ''1'')) (JBool True), result_response (Some (JNum ''1'')) (JBool False),
      result_response (Some (JNum ''9'')) JNull]"

theorem entries_answered_once_witness:
  "answered_once two_entries
     [(1, result_response (Some (JNum (itoa 7))) (JBool True)),
      (0, internal_failure (two_entries ! 0) errMissingUpstreamResponse)]"
proof (rule entries_answered_once)
  have p: "parse_int_dec ''1'' = Some 1" "parse_int_dec ''9'' = Some 9"
    by (simp_all add: parse_int_dec_def is_digit_def digits_val_def json_eval)
  show "process_entries (\<lambda>_. 0) no_multicall (\<lambda>_. Done odd_answers) two_entries
      = Some (Done [(1, result_response (Some (JNum (itoa 7))) (JBool True)),
      (0, internal_failure (two_entries ! 0) errMissingUpstreamResponse)])"
    by (simp add: process_entries_def no_multicall_def deliver_all_def odd_answers_def parseWireID_def p
        result_response_def two_entries_def sample_request_def deliver_missing_def)
qed

section \<open>Retries\<close>

definition transient_attempt :: "attempt_env \<Rightarrow> bool" where
  "transient_attempt a \<longleftrightarrow>
     (case attempt a of
        RequestFailed e \<Rightarrow> False
      | SendFailed e \<Rightarrow> \<not> ctx_done a \<and> isTransientError e
      | ReadFailed e \<Rightarrow> True
      | Received status body txt \<Rightarrow> isRetryableHTTPStatus status)"

lemma backoff_base_pos:
  assumes "0 < k" and "k \<le> 30"
  shows "\<not> backoff_base k div 2 < 1"
proof -
  define x :: int where "x = 2 ^ (k - 1)"
  have "x \<le> 2 ^ 29" unfolding x_def using assms by (intro power_increasing) simp_all
  then have x: "1 \<le> x" "x \<le> 536870912" by (simp_all add: x_def)
  have "wrap64 (50 * x) = 50 * x" using x by (intro wrap64_id) (simp_all only: power_numeral, simp_all)
  moreover have "wrap64 (50 * x * 1000000) = 50 * x * 1000000" using x by (intro wrap64_id) (simp_all only: power_numeral, simp_all)
  ultimately have "backoff_base k = 50 * x * 1000000" by (simp only: backoff_base_def flip: x_def)
  then show ?thesis using x by simp
qed

lemma send_loop_go:
  assumes "0 < k \<longrightarrow> \<not> backoff_base k div 2 < 1" and "callers_left (env k) = None"
  shows "(0 < k \<and> backoff_base k div 2 < 1) = False"
    and "(if 0 < k then callers_left (env k) else None) = None"
  using assms by (blast, simp)

lemma send_loop_answer:
  assumes "0 < k \<longrightarrow> \<not> backoff_base k div 2 < 1" and "callers_left (env k) = None"
    and "attempt (env k) = Received 200 body txt" and "decode_batch_body body = Some rs"
  shows "send_loop json_error env k left = (Done rs, 1)"
  by (subst send_loop.simps)
     (simp only: send_loop_go [of k env, OF assms(1,2)] assms(3,4) if_False option.case
        attempt_result.case Let_def, simp add: isRetryableHTTPStatus_def)

lemma send_loop_transient:
  assumes "0 < k \<longrightarrow> \<not> backoff_base k div 2 < 1" and "callers_left (env k) = None"
    and "transient_attempt (env k)"
    and "send_loop json_error env (Suc k) m = (r, n)"
  shows "send_loop json_error env k (Suc m) = (r, Suc n)"
proof -
  have again: "(case Suc m of 0 \<Rightarrow> (Fail e, 1)
      | Suc m \<Rightarrow> (case send_loop json_error env (Suc k) m of (r, n) \<Rightarrow> (r, Suc n))) = (r, Suc n)" for e
    by (simp add: assms(4))
  show ?thesis
    using assms(3)
    by (subst send_loop.simps)
       (simp only: send_loop_go [of k env, OF assms(1,2)] if_False option.case Let_def again,
        auto simp: transient_attempt_def split: attempt_result.splits)
qed

text \<open>
  A batch whose first attempts fail in a transient way (a read error, a retryable status, a
  timeout or end of file) and whose next one is answered with status 200 and a decodable body
  returns that answer, after exactly one attempt more than the failures, as long as the retries
  allow it and some caller still waits.
\<close>

theorem retries_reach_answer:
  assumes "\<forall>i < j. transient_attempt (env i)" and "\<forall>i \<le> j. callers_left (env i) = None"
    and "attempt (env j) = Received 200 body txt" and "decode_batch_body body = Some rs"
    and "j \<le> maxRetries" and "maxRetries \<le> 30"
  shows "send_loop json_error env 0 maxRetries = (Done rs, Suc j)"
proof -
  have "send_loop json_error env k (maxRetries - k) = (Done rs, Suc (j - k))" if "k \<le> j" for k
    using that
  proof (induction "j - k" arbitrary: k)
    case 0
    then have kj: "k = j" by simp
    have "0 < j \<longrightarrow> \<not> backoff_base j div 2 < 1"
      using backoff_base_pos [of j] assms(5,6) by auto
    then show ?case
      using assms(2,3,4) by (simp add: kj send_loop_answer)
  next
    case (Suc d)
    then have k: "k < j" by simp
    obtain m where m: "maxRetries - k = Suc m" "maxRetries - Suc k = m"
      using k assms(5) by (cases "maxRetries - k") auto
    have IH: "send_loop json_error env (Suc k) m = (Done rs, Suc (j - Suc k))"
      using Suc.hyps(1) [of "Suc k"] Suc.hyps(2) k m by simp
    have "0 < k \<longrightarrow> \<not> backoff_base k div 2 < 1"
      using backoff_base_pos [of k] k assms(5,6) by auto
    moreover have "transient_attempt (env k)" and "callers_left (env k) = None"
      using assms(1,2) k by simp_all
    ultimately show ?case
      using send_loop_transient [OF _ _ _ IH] k by (simp add: m Suc_diff_Suc)
  qed
  from this [of 0] show ?thesis by simp
qed

definition flaky :: "nat \<Rightarrow> attempt_env" where
  "flaky k =
     \<lparr>callers_left = None,
      attempt = (if k = 0 then SendFailed \<lparr>is_EOF = True, net_timeout = Some False, err_text = ''EOF''\<rparr>
                 else if k = 1 then Received 503 None [] else Received 200 (Some (JArr [])) []),
      ctx_done = False\<rparr>"

theorem retries_reach_answer_witness:
  "send_loop (\<lambda>_. []) flaky 0 2 = (Done [], Suc 2)"
proof (rule retries_reach_answer)
  show "\<forall>i < 2. transient_attempt (flaky i)"
    by (auto simp: flaky_def transient_attempt_def isTransientError_def isRetryableHTTPStatus_def)
  show "attempt (flaky 2) = Received 200 (Some (JArr [])) []" by (simp add: flaky_def)
qed (simp_all add: flaky_def decode_batch_body_def)

text \<open>
  Every error of \<open>client.Do\<close> is a \<open>net.Error\<close> (the type is \<open>*url.Error\<close>), so a refused or reset
  connection, which is no timeout, ends the batch at once: the texts isTransientError names for these
  cases are never looked at, and none of the retries is used.
\<close>

theorem refused_not_retried:
  assumes "callers_left (env 0) = None" and "attempt (env 0) = SendFailed e"
    and "\<not> is_EOF e" and "net_timeout e = Some False"
  shows "send_loop json_error env 0 maxRetries
       = (Fail (''failed to send batch request: '' @ err_text e), 1)"
  using assms by (subst send_loop.simps) (simp add: isTransientError_def)

definition refused :: send_error where
  "refused = \<lparr>is_EOF = False, net_timeout = Some False, err_text = ''dial tcp: connection refused''\<rparr>"

theorem refused_not_retried_witness:
  "send_loop (\<lambda>_. []) (\<lambda>_. \<lparr>callers_left = None, attempt = SendFailed refused, ctx_done = False\<rparr>) 0 2
       = (Fail (''failed to send batch request: '' @ ''dial tcp: connection refused''), 1)
   \<and> isTransientError (refused\<lparr>net_timeout := None\<rparr>)"
proof
  have "err_text refused = ''dial tcp: connection refused''" by (simp add: refused_def)
  then show "send_loop (\<lambda>_. []) (\<lambda>_. \<lparr>callers_left = None, attempt = SendFailed refused, ctx_done = False\<rparr>) 0 2
       = (Fail (''failed to send batch request: '' @ ''dial tcp: connection refused''), 1)"
    using refused_not_retried [of "\<lambda>_. \<lparr>callers_left = None, attempt = SendFailed refused, ctx_done = False\<rparr>"
        refused "\<lambda>_. []" 2]
    by (simp add: refused_def)
  show "isTransientError (refused\<lparr>net_timeout := None\<rparr>)"
    by (simp add: refused_def isTransientError_def has_prefix_def)
qed

text \<open>No more than one request per attempt is sent.\<close>

lemma send_loop_attempts: "snd (send_loop json_error env k left) \<le> Suc left"
proof (induction left arbitrary: k)
  case 0
  show ?case
    by (subst send_loop.simps) (auto simp: Let_def split: option.split attempt_result.split)
next
  case (Suc left)
  show ?case
    using Suc.IH [of "Suc k"]
    by (subst send_loop.simps)
       (auto simp: Let_def split: option.split attempt_result.split prod.split)
qed

end
