(* ===== verification/Batch_Transparency.thy ===== *)
theory Batch_Transparency
  imports Batch
begin

text \<open>
  The end-to-end contract of the aggregation: in front of a node with a Multicall3 contract, the
  batch processor with aggregation gives every caller the answer to its own request.
\<close>

section \<open>Delivery by wire identifier\<close>

lemma parseWireID_wire [simp]: "i < 2 ^ 63 \<Longrightarrow> parseWireID (wire_id i) = Some (int i)"
  by (simp add: parseWireID_def wire_id_def parse_int_dec_itoa)

text \<open>The first response with the identifier of an entry not yet served is delivered to it.\<close>

lemma deliver_first:
  assumes "List.find (\<lambda>r. parseWireID (rID r) = Some (int i)) rs = Some x"
    and "i < length entries" and "length fl = length entries" and "\<not> fl ! i"
  shows "(i, x\<lparr>rID := ID (req (entries ! i))\<rparr>) \<in> set (fst (deliver entries fl rs))"
  using assms
proof (induction rs arbitrary: fl)
  case Nil
  then show ?case by simp
next
  case (Cons r rs)
  show ?case
  proof (cases "parseWireID (rID r) = Some (int i)")
    case True
    then show ?thesis using Cons.prems by (simp split: prod.split)
  next
    case False
    then have f: "List.find (\<lambda>r. parseWireID (rID r) = Some (int i)) rs = Some x"
      using Cons.prems(1) by simp
    show ?thesis
    proof (cases "parseWireID (rID r)")
      case None
      then show ?thesis using Cons.IH [OF f Cons.prems(2-4)] by simp
    next
      case (Some idx)
      then have "nat idx \<noteq> i" if "0 \<le> idx" using False that by auto
      then have "\<not> fl[nat idx := True] ! i" if "0 \<le> idx" using that Cons.prems(4) by simp
      then show ?thesis
        using Cons.IH [OF f, of fl] Cons.IH [OF f, of "fl[nat idx := True]"] Cons.prems(2-4) Some
        by (auto split: prod.split)
    qed
  qed
qed

lemma deliver_all_first:
  assumes "List.find (\<lambda>r. parseWireID (rID r) = Some (int i)) rs = Some x" and "i < length entries"
  shows "(i, x\<lparr>rID := ID (req (entries ! i))\<rparr>) \<in> set (deliver_all entries rs)"
  using deliver_first [OF assms(1,2), of "replicate (length entries) False"] assms(2)
  by (cases "deliver entries (replicate (length entries) False) rs") (auto simp: deliver_all_def)

text \<open>Responses whose identifiers are the wire identifiers of the batch, each at most once.\<close>

definition wire_answers :: "nat \<Rightarrow> BatchResponse list \<Rightarrow> bool" where
  "wire_answers n rs \<longleftrightarrow> distinct (map rID rs) \<and> (\<forall>r \<in> set rs. \<exists>i < n. rID r = wire_id i)"

lemma wire_answers_find:
  assumes "wire_answers n rs" and "x \<in> set rs" and "rID x = wire_id i" and "n < 2 ^ 63"
  shows "List.find (\<lambda>r. parseWireID (rID r) = Some (int i)) rs = Some x"
proof -
  have i: "i < n" using assms(1-3) by (auto simp: wire_answers_def wire_id_inj)
  have same: "r = x" if r: "r \<in> set rs" and id: "parseWireID (rID r) = Some (int i)" for r
  proof -
    obtain j where "j < n" "rID r = wire_id j" using assms(1) r by (auto simp: wire_answers_def)
    then have "rID r = rID x" using id assms(3,4) by simp
    then show ?thesis
      using assms(1,2) r by (auto simp: wire_answers_def distinct_map inj_on_def)
  qed
  have "parseWireID (rID x) = Some (int i)" using assms(3,4) i by simp
  then have "List.find (\<lambda>r. parseWireID (rID r) = Some (int i)) rs \<noteq> None"
    using assms(2) by (auto simp: find_None_iff)
  then obtain y where y: "List.find (\<lambda>r. parseWireID (rID r) = Some (int i)) rs = Some y" by blast
  then have "y \<in> set rs" and "parseWireID (rID y) = Some (int i)"
    by (auto simp: find_Some_iff)
  then show ?thesis using y same by simp
qed

lemma deliver_all_wire:
  assumes "wire_answers (length entries) rs" and "x \<in> set rs" and "rID x = wire_id i"
    and "length entries < 2 ^ 63"
  shows "(i, x\<lparr>rID := ID (req (entries ! i))\<rparr>) \<in> set (deliver_all entries rs)"
proof -
  have "i < length entries" using assms(1-3) by (auto simp: wire_answers_def wire_id_inj)
  then show ?thesis
    using deliver_all_first [OF wire_answers_find [OF assms(1-4)]] by blast
qed

lemma length_wire_requests [simp]: "length (wire_requests entries) = length entries"
  by (simp add: wire_requests_def)

lemma wired_wire_requests: "wired (wire_requests entries)"
  by (simp add: wired_def wire_requests_def nth_enumerate_eq wire_request_def wire_id_def)

lemma ID_wire_requests: "map ID (wire_requests entries) = map wire_id [0..<length entries]"
  using wired_wire_requests [of entries] by (intro nth_equalityI) (simp_all add: wired_def)

section \<open>The node\<close>

text \<open>
  A node, as the batch processor sees it: it echoes identifiers, and it has a Multicall3 contract at
  the configured address, whose aggregate3 runs each call at the block the request names. The result
  of a call (success flag and return data) is a function of the block parameter, target and calldata.
\<close>

type_synonym call_at = "json \<Rightarrow> bytes \<Rightarrow> bytes \<Rightarrow> multicallResult"

definition aggregate3_result :: "call_at \<Rightarrow> string \<Rightarrow> call3 list \<Rightarrow> multicallResult list" where
  "aggregate3_result call_at tag calls = map (\<lambda>c. call_at (jstring tag) (Target c) (CallData c)) calls"

definition multicall_node :: "MulticallConfig \<Rightarrow> call_at \<Rightarrow> (BatchRequest \<Rightarrow> BatchResponse) \<Rightarrow> bool" where
  "multicall_node cfg call_at up \<longleftrightarrow>
     (\<forall>r. rID (up r) = ID r)
     \<and> (\<forall>i tag calls. wf_calls calls \<longrightarrow>
          up \<lparr>JSONRPC = ''2.0'', ID = i, Method = ''eth_call'',
              Params = Some (multicall_params (Address cfg) tag (encodeAggregate3 calls))\<rparr>
          = result_response i (jstring (hex0x (encodeAggregate3Result (aggregate3_result call_at tag calls)))))"

text \<open>Data of a size that a node accepts.\<close>

definition small_data :: "BatchRequest list \<Rightarrow> call_at \<Rightarrow> bool" where
  "small_data rs call_at \<longleftrightarrow>
     (\<forall>r \<in> set rs. \<forall>p. parseEthCallParams (Params r) = Some p \<longrightarrow>
        length (hexToBytes (Data (CallParams p))) \<le> 2 ^ 20)
     \<and> (\<forall>b t d. length (ReturnData (call_at b t d)) \<le> 2 ^ 20)"

text \<open>What the client is told about an eligible call.\<close>

definition direct_call :: "call_at \<Rightarrow> raw \<Rightarrow> eligibleCall \<Rightarrow> BatchResponse" where
  "direct_call call_at i c =
     sub_call_response i
       (call_at (jstring (eblockTag c)) (hexToAddress (To (eparams c))) (hexToBytes (Data (eparams c))))"

lemma expand_plan_group:
  assumes node: "multicall_node cfg call_at up" and small: "small_data rs call_at"
    and max: "MaxCalls cfg \<le> 10000"
    and em: "length chunk \<noteq> 1" "chunk \<noteq> []" "length chunk \<le> MaxCalls cfg"
    and el: "\<forall>c \<in> set chunk. eblockTag c = tag \<and> requestIdx c < length rs
               \<and> eligible_call (requestIdx c) (rs ! requestIdx c) = Some c"
    and found: "respByID syn = Some (up (group_request cfg syn tag chunk))"
  shows "expand_group respByID (group_of syn rs (tag, chunk))
       = Done (map (\<lambda>c. direct_call call_at (ID (rs ! requestIdx c)) c) chunk)"
proof -
  let ?calls = "map call3_of chunk"
  have wf: "wf_calls ?calls"
  proof (rule wf_calls_small)
    show "?calls \<noteq> []" using em by simp
    show "length ?calls \<le> 10000" using em max by simp
    show "list_all wf_call ?calls" by (simp add: list_all_iff wf_call_def call3_of_def)
    fix c3 assume "c3 \<in> set ?calls"
    then obtain c where c: "c \<in> set chunk" "c3 = call3_of c" by auto
    then have "requestIdx c < length rs" and "eligible_call (requestIdx c) (rs ! requestIdx c) = Some c"
      using el by simp_all
    then show "length (CallData c3) \<le> 2 ^ 20"
      using small eligible_call_params [of "requestIdx c" "rs ! requestIdx c" c] c(2)
      by (fastforce simp: small_data_def call3_of_def)
  qed
  let ?res = "aggregate3_result call_at tag ?calls"
  have up: "up (group_request cfg syn tag chunk)
      = result_response syn (jstring (hex0x (encodeAggregate3Result ?res)))"
    using node wf by (simp add: multicall_node_def group_request_def)
  have wr: "wf_results ?res"
    using em max small by (intro wf_results_small) (auto simp: aggregate3_result_def small_data_def)
  have "expand_group respByID (group_of syn rs (tag, chunk))
      = Done (map2 entry_response (Entries (group_of syn rs (tag, chunk))) ?res)"
  proof (rule expand_group_results)
    show "respByID (SyntheticID (group_of syn rs (tag, chunk))) = Some (up (group_request cfg syn tag chunk))"
      using found by (simp add: group_of_def)
    show "Result (up (group_request cfg syn tag chunk)) = Some (jstring (hex0x (encodeAggregate3Result ?res)))"
      by (simp only: up) (simp add: result_response_def)
    show "map Index (Entries (group_of syn rs (tag, chunk))) = [0..<length (Entries (group_of syn rs (tag, chunk)))]"
      by (rule nth_equalityI) (simp_all add: group_of_def nth_enumerate_eq chunk_entry_def)
    show "wf_results ?res" by (rule wr)
    show "\<not> HasError (up (group_request cfg syn tag chunk))" by (simp only: up HasError_simps simp_thms)
    show "length ?res = length (Entries (group_of syn rs (tag, chunk)))"
      by (simp add: aggregate3_result_def group_of_def)
  qed
  also have "map2 entry_response (Entries (group_of syn rs (tag, chunk))) ?res
      = map (\<lambda>c. direct_call call_at (ID (rs ! requestIdx c)) c) chunk"
  proof (rule nth_equalityI)
    fix j assume "j < length (map2 entry_response (Entries (group_of syn rs (tag, chunk))) ?res)"
    then have j: "j < length chunk" by (simp add: group_of_def aggregate3_result_def)
    then have "eblockTag (chunk ! j) = tag" using el by simp
    then show "map2 entry_response (Entries (group_of syn rs (tag, chunk))) ?res ! j
        = map (\<lambda>c. direct_call call_at (ID (rs ! requestIdx c)) c) chunk ! j"
      using j by (simp add: group_of_def aggregate3_result_def nth_enumerate_eq entry_response_def
          chunk_entry_def direct_call_def call3_of_def)
  qed (simp add: group_of_def aggregate3_result_def)
  finally show ?thesis .
qed

text \<open>All groups of a plan are expanded to the direct answers of their calls.\<close>

lemma expand_plan_groups:
  assumes node: "multicall_node cfg call_at up" and small: "small_data rs call_at"
    and max: "MaxCalls cfg \<le> 10000"
    and plan: "\<And>em. em \<in> set plan \<Longrightarrow> snd em \<noteq> [] \<and> length (snd em) \<le> MaxCalls cfg
           \<and> (\<forall>c \<in> set (snd em). eblockTag c = fst em \<and> requestIdx c < length rs
                \<and> eligible_call (requestIdx c) (rs ! requestIdx c) = Some c)"
    and found: "\<And>r. r \<in> set (plan_out fresh cfg rs k plan) \<Longrightarrow> respByID (ID r) = Some (up r)"
  shows "\<exists>xss. omap (expand_group respByID) (plan_groups fresh rs k plan) = Done xss
    \<and> set (concat xss) \<subseteq> (\<lambda>c. direct_call call_at (ID (rs ! requestIdx c)) c) ` set (concat (map snd plan))
    \<and> map rID (concat xss) = map OriginalID (concat (map Entries (plan_groups fresh rs k plan)))"
  using plan found
proof (induction plan arbitrary: k)
  case Nil
  then show ?case by simp
next
  case (Cons em plan)
  obtain tag chunk where em: "em = (tag, chunk)" by fastforce
  show ?case
  proof (cases "length chunk = 1")
    case True
    then have "\<exists>xss. omap (expand_group respByID) (plan_groups fresh rs k plan) = Done xss
      \<and> set (concat xss) \<subseteq> (\<lambda>c. direct_call call_at (ID (rs ! requestIdx c)) c) ` set (concat (map snd plan))
      \<and> map rID (concat xss) = map OriginalID (concat (map Entries (plan_groups fresh rs k plan)))"
      using Cons.prems(2) by (intro Cons.IH Cons.prems(1)) (simp_all add: em)
    then show ?thesis
      using True by (elim exE conjE) (intro exI conjI, simp add: em, force simp: em, simp add: em)
  next
    case False
    then have "\<exists>xss. omap (expand_group respByID) (plan_groups fresh rs (Suc k) plan) = Done xss
      \<and> set (concat xss) \<subseteq> (\<lambda>c. direct_call call_at (ID (rs ! requestIdx c)) c) ` set (concat (map snd plan))
      \<and> map rID (concat xss) = map OriginalID (concat (map Entries (plan_groups fresh rs (Suc k) plan)))"
      using Cons.prems(2) by (intro Cons.IH Cons.prems(1)) (simp_all add: em)
    then obtain xss where xss: "omap (expand_group respByID) (plan_groups fresh rs (Suc k) plan) = Done xss"
      "set (concat xss) \<subseteq> (\<lambda>c. direct_call call_at (ID (rs ! requestIdx c)) c) ` set (concat (map snd plan))"
      "map rID (concat xss) = map OriginalID (concat (map Entries (plan_groups fresh rs (Suc k) plan)))"
      by blast
    let ?syn = "synthetic_id (fresh k)"
    have e: "expand_group respByID (group_of ?syn rs (tag, chunk))
        = Done (map (\<lambda>c. direct_call call_at (ID (rs ! requestIdx c)) c) chunk)"
    proof (rule expand_plan_group [OF node small max])
      show "respByID ?syn = Some (up (group_request cfg ?syn tag chunk))"
        using Cons.prems(2) [of "group_request cfg ?syn tag chunk"] False by (simp add: em)
    qed (use False Cons.prems(1) [of em] in \<open>simp_all add: em\<close>)
    have ids: "map rID (map (\<lambda>c. direct_call call_at (ID (rs ! requestIdx c)) c) chunk)
        = map OriginalID (Entries (group_of ?syn rs (tag, chunk)))"
      by (rule nth_equalityI)
         (simp_all add: group_of_def nth_enumerate_eq chunk_entry_def direct_call_def)
    let ?ys = "map (\<lambda>c. direct_call call_at (ID (rs ! requestIdx c)) c) chunk"
    have "omap (expand_group respByID) (plan_groups fresh rs k (em # plan)) = Done (?ys # xss)"
      using False e xss(1) by (simp add: em)
    moreover have "set (concat (?ys # xss))
        \<subseteq> (\<lambda>c. direct_call call_at (ID (rs ! requestIdx c)) c) ` set (concat (map snd (em # plan)))"
      using xss(2) by (force simp: em)
    moreover have "map rID (concat (?ys # xss))
        = map OriginalID (concat (map Entries (plan_groups fresh rs k (em # plan))))"
      using False ids xss(3) by (simp add: em del: map_map)
    ultimately show ?thesis by blast
  qed
qed

section \<open>Transparency\<close>

lemma rID_update_sub_call [simp]: "(sub_call_response i r)\<lparr>rID := j\<rparr> = sub_call_response j r"
  by (simp add: sub_call_response_def result_response_def error_response_def)

text \<open>The expansion of a node's answers has one answer for every wire identifier of the batch.\<close>

lemma length_le_concat: "(\<And>em. em \<in> set plan \<Longrightarrow> snd em \<noteq> []) \<Longrightarrow> length plan \<le> length (concat (map snd plan))"
proof (induction plan)
  case Nil
  then show ?case by simp
next
  case (Cons em plan)
  then have "length plan \<le> length (concat (map snd plan))" and "snd em \<noteq> []" by simp_all
  then show ?case by (cases "snd em") simp_all
qed

lemma classify_length: "classify i rs = (pass, eligible) \<Longrightarrow> length pass + length eligible = length rs"
  by (induction rs arbitrary: i pass eligible) (auto split: prod.splits option.splits)

lemma expand_aggregated:
  assumes agg: "aggregateEthCalls fresh rs cfg = Some (out, Some m)"
    and node: "multicall_node cfg call_at up" and small: "small_data rs call_at"
    and cfg: "0 < MaxCalls cfg" "MaxCalls cfg \<le> 10000" and fresh: "inj_on fresh {..<length rs}" and wired: "wired rs"
  shows "\<exists>xs. expandMulticallResponses (map up out) m = Done xs
    \<and> mset (map rID xs) = mset (map ID rs)
    \<and> (\<forall>x \<in> set xs. (\<exists>i < length rs. rID x = wire_id i
          \<and> (x = up (rs ! i)
             \<or> (\<exists>c. eligible_call i (rs ! i) = Some c \<and> x = direct_call call_at (wire_id i) c))))"
proof -
  obtain pass eligible plan where p: "classify 0 rs = (pass, eligible)"
    "out = pass @ plan_out fresh cfg rs 0 plan" "Groups m = plan_groups fresh rs 0 plan"
    "Passthrough m = pass @ plan_pass rs plan"
    "\<And>em. em \<in> set plan \<Longrightarrow> snd em \<noteq> [] \<and> length (snd em) \<le> MaxCalls cfg
           \<and> (\<forall>c \<in> set (snd em). eblockTag c = fst em \<and> c \<in> set eligible)"
    "mset (concat (map snd plan)) = mset eligible"
    using aggregate_Some_mapping [OF agg cfg(1)] by metis
  have "length plan \<le> length (concat (map snd plan))"
    using p(5) by (intro length_le_concat) auto
  also have "\<dots> = length eligible" using p(6) by (metis size_mset)
  also have "\<dots> \<le> length rs" using classify_length [OF p(1)] by simp
  finally have fresh': "inj_on fresh {..<0 + length plan}"
    by (intro inj_on_subset [OF fresh]) auto
  have el: "requestIdx c < length rs \<and> eligible_call (requestIdx c) (rs ! requestIdx c) = Some c"
    if "em \<in> set plan" and "c \<in> set (snd em)" for em c
    using p(5) [OF that(1)] that(2) eligible_member [OF p(1)] by blast
  have idx: "\<forall>c \<in> set (concat (map snd plan)). requestIdx c < length rs" using el by auto
  have rID_up: "rID (up r) = ID r" for r using node by (simp add: multicall_node_def)
  have pass: "set pass \<subseteq> set rs"
    using p(1) by (auto simp: classify_spec in_set_enumerate_eq)
  have inj: "r = r'" if "r \<in> set out" and "r' \<in> set out" and "ID r = ID r'" for r r'
    by (rule out_ids_inj [OF wired fresh' idx pass]) (use that p(2) in auto)
  have found: "resp_by_id (map up out) (ID r) = Some (up r)" if "r \<in> set out" for r
  proof -
    have "resp_by_id (map up out) (rID (up r)) = Some (up r)"
    proof (rule resp_by_id_find)
      show "up r \<in> set (map up out)" using that by simp
      fix r' assume "r' \<in> set (map up out)" and "rID r' = rID (up r)"
      then obtain x where "x \<in> set out" "r' = up x" "ID x = ID r" by (auto simp: rID_up)
      then show "r' = up r" using inj [OF _ that] by metis
    qed
    then show ?thesis by (simp add: rID_up)
  qed
  obtain xss where xss: "omap (expand_group (resp_by_id (map up out))) (plan_groups fresh rs 0 plan) = Done xss"
    "set (concat xss) \<subseteq> (\<lambda>c. direct_call call_at (ID (rs ! requestIdx c)) c) ` set (concat (map snd plan))"
    "map rID (concat xss) = map OriginalID (concat (map Entries (plan_groups fresh rs 0 plan)))"
    using expand_plan_groups [OF node small cfg(2), of plan fresh 0 "resp_by_id (map up out)"]
      p(5) el found by (auto simp: p(2))
  have pass_out: "set (Passthrough m) \<subseteq> set out" using p(2,4) plan_pass_subset by fastforce
  have mf: "List.map_filter (\<lambda>pt. resp_by_id (map up out) (ID pt)) ps = map up ps"
    if "set ps \<subseteq> set out" for ps
    using that by (induction ps) (auto simp: List.map_filter_def found)
  let ?xs = "map up (Passthrough m) @ concat xss"
  have "expandMulticallResponses (map up out) m = Done ?xs"
    using xss(1) mf [OF pass_out] by (simp add: expandMulticallResponses_def p(3))
  moreover have "mset (map rID ?xs) = mset (map ID rs)"
  proof -
    have "mset (map fst (map request_key rs))
        = mset (map fst (map request_key (Passthrough m)))
          + mset (map fst (map entry_key (concat (map Entries (Groups m)))))"
      using partition_keys [OF cfg(1) agg] by (metis mset_map image_mset_union)
    moreover have "map fst (map request_key l) = map ID l" for l
      by (simp add: request_key_def)
    moreover have "map fst (map entry_key l) = map OriginalID l" for l
      by (simp add: entry_key_def)
    moreover have "map rID (map up l) = map ID l" for l by (simp add: rID_up)
    ultimately show ?thesis using xss(3) p(3) by (simp del: map_map map_concat)
  qed
  moreover have "\<exists>i < length rs. rID x = wire_id i
          \<and> (x = up (rs ! i)
             \<or> (\<exists>c. eligible_call i (rs ! i) = Some c \<and> x = direct_call call_at (wire_id i) c))"
    if x: "x \<in> set ?xs" for x
  proof -
    consider r where "r \<in> set (Passthrough m)" "x = up r"
      | c where "c \<in> set (concat (map snd plan))" "x = direct_call call_at (ID (rs ! requestIdx c)) c"
    proof (cases "x \<in> set (concat xss)")
      case True
      then have "x \<in> (\<lambda>c. direct_call call_at (ID (rs ! requestIdx c)) c) ` set (concat (map snd plan))"
        using xss(2) by (rule subsetD [rotated])
      then show ?thesis using that(2) by (elim imageE) simp
    next
      case False
      then show ?thesis using that(1) x by auto
    qed
    then show ?thesis
    proof cases
      case 1
      then have "r \<in> set rs" using p(4) pass plan_pass_member idx by fastforce
      then obtain i where "i < length rs" "r = rs ! i" by (metis in_set_conv_nth)
      then show ?thesis using 1 wired rID_up by (auto simp: wired_def)
    next
      case 2
      then have "requestIdx c < length rs" "eligible_call (requestIdx c) (rs ! requestIdx c) = Some c"
        using el by auto
      then show ?thesis using 2 wired by (auto simp: wired_def direct_call_def)
    qed
  qed
  ultimately show ?thesis by blast
qed

text \<open>The answer of each entry, from the node itself or from a sub-call at the block tag the program reads.\<close>

lemma aggregation_answers:
  assumes "McEnabled cfg" and "multicall_node cfg call_at up"
    and "small_data (wire_requests entries) call_at"
    and "0 < MaxCalls cfg" and "MaxCalls cfg \<le> 10000"
    and "inj_on fresh {..<length entries}" and "length entries < 2 ^ 63"
  shows "\<exists>ds. process_entries fresh cfg (\<lambda>rs. Done (map up rs)) entries = Some (Done ds)
    \<and> (\<forall>i < length entries. \<exists>x. (i, x) \<in> set ds
          \<and> (x = (up (wire_requests entries ! i))\<lparr>rID := ID (req (entries ! i))\<rparr>
             \<or> (\<exists>c. eligible_call i (wire_requests entries ! i) = Some c
                    \<and> x = direct_call call_at (ID (req (entries ! i))) c)))"
proof -
  let ?rs = "wire_requests entries"
  obtain out m where agg: "aggregateEthCalls fresh ?rs cfg = Some (out, m)"
    using aggregate_returns [OF assms(4), of fresh ?rs] by auto
  have rID_up: "rID (up r) = ID r" for r using assms(2) by (simp add: multicall_node_def)
  have "\<exists>xs. process_entries fresh cfg (\<lambda>rs. Done (map up rs)) entries = Some (Done (deliver_all entries xs))
      \<and> mset (map rID xs) = mset (map ID ?rs)
      \<and> (\<forall>x \<in> set xs. (\<exists>i < length ?rs. rID x = wire_id i
          \<and> (x = up (?rs ! i)
             \<or> (\<exists>c. eligible_call i (?rs ! i) = Some c \<and> x = direct_call call_at (wire_id i) c))))"
  proof (cases m)
    case None
    then have "out = ?rs" using agg by (auto simp: aggregateEthCalls_def Let_def split: prod.splits if_splits)
    then have "process_entries fresh cfg (\<lambda>rs. Done (map up rs)) entries
        = Some (Done (deliver_all entries (map up ?rs)))"
      using agg None assms(1) by (simp add: process_entries_def)
    moreover have "mset (map rID (map up ?rs)) = mset (map ID ?rs)" by (simp add: rID_up o_def)
    moreover have "\<forall>x \<in> set (map up ?rs). \<exists>i < length ?rs. rID x = wire_id i \<and> x = up (?rs ! i)"
    proof
      fix x assume "x \<in> set (map up ?rs)"
      then obtain i where "i < length ?rs" "x = up (?rs ! i)" by (auto simp: in_set_conv_nth)
      moreover have "ID (?rs ! i) = wire_id i"
        using wired_wire_requests [of entries] calculation(1) by (simp add: wired_def)
      ultimately show "\<exists>i < length ?rs. rID x = wire_id i \<and> x = up (?rs ! i)"
        using rID_up by auto
    qed
    ultimately show ?thesis by blast
  next
    case (Some mm)
    obtain xs where "expandMulticallResponses (map up out) mm = Done xs"
      and xs: "mset (map rID xs) = mset (map ID ?rs)"
        "\<forall>x \<in> set xs. (\<exists>i < length ?rs. rID x = wire_id i
          \<and> (x = up (?rs ! i)
             \<or> (\<exists>c. eligible_call i (?rs ! i) = Some c \<and> x = direct_call call_at (wire_id i) c)))"
      using expand_aggregated [OF agg [unfolded Some] assms(2,3,4,5) _ wired_wire_requests] assms(6) by auto
    then have "process_entries fresh cfg (\<lambda>rs. Done (map up rs)) entries
        = Some (Done (deliver_all entries xs))"
      using agg Some assms(1) by (simp add: process_entries_def)
    then show ?thesis using xs by blast
  qed
  then obtain xs where xs: "process_entries fresh cfg (\<lambda>rs. Done (map up rs)) entries
        = Some (Done (deliver_all entries xs))"
      "mset (map rID xs) = mset (map ID ?rs)"
      "\<And>x. x \<in> set xs \<Longrightarrow> (\<exists>i < length ?rs. rID x = wire_id i
          \<and> (x = up (?rs ! i)
             \<or> (\<exists>c. eligible_call i (?rs ! i) = Some c \<and> x = direct_call call_at (wire_id i) c)))"
    by blast
  have "distinct (map wire_id [0..<length entries])"
    by (simp add: distinct_map inj_on_def wire_id_inj)
  then have wa: "wire_answers (length entries) xs"
    using xs(2,3) mset_eq_imp_distinct_iff [OF xs(2)] by (auto simp: wire_answers_def ID_wire_requests)
  have "\<exists>x. (i, x) \<in> set (deliver_all entries xs)
          \<and> (x = (up (?rs ! i))\<lparr>rID := ID (req (entries ! i))\<rparr>
             \<or> (\<exists>c. eligible_call i (?rs ! i) = Some c \<and> x = direct_call call_at (ID (req (entries ! i))) c))"
    if i: "i < length entries" for i
  proof -
    have "wire_id i \<in> set (map rID xs)"
      using mset_eq_setD [OF xs(2)] i by (simp add: ID_wire_requests)
    then obtain x where x: "x \<in> set xs" "rID x = wire_id i" by auto
    have "(i, x\<lparr>rID := ID (req (entries ! i))\<rparr>) \<in> set (deliver_all entries xs)"
      by (rule deliver_all_wire [OF wa x assms(7)])
    moreover have "x = up (?rs ! i)
             \<or> (\<exists>c. eligible_call i (?rs ! i) = Some c \<and> x = direct_call call_at (wire_id i) c)"
      using xs(3) [OF x(1)] x(2) by (auto simp: wire_id_inj)
    ultimately show ?thesis by (auto simp: direct_call_def rID_update_sub_call)
  qed
  then show ?thesis using xs(1) by blast
qed

text \<open>
  What the node answers to a call that is sent directly: the return data, or an error when the call
  fails. That this is the same \<open>call_at\<close> as in an aggregate3 says that the call does not look at
  its sender, which is the contract there.
\<close>

definition answers_calls :: "call_at \<Rightarrow> (BatchRequest \<Rightarrow> BatchResponse) \<Rightarrow> BatchRequest \<Rightarrow> bool" where
  "answers_calls call_at up r \<longleftrightarrow>
     (\<forall>tag t d. Method r = ''eth_call'' \<and> plain_params (Params r) tag t d \<longrightarrow>
        (let m = call_at (jstring tag) t d in
         if Success m then up r = result_response (ID r) (jstring (hex0x (ReturnData m))) else HasError (up r)))"

definition same_answer :: "BatchResponse \<Rightarrow> BatchResponse \<Rightarrow> bool" where
  "same_answer x y \<longleftrightarrow> x = y \<or> rID x = rID y \<and> HasError x \<and> HasError y"

lemma wire_requests_nth:
  assumes "i < length entries"
  shows "Method (wire_requests entries ! i) = Method (req (entries ! i))"
    and "Params (wire_requests entries ! i) = Params (req (entries ! i))"
  using assms by (simp_all add: wire_requests_def wire_request_def nth_enumerate_eq)

lemma direct_call_same:
  assumes "eligible_call i r = Some c" and "plain_params (Params r) tag t d" and "answers_calls call_at up r"
  shows "same_answer (direct_call call_at j c) ((up r)\<lparr>rID := j\<rparr>)"
proof -
  have m: "Method r = ''eth_call''" and p: "parseEthCallParams (Params r)
      = Some \<lparr>CallParams = eparams c, BlockTag = eblockTag c, HasStateOverrides = False\<rparr>"
    using eligible_call_params [OF assms(1)] by simp_all
  have c: "direct_call call_at j c = sub_call_response j (call_at (jstring tag) t d)"
    using plain_params_parsed [OF assms(2)] p by (auto simp: direct_call_def)
  show ?thesis
  proof (cases "Success (call_at (jstring tag) t d)")
    case True
    then have "up r = result_response (ID r) (jstring (hex0x (ReturnData (call_at (jstring tag) t d))))"
      using assms(2,3) m by (simp add: answers_calls_def Let_def)
    then show ?thesis using True by (simp add: c same_answer_def sub_call_response_def result_response_def)
  next
    case False
    then have "HasError (up r)" using assms(2,3) m by (auto simp: answers_calls_def Let_def)
    then show ?thesis
      using False by (simp add: c same_answer_def sub_call_response_def rpc_error_data_def HasError_def error_response_def)
  qed
qed


subsection \<open>A node that has the property\<close>

definition sample_node :: "call_at \<Rightarrow> BatchRequest \<Rightarrow> BatchResponse" where
  "sample_node call_at r =
     (case Params r of
        Some (JArr [JObj [(k, JStr d), to], tag]) \<Rightarrow>
          (case decodeAggregate3Calls (hexToBytes d) of
             Done calls \<Rightarrow> result_response (ID r) (jstring (hex0x (encodeAggregate3Result
                 (map (\<lambda>c. call_at tag (Target c) (CallData c)) calls))))
           | _ \<Rightarrow> result_response (ID r) JNull)
      | _ \<Rightarrow> result_response (ID r) JNull)"

lemma sample_node_multicall: "multicall_node cfg call_at (sample_node call_at)"
proof -
  have q: "jstring (hex0x b) = JStr (hex0x b)" for b by (simp add: jstring_def)
  show ?thesis
    unfolding multicall_node_def
    by (auto simp: sample_node_def multicall_params_def q calls.dec_enc aggregate3_result_def
        split: option.split json.split list.split outcome.split)
qed

text \<open>A node that answers calls sent directly, too; one of the calls fails.\<close>

definition calling_node :: "call_at \<Rightarrow> BatchRequest \<Rightarrow> BatchResponse" where
  "calling_node call_at r =
     (case Params r of
        Some (JArr (JObj [(k, JStr a), (l, JStr x)] # tags)) \<Rightarrow>
          if k = ''to'' then
            sub_call_response (ID r)
              (call_at (case tags of [] \<Rightarrow> JStr ''latest'' | tag # _ \<Rightarrow> tag) (hexToAddress a) (hexToBytes x))
          else sample_node call_at r
      | _ \<Rightarrow> sample_node call_at r)"

definition some_fail :: call_at where
  "some_fail tag t d = \<lparr>Success = d \<noteq> [0xbb], ReturnData = take 32 (d @ t)\<rparr>"

definition plain_request :: "bytes \<Rightarrow> bytes \<Rightarrow> json list \<Rightarrow> string \<Rightarrow> BatchRequest" where
  "plain_request t d tags i =
     \<lparr>JSONRPC = ''2.0'', ID = Some (JNum i), Method = ''eth_call'',
      Params = Some (JArr (JObj [(''to'', JStr (hex0x t)), (''data'', JStr (hex0x d))] # tags))\<rparr>"

definition plain_entries :: "batchEntry list" where
  "plain_entries =
     [\<lparr>caller = 0, req = plain_request (replicate 20 0x11) [0xaa] [] ''7''\<rparr>,
      \<lparr>caller = 1, req = plain_request (replicate 20 0x22) [0xbb] [JStr ''latest''] ''7''\<rparr>,
      \<lparr>caller = 2, req = head_request\<rparr>]"

lemma calling_node_multicall: "multicall_node cfg call_at (calling_node call_at)"
proof -
  have "calling_node call_at \<lparr>JSONRPC = v, ID = i, Method = m, Params = Some (multicall_params a tag d)\<rparr>
      = sample_node call_at \<lparr>JSONRPC = v, ID = i, Method = m, Params = Some (multicall_params a tag d)\<rparr>" for v i m a tag d
    by (simp add: calling_node_def multicall_params_def jstring_def)
  moreover have "rID (calling_node call_at r) = ID r" for r
    using sample_node_multicall [of cfg call_at]
    by (auto simp: calling_node_def multicall_node_def split: option.split json.split list.split)
  ultimately show ?thesis using sample_node_multicall [of cfg call_at] by (simp add: multicall_node_def)
qed

lemma plain_request_params:
  assumes "length t = 20" and "tags = [] \<or> tags = [JStr ''latest'']"
  shows "plain_params (Params (plain_request t d tags i)) tag t' d' \<longleftrightarrow> tag = ''latest'' \<and> t' = t \<and> d' = d"
proof -
  have "plain ''latest''" by (simp add: json_eval)
  then have u: "unquote ''latest'' = Some ''latest''" by simp
  have h: "unquote (hex0x b) = Some (''0x'' @ hex_encode b)" for b using unquote_plain [OF plain_hex0x] by (simp add: hex0x_def)
  have x: "\<exists>l1 l2 a x. unquote l1 = Some (''0x'' @ a) \<and> hex_decode a = Some t \<and> unquote l2 = Some (''0x'' @ x)
      \<and> hex_decode x = Some d \<and> hex0x t = l1 \<and> hex0x d = l2"
    by (intro exI conjI) (rule h hex_decode_encode refl)+
  show ?thesis
    using assms x by (elim disjE) (auto simp: plain_params_def names_address_def plain_request_def h u)
qed

lemma calling_node_answers:
  assumes "length t = 20" and "tags = [] \<or> tags = [JStr ''latest'']"
  shows "answers_calls call_at (calling_node call_at) ((plain_request t d tags i)\<lparr>ID := j\<rparr>)"
proof -
  have l: "jstring ''latest'' = JStr ''latest''" by (simp add: jstring_def json_eval)
  have "(case tags of [] \<Rightarrow> JStr ''latest'' | tag # _ \<Rightarrow> tag) = jstring ''latest''" using assms(2) l by auto
  then have "calling_node call_at ((plain_request t d tags i)\<lparr>ID := j\<rparr>) = sub_call_response j (call_at (jstring ''latest'') t d)"
    using assms(1) by (simp add: calling_node_def plain_request_def hexToAddress_hex0x)
  then show ?thesis
    using plain_request_params [OF assms]
    by (auto simp: answers_calls_def Let_def sub_call_response_def rpc_error_data_def plain_request_def)
qed


end
