(* ===== verification/Machines.thy ===== *)
theory Machines
  imports Sabre_Prelude
begin

text \<open>
  The contracts of the concurrent components: an invariant that every step of a machine keeps, and a
  measure by which its internal steps lead to a goal. Each machine of the development interprets
  them on its own step relation.
\<close>

locale invariant_machine =
  fixes init :: 's
    and step :: "'s \<Rightarrow> 's \<Rightarrow> bool"
    and inv :: "'s \<Rightarrow> bool"
  assumes inv_init: "inv init"
    and inv_step: "inv s \<Longrightarrow> step s s' \<Longrightarrow> inv s'"
begin

lemma inv_steps: "step\<^sup>*\<^sup>* s s' \<Longrightarrow> inv s \<Longrightarrow> inv s'"
  by (induction rule: rtranclp_induct) (auto intro: inv_step)

lemma reachable: "step\<^sup>*\<^sup>* init s \<Longrightarrow> inv s"
  using inv_steps inv_init by blast

end

text \<open>
  A machine whose internal steps, one of which is always possible before the goal, come closer to the
  goal by a measure.
\<close>

locale progress_machine = invariant_machine init step inv
  for init :: 's and step :: "'s \<Rightarrow> 's \<Rightarrow> bool" and inv :: "'s \<Rightarrow> bool" +
  fixes internal :: "'s \<Rightarrow> 's \<Rightarrow> bool"
    and left :: "'s \<Rightarrow> nat"
    and goal :: "'s \<Rightarrow> bool"
  assumes internal_step: "internal s s' \<Longrightarrow> step s s'"
    and closer: "inv s \<Longrightarrow> internal s s' \<Longrightarrow> left s' < left s"
    and live: "inv s \<Longrightarrow> \<not> goal s \<Longrightarrow> \<exists>s'. internal s s'"
begin

lemma leads_to_goal:
  "inv s \<Longrightarrow> \<exists>s'. internal\<^sup>*\<^sup>* s s' \<and> goal s'"
proof (induction "left s" arbitrary: s rule: less_induct)
  case less
  show ?case
  proof (cases "goal s")
    case False
    then obtain t where t: "internal s t" using live less.prems by blast
    then have "inv t" and "left t < left s" using inv_step internal_step closer less.prems by blast+
    then show ?thesis using less.hyps t converse_rtranclp_into_rtranclp by metis
  qed blast
qed

text \<open>Whatever order the internal steps are taken in, they come to an end.\<close>

lemma internal_ends: "inv s \<Longrightarrow> (internal ^^ n) s s' \<Longrightarrow> n \<le> left s"
proof (induction n arbitrary: s)
  case 0
  then show ?case by simp
next
  case (Suc n)
  obtain t where t: "internal s t" "(internal ^^ n) t s'" using Suc.prems(2) by (meson relpowp_Suc_D2)
  then have "inv t" and "left t < left s" using inv_step internal_step closer Suc.prems(1) by blast+
  then show ?case using Suc.IH [OF _ t(2)] by simp
qed

end

end
