(* ===== verification/Batch_Machine.thy ===== *)
theory Batch_Machine
  imports Batch Machines "HOL-Library.AList" "HOL-Library.Multiset"
begin

text \<open>
  The concurrent part of the batch processor, \<open>internal/backend/batch.go\<close>: callers that add requests,
  the goroutines that take a batch over, wait for a worker, send and deliver (\<open>processBatch\<close>), and
  the shared state between them. Each step is one atomic action: a critical section of \<open>bp.mu\<close>, a
  receive from the worker semaphore, one send on a response channel.
\<close>

section \<open>State\<close>

text \<open>
  Where the goroutine of a batch stands: before its timer or the dispatch, after it has taken the
  batch out of the map, waiting for a worker with its snapshot of the entries, dropping the entries
  whose caller has left, sending, delivering responses, returned.
\<close>

datatype batch_pc =
    Waiting
  | Claimed
  | Queued "batchEntry list"
  | Filtering "batchEntry list" "batchEntry list"
  | Sending "batchEntry list"
  | Delivering "(batchEntry \<times> BatchResponse) list"
  | Finished

record Batch =
  BackendURL :: string
  dispatch_closed :: bool
  entries :: "batchEntry list"
  pc :: batch_pc

record BatchProcessor =
  maxBatchSize :: nat
  maxWaitTime :: int
  maxConcurrent :: nat
  maxRetries :: nat
  multicall :: MulticallConfig

text \<open>
  Batches are named by their position in \<open>started\<close>. \<open>workers\<close> counts the tokens in the semaphore of a
  backend; \<open>ended\<close> are the callers whose context is done. \<open>added\<close> and \<open>sends\<close> record what was asked
  and the sends on response channels, each of which holds one response.
\<close>

record bp_state =
  batches :: "(string \<times> nat) list"
  workers :: "string \<Rightarrow> nat"
  started :: "Batch list"
  ended :: "nat set"
  added :: "batchEntry list"
  sends :: "(batchEntry \<times> BatchResponse) list"

definition bp_init :: bp_state where
  "bp_init = \<lparr>batches = [], workers = (\<lambda>_. 0), started = [], ended = {}, added = [], sends = []\<rparr>"

section \<open>Adding requests\<close>

definition request_copy :: "BatchRequest \<Rightarrow> BatchRequest" where
  "request_copy r =
     \<lparr>JSONRPC = JSONRPC r, ID = (case ID r of None \<Rightarrow> Some JNull | Some i \<Rightarrow> Some i), Method = Method r,
      Params = (case Params r of None \<Rightarrow> Some (JArr []) | Some p \<Rightarrow> Some p)\<rparr>"

text \<open>Closing a closed channel panics: None.\<close>

definition close_dispatch :: "nat \<Rightarrow> bp_state \<Rightarrow> bp_state option" where
  "close_dispatch n s =
     (if dispatch_closed (started s ! n) then None
      else Some (s\<lparr>started := (started s)[n := (started s ! n)\<lparr>dispatch_closed := True\<rparr>]\<rparr>))"

definition append_entry :: "BatchProcessor \<Rightarrow> string \<Rightarrow> nat \<Rightarrow> batchEntry \<Rightarrow> bp_state \<Rightarrow> bp_state option" where
  "append_entry bp u n e s =
     (let b = started s ! n;
          s1 = s\<lparr>started := (started s)[n := b\<lparr>entries := entries b @ [e]\<rparr>]\<rparr>
      in if maxBatchSize bp \<le> length (entries b @ [e])
         then close_dispatch n (s1\<lparr>batches := AList.delete u (batches s1)\<rparr>)
         else Some s1)"

definition AddRequest :: "BatchProcessor \<Rightarrow> string \<Rightarrow> nat \<Rightarrow> BatchRequest \<Rightarrow> bp_state \<Rightarrow> bp_state option" where
  "AddRequest bp u c r s =
     (let e = \<lparr>caller = c, req = request_copy r\<rparr>;
          s1 = s\<lparr>added := added s @ [e]\<rparr>;
          n = length (started s)
      in if Method r \<in> set rangeScans
         then Some (s1\<lparr>started := started s
                @ [\<lparr>BackendURL = u, dispatch_closed = True, entries = [e], pc = Waiting\<rparr>]\<rparr>)
         else
           (case map_of (batches s) u of
              Some k \<Rightarrow> append_entry bp u k e s1
            | None \<Rightarrow>
                append_entry bp u n e
                  (s1\<lparr>started := started s
                        @ [\<lparr>BackendURL = u, dispatch_closed = False, entries = [], pc = Waiting\<rparr>],
                      batches := (u, n) # batches s\<rparr>)))"

fun flush :: "(string \<times> nat) list \<Rightarrow> bp_state \<Rightarrow> bp_state option" where
  "flush [] s = Some s"
| "flush ((u, n) # bs) s =
     Option.bind (close_dispatch n (s\<lparr>batches := AList.delete u (batches s)\<rparr>)) (flush bs)"

definition FlushAll :: "bp_state \<Rightarrow> bp_state option" where
  "FlushAll s = flush (batches s) s"

definition GetBatchCount :: "bp_state \<Rightarrow> nat" where
  "GetBatchCount s = length (batches s)"

section \<open>The goroutine of a batch\<close>

definition set_pc :: "nat \<Rightarrow> batch_pc \<Rightarrow> bp_state \<Rightarrow> bp_state" where
  "set_pc n p s = s\<lparr>started := (started s)[n := (started s ! n)\<lparr>pc := p\<rparr>]\<rparr>"

definition acquire :: "string \<Rightarrow> bp_state \<Rightarrow> bp_state" where
  "acquire u s = s\<lparr>workers := (workers s)(u := workers s u + 1)\<rparr>"

definition release :: "string \<Rightarrow> bp_state \<Rightarrow> bp_state" where
  "release u s = s\<lparr>workers := (workers s)(u := workers s u - 1)\<rparr>"

definition claim :: "nat \<Rightarrow> bp_state \<Rightarrow> bp_state" where
  "claim n s =
     (let u = BackendURL (started s ! n) in
      set_pc n Claimed
        (if map_of (batches s) u = Some n then s\<lparr>batches := AList.delete u (batches s)\<rparr> else s))"

definition can_send :: "batchEntry \<Rightarrow> bp_state \<Rightarrow> bool" where
  "can_send e s \<longleftrightarrow> caller e \<notin> caller ` fst ` set (sends s)"

definition send_response :: "batchEntry \<Rightarrow> BatchResponse \<Rightarrow> bp_state \<Rightarrow> bp_state" where
  "send_response e r s = s\<lparr>sends := sends s @ [(e, r)]\<rparr>"

text \<open>The timer may fire at any time, so a batch may be claimed at any time.\<close>

inductive process_step :: "BatchProcessor \<Rightarrow> nat \<Rightarrow> bp_state \<Rightarrow> bp_state \<Rightarrow> bool" for bp n where
  claim: "pc (started s ! n) = Waiting \<Longrightarrow> process_step bp n s (claim n s)"
| snapshot: "pc (started s ! n) = Claimed \<Longrightarrow>
    process_step bp n s
      (set_pc n (if entries (started s ! n) = [] then Finished else Queued (entries (started s ! n))) s)"
| worker: "pc (started s ! n) = Queued es \<Longrightarrow> workers s (BackendURL (started s ! n)) < maxConcurrent bp \<Longrightarrow>
    process_step bp n s (set_pc n (Filtering [] es) (acquire (BackendURL (started s ! n)) s))"
| abandon: "pc (started s ! n) = Queued es \<Longrightarrow> \<forall>e \<in> set es. caller e \<in> ended s \<Longrightarrow>
    process_step bp n s (set_pc n (Delivering (map (\<lambda>e. (e, internal_failure e (cause (caller e)))) es)) s)"
| keep: "pc (started s ! n) = Filtering live (e # rest) \<Longrightarrow> caller e \<notin> ended s \<Longrightarrow>
    process_step bp n s (set_pc n (Filtering (live @ [e]) rest) s)"
| drop: "pc (started s ! n) = Filtering live (e # rest) \<Longrightarrow> caller e \<in> ended s \<Longrightarrow> can_send e s \<Longrightarrow>
    process_step bp n s (set_pc n (Filtering live rest) (send_response e (internal_failure e cause1) s))"
| nobody: "pc (started s ! n) = Filtering [] [] \<Longrightarrow>
    process_step bp n s (set_pc n Finished (release (BackendURL (started s ! n)) s))"
| filtered: "pc (started s ! n) = Filtering live [] \<Longrightarrow> live \<noteq> [] \<Longrightarrow> process_step bp n s (set_pc n (Sending live) s)"
| sent: "pc (started s ! n) = Sending live \<Longrightarrow>
    process_entries fresh (multicall bp) send live = Some (Done ds) \<Longrightarrow>
    process_step bp n s
      (set_pc n (Delivering (map (\<lambda>(i, r). (live ! i, r)) ds)) (release (BackendURL (started s ! n)) s))"
| deliver: "pc (started s ! n) = Delivering ((e, r) # ds) \<Longrightarrow> can_send e s \<Longrightarrow>
    process_step bp n s (set_pc n (Delivering ds) (send_response e r s))"
| finish: "pc (started s ! n) = Delivering [] \<Longrightarrow> process_step bp n s (set_pc n Finished s)"

inductive_cases process_stepE: "process_step bp n s s'"

text \<open>The machine: callers come and leave, the pending batches are flushed, a goroutine moves.\<close>

inductive batch_step :: "BatchProcessor \<Rightarrow> bp_state \<Rightarrow> bp_state \<Rightarrow> bool" for bp where
  add: "c \<notin> caller ` set (added s) \<Longrightarrow> AddRequest bp u c r s = Some s' \<Longrightarrow> batch_step bp s s'"
| leave: "batch_step bp s (s\<lparr>ended := insert c (ended s)\<rparr>)"
| flush: "FlushAll s = Some s' \<Longrightarrow> batch_step bp s s'"
| run: "n < length (started s) \<Longrightarrow> process_step bp n s s' \<Longrightarrow> batch_step bp s s'"

inductive_cases batch_stepE: "batch_step bp s s'"

lemma set_pc_simps [simp]:
  "batches (set_pc n p s) = batches s" "workers (set_pc n p s) = workers s" "ended (set_pc n p s) = ended s"
  "added (set_pc n p s) = added s" "sends (set_pc n p s) = sends s"
  "started (set_pc n p s) = (started s)[n := (started s ! n)\<lparr>pc := p\<rparr>]"
  by (simp_all add: set_pc_def)

lemma state_simps [simp]:
  "batches (acquire u s) = batches s" "started (acquire u s) = started s" "added (acquire u s) = added s"
  "sends (acquire u s) = sends s" "batches (release u s) = batches s" "started (release u s) = started s"
  "added (release u s) = added s" "sends (release u s) = sends s"
  "batches (send_response e r s) = batches s" "started (send_response e r s) = started s"
  "added (send_response e r s) = added s" "workers (send_response e r s) = workers s"
  "sends (send_response e r s) = sends s @ [(e, r)]"
  by (simp_all add: acquire_def release_def send_response_def)

section \<open>The map of open batches\<close>

text \<open>
  A batch in the map is open: its goroutine has not claimed it, its dispatch is not closed, and it has
  room. No batch is larger than the limit.
\<close>

definition open_batch :: "BatchProcessor \<Rightarrow> string \<Rightarrow> Batch \<Rightarrow> bool" where
  "open_batch bp u b \<longleftrightarrow>
     BackendURL b = u \<and> pc b = Waiting \<and> \<not> dispatch_closed b \<and> length (entries b) < maxBatchSize bp"

definition map_ok :: "BatchProcessor \<Rightarrow> bp_state \<Rightarrow> bool" where
  "map_ok bp s \<longleftrightarrow>
     distinct (map fst (batches s))
     \<and> (\<forall>(u, n) \<in> set (batches s). n < length (started s) \<and> open_batch bp u (started s ! n))
     \<and> (\<forall>b \<in> set (started s). length (entries b) \<le> max 1 (maxBatchSize bp))"

lemma map_ok_indices: "map_ok bp s \<Longrightarrow> distinct (map snd (batches s))"
proof -
  assume ok: "map_ok bp s"
  have url: "BackendURL (started s ! n) = u" if "(u, n) \<in> set (batches s)" for u n
    using ok that by (auto simp: map_ok_def open_batch_def)
  have "inj_on snd (set (batches s))"
    by (rule inj_onI) (metis prod.collapse url)
  moreover have "distinct (batches s)" using ok by (simp add: map_ok_def distinct_map)
  ultimately show ?thesis by (simp add: distinct_map)
qed

lemma delete_in_set: "(u, n) \<in> set (AList.delete v xs) \<longleftrightarrow> (u, n) \<in> set xs \<and> u \<noteq> v"
  by (auto simp: AList.delete_eq)

text \<open>
  Adding a request never panics. It appends the entry to an open batch of the backend, or to a new one,
  and touches no other batch.
\<close>

lemma append_entry_shape:
  assumes "n < length (started s)" and "distinct (map fst (batches s))" and "map_of (batches s) u = Some n"
    and "started s ! n = b" and "BackendURL b = u" and "pc b = Waiting" and "\<not> dispatch_closed b"
    and "\<forall>(v, k) \<in> set (batches s). v \<noteq> u \<longrightarrow> k < length (started s) \<and> open_batch bp v (started s ! k)"
    and "\<forall>x \<in> set (started s). length (entries x) \<le> max 1 (maxBatchSize bp)"
    and "length (entries b) < max 1 (maxBatchSize bp)"
  shows "\<exists>b' bs. append_entry bp u n e s = Some (s\<lparr>started := (started s)[n := b'], batches := bs\<rparr>)
    \<and> entries b' = entries b @ [e] \<and> pc b' = Waiting \<and> BackendURL b' = u
    \<and> map_ok bp (s\<lparr>started := (started s)[n := b'], batches := bs\<rparr>)"
proof -
  let ?b = "b\<lparr>entries := entries b @ [e]\<rparr>"
  have other: "k \<noteq> n" if "(v, k) \<in> set (batches s)" "v \<noteq> u" for v k
    using assms(4,5,8) that by (auto simp: open_batch_def)
  have lim: "length (entries x) \<le> max 1 (maxBatchSize bp)" if "x \<in> set ((started s)[n := b'])"
    and "length (entries b') \<le> max 1 (maxBatchSize bp)" for x b'
    using that assms(9) set_update_subset_insert by fastforce
  show ?thesis
  proof (cases "maxBatchSize bp \<le> length (entries b @ [e])")
    case full: True
    have "append_entry bp u n e s
        = Some (s\<lparr>started := (started s)[n := ?b\<lparr>dispatch_closed := True\<rparr>], batches := AList.delete u (batches s)\<rparr>)"
      using assms(1,4,7) full by (simp add: append_entry_def close_dispatch_def Let_def)
    moreover have "map_ok bp (s\<lparr>started := (started s)[n := ?b\<lparr>dispatch_closed := True\<rparr>],
        batches := AList.delete u (batches s)\<rparr>)"
      using assms(1,2,8,10) other lim [of _ "?b\<lparr>dispatch_closed := True\<rparr>"]
      by (fastforce simp: map_ok_def delete_in_set distinct_delete)
    ultimately show ?thesis
      using assms(5,6) by (intro exI [of _ "?b\<lparr>dispatch_closed := True\<rparr>"] exI [of _ "AList.delete u (batches s)"]) simp
  next
    case room: False
    have "append_entry bp u n e s = Some (s\<lparr>started := (started s)[n := ?b], batches := batches s\<rparr>)"
      using assms(4) room by (simp add: append_entry_def Let_def)
    moreover have "map_ok bp (s\<lparr>started := (started s)[n := ?b], batches := batches s\<rparr>)"
    proof -
      have "open_batch bp v ((started s)[n := ?b] ! k)" and "k < length (started s)"
        if "(v, k) \<in> set (batches s)" for v k
      proof -
        have "k = n" if "v = u" using \<open>(v, k) \<in> set (batches s)\<close> assms(2,3) that by simp
        then show "open_batch bp v ((started s)[n := ?b] ! k)" and "k < length (started s)"
          using that assms(1,5,6,7,8) room other [OF that]
          by (cases "v = u"; fastforce simp: open_batch_def)+
      qed
      then show ?thesis
        using assms(2,10) lim [of _ ?b] by (fastforce simp: map_ok_def)
    qed
    ultimately show ?thesis using assms(5,6) by (intro exI [of _ ?b] exI [of _ "batches s"]) simp
  qed
qed

lemma AddRequest_shape:
  assumes "map_ok bp s"
  shows "\<exists>s' n b. AddRequest bp u c r s = Some s' \<and> map_ok bp s'
    \<and> s' = s\<lparr>added := added s @ [\<lparr>caller = c, req = request_copy r\<rparr>],
           started := (if n < length (started s) then (started s)[n := b] else started s @ [b]),
           batches := batches s'\<rparr>
    \<and> n \<le> length (started s) \<and> pc b = Waiting \<and> BackendURL b = u
    \<and> entries b = (if n < length (started s) then entries (started s ! n) else []) @ [\<lparr>caller = c, req = request_copy r\<rparr>]
    \<and> (n < length (started s) \<longrightarrow> pc (started s ! n) = Waiting \<and> BackendURL (started s ! n) = u)"
proof -
  let ?e = "\<lparr>caller = c, req = request_copy r\<rparr>"
  let ?n = "length (started s)"
  have ok: "distinct (map fst (batches s))"
      "\<And>v k. (v, k) \<in> set (batches s) \<Longrightarrow> k < ?n \<and> open_batch bp v (started s ! k)"
      "\<And>b. b \<in> set (started s) \<Longrightarrow> length (entries b) \<le> max 1 (maxBatchSize bp)"
    using assms by (auto simp: map_ok_def)
  consider (solo) "Method r \<in> set rangeScans"
    | (join) k where "Method r \<notin> set rangeScans" "map_of (batches s) u = Some k"
    | (new) "Method r \<notin> set rangeScans" "map_of (batches s) u = None" by (cases "map_of (batches s) u") auto
  then show ?thesis
  proof cases
    case solo
    let ?b = "\<lparr>BackendURL = u, dispatch_closed = True, entries = [?e], pc = Waiting\<rparr>"
    have "AddRequest bp u c r s = Some (s\<lparr>added := added s @ [?e], started := started s @ [?b]\<rparr>)"
      using solo by (simp add: AddRequest_def Let_def)
    moreover have "map_ok bp (s\<lparr>added := added s @ [?e], started := started s @ [?b]\<rparr>)"
      using ok by (fastforce simp: map_ok_def nth_append)
    ultimately show ?thesis by (intro exI [of _ "s\<lparr>added := added s @ [?e], started := started s @ [?b]\<rparr>"]
        exI [of _ ?n] exI [of _ ?b]) simp
  next
    case join
    let ?s = "s\<lparr>added := added s @ [?e]\<rparr>"
    have o: "k < ?n" "open_batch bp u (started s ! k)" using ok(2) map_of_SomeD [OF join(2)] by blast+
    then have small: "length (entries (started s ! k)) < max 1 (maxBatchSize bp)" by (simp add: open_batch_def)
    have lim: "\<forall>b \<in> set (started s). length (entries b) \<le> max 1 (maxBatchSize bp)" using ok(3) by blast
    have "\<exists>b' bs. append_entry bp u k ?e ?s = Some (?s\<lparr>started := (started ?s)[k := b'], batches := bs\<rparr>)
      \<and> entries b' = entries (started s ! k) @ [?e] \<and> pc b' = Waiting \<and> BackendURL b' = u
      \<and> map_ok bp (?s\<lparr>started := (started ?s)[k := b'], batches := bs\<rparr>)"
      by (rule append_entry_shape [OF _ _ _ _ _ _ _ _ _ small]) (use o ok(1,2) lim join(2) in \<open>auto simp: open_batch_def\<close>)
    then obtain b' bs where b': "append_entry bp u k ?e ?s = Some (?s\<lparr>started := (started s)[k := b'], batches := bs\<rparr>)"
      "entries b' = entries (started s ! k) @ [?e]" "pc b' = Waiting" "BackendURL b' = u"
      "map_ok bp (?s\<lparr>started := (started s)[k := b'], batches := bs\<rparr>)" by auto
    then show ?thesis
      using join o
      by (intro exI [of _ "?s\<lparr>started := (started s)[k := b'], batches := bs\<rparr>"] exI [of _ k] exI [of _ b'])
        (simp add: AddRequest_def Let_def open_batch_def)
  next
    case new
    let ?b = "\<lparr>BackendURL = u, dispatch_closed = False, entries = [], pc = Waiting\<rparr>"
    let ?s = "s\<lparr>added := added s @ [?e], started := started s @ [?b], batches := (u, ?n) # batches s\<rparr>"
    have nu: "u \<notin> fst ` set (batches s)" using new(2) by (simp add: map_of_eq_None_iff)
    have "\<exists>b' bs. append_entry bp u ?n ?e ?s = Some (?s\<lparr>started := (started ?s)[?n := b'], batches := bs\<rparr>)
      \<and> entries b' = entries ?b @ [?e] \<and> pc b' = Waiting \<and> BackendURL b' = u
      \<and> map_ok bp (?s\<lparr>started := (started ?s)[?n := b'], batches := bs\<rparr>)"
      by (rule append_entry_shape) (use ok nu in \<open>auto simp: nth_append less_SucI\<close>)
    then obtain b' bs where b': "append_entry bp u ?n ?e ?s = Some (?s\<lparr>started := started s @ [b'], batches := bs\<rparr>)"
      "entries b' = [?e]" "pc b' = Waiting" "BackendURL b' = u"
      "map_ok bp (?s\<lparr>started := started s @ [b'], batches := bs\<rparr>)" by auto
    then show ?thesis
      using new
      by (intro exI [of _ "?s\<lparr>started := started s @ [b'], batches := bs\<rparr>"] exI [of _ ?n] exI [of _ b'])
        (simp add: AddRequest_def Let_def)
  qed
qed

text \<open>Flushing never panics, empties the map, and closes dispatch channels only.\<close>

definition undispatched :: "Batch \<Rightarrow> Batch" where
  "undispatched b = b\<lparr>dispatch_closed := False\<rparr>"

lemma undispatched_simps [simp]:
  "entries (undispatched b) = entries b" "pc (undispatched b) = pc b"
  "BackendURL (undispatched b) = BackendURL b"
  "undispatched (b\<lparr>dispatch_closed := x\<rparr>) = undispatched b"
  by (simp_all add: undispatched_def)

lemma flush_shape:
  assumes "distinct (map snd bs)"
    and "\<forall>(u, n) \<in> set bs. n < length (started s) \<and> \<not> dispatch_closed (started s ! n)"
  shows "\<exists>ss. flush bs s = Some (s\<lparr>started := ss,
        batches := filter (\<lambda>(u, n). u \<notin> fst ` set bs) (batches s)\<rparr>)
    \<and> map undispatched ss = map undispatched (started s)"
  using assms
proof (induction bs s rule: flush.induct)
  case (1 s)
  then show ?case by (simp add: filter_True exI [of _ "started s"])
next
  case (2 u n bs s)
  let ?s0 = "s\<lparr>batches := AList.delete u (batches s)\<rparr>"
  let ?s1 = "?s0\<lparr>started := (started s)[n := (started s ! n)\<lparr>dispatch_closed := True\<rparr>]\<rparr>"
  have n: "n < length (started s)" using 2(3) by simp
  have c: "close_dispatch n ?s0 = Some ?s1" using 2(3) by (simp add: close_dispatch_def)
  have "\<forall>(v, k) \<in> set bs. k < length (started ?s1) \<and> \<not> dispatch_closed (started ?s1 ! k)"
  proof (clarify)
    fix v k
    assume vk: "(v, k) \<in> set bs"
    then have "n \<noteq> k" using 2(2) by force
    then show "k < length (started ?s1) \<and> \<not> dispatch_closed (started ?s1 ! k)"
      using 2(3) vk by auto
  qed
  from "2.IH" [OF c _ this] 2(2) obtain ss where ss: "flush bs ?s1 = Some (?s1\<lparr>started := ss,
        batches := filter (\<lambda>(u, n). u \<notin> fst ` set bs) (batches ?s1)\<rparr>)"
      "map undispatched ss = map undispatched (started ?s1)" by auto
  have "filter (\<lambda>(v, n). v \<notin> fst ` set bs) (AList.delete u (batches s))
      = filter (\<lambda>(v, n). v \<notin> fst ` set ((u, n) # bs)) (batches s)"
    by (auto simp: AList.delete_eq intro!: filter_cong)
  moreover have "map undispatched (started ?s1) = map undispatched (started s)"
    using n by (intro nth_equalityI) (auto simp: nth_list_update)
  ultimately show ?case using ss by (auto simp: c)
qed

lemma FlushAll_shape:
  assumes "map_ok bp s"
  shows "\<exists>ss. FlushAll s = Some (s\<lparr>started := ss, batches := []\<rparr>)
    \<and> map undispatched ss = map undispatched (started s) \<and> map_ok bp (s\<lparr>started := ss, batches := []\<rparr>)"
proof -
  have "\<forall>(u, n) \<in> set (batches s). n < length (started s) \<and> \<not> dispatch_closed (started s ! n)"
    using assms by (auto simp: map_ok_def open_batch_def)
  from flush_shape [OF map_ok_indices [OF assms] this] obtain ss where
    ss: "FlushAll s = Some (s\<lparr>started := ss, batches := filter (\<lambda>(u, n). u \<notin> fst ` set (batches s)) (batches s)\<rparr>)"
      "map undispatched ss = map undispatched (started s)" by (auto simp: FlushAll_def)
  have "filter (\<lambda>(u, n). u \<notin> fst ` set (batches s)) (batches s) = []"
    by (rule filter_False) force
  then have fl: "FlushAll s = Some (s\<lparr>started := ss, batches := []\<rparr>)" by (simp only: ss(1))
  have "map entries ss = map entries (started s)"
    using arg_cong [OF ss(2), of "map entries"] by (simp add: o_def)
  then have "entries ` set ss = entries ` set (started s)" by (metis list.set_map)
  moreover have "\<forall>b \<in> set (started s). length (entries b) \<le> max 1 (maxBatchSize bp)"
    using assms unfolding map_ok_def by blast
  ultimately have "\<forall>es \<in> entries ` set ss. length es \<le> max 1 (maxBatchSize bp)" by (simp only: ball_simps(9))
  then have "\<forall>b \<in> set ss. length (entries b) \<le> max 1 (maxBatchSize bp)" by (simp only: ball_simps(9))
  then have "map_ok bp (s\<lparr>started := ss, batches := []\<rparr>)" by (simp add: map_ok_def)
  then show ?thesis using fl ss(2) by blast
qed

lemma map_ok_set_pc:
  assumes "map_ok bp s" and "\<And>u. (u, n) \<notin> set (batches s)"
  shows "map_ok bp (set_pc n p s)"
proof -
  have "open_batch bp u ((started s)[n := b] ! k)" if "(u, k) \<in> set (batches s)" for u k b
    using assms that by (cases "k = n") (auto simp: map_ok_def)
  moreover have "length (entries b) \<le> max 1 (maxBatchSize bp)"
    if "b \<in> set ((started s)[n := (started s ! n)\<lparr>pc := p\<rparr>])" for b
  proof (cases "n < length (started s)")
    case True
    then have "b = (started s ! n)\<lparr>pc := p\<rparr> \<or> b \<in> set (started s)"
      using that set_update_subset_insert by fastforce
    then show ?thesis using assms(1) True by (auto simp: map_ok_def)
  next
    case False
    then show ?thesis using that assms(1) by (auto simp: map_ok_def list_update_beyond)
  qed
  ultimately show ?thesis using assms(1) by (auto simp: map_ok_def)
qed

lemma map_ok_cong:
  "batches s' = batches s \<Longrightarrow> started s' = started s \<Longrightarrow> map_ok bp s' = map_ok bp s"
  by (simp add: map_ok_def)

lemma map_ok_running:
  "map_ok bp s \<Longrightarrow> pc (started s ! n) \<noteq> Waiting \<Longrightarrow> (u, n) \<notin> set (batches s)"
  by (auto simp: map_ok_def open_batch_def)

lemma map_ok_claim:
  assumes "map_ok bp s"
  shows "map_ok bp (claim n s)"
proof (cases "map_of (batches s) (BackendURL (started s ! n)) = Some n")
  case True
  let ?t = "s\<lparr>batches := AList.delete (BackendURL (started s ! n)) (batches s)\<rparr>"
  have "map_ok bp ?t" using assms by (auto simp: map_ok_def delete_in_set distinct_delete)
  moreover have "(u, n) \<notin> set (batches ?t)" for u
    using assms by (auto simp: delete_in_set map_ok_def open_batch_def)
  ultimately have "map_ok bp (set_pc n Claimed ?t)" by (rule map_ok_set_pc)
  then show ?thesis using True by (simp add: claim_def Let_def)
next
  case False
  have "(u, n) \<notin> set (batches s)" for u
    using assms False by (auto simp: map_ok_def open_batch_def)
  then show ?thesis using assms False by (simp add: claim_def Let_def map_ok_set_pc)
qed

lemma map_ok_step:
  assumes "map_ok bp s" and "process_step bp n s s'"
  shows "map_ok bp s'"
proof (cases "pc (started s ! n) = Waiting")
  case True
  then have "s' = claim n s" using assms(2) by (auto elim: process_stepE)
  then show ?thesis using map_ok_claim [OF assms(1)] by simp
next
  case False
  note nb = map_ok_running [OF assms(1) False]
  obtain t p where "s' = set_pc n p t" and "batches t = batches s" and "started t = started s"
    using assms(2) False by (cases rule: process_step.cases) (auto intro: that)
  then show ?thesis
    using map_ok_set_pc [of bp t n p] nb map_ok_cong [of t s bp] assms(1) by simp
qed

section \<open>No entry is lost and none is answered twice\<close>

text \<open>The entries a batch still owes an answer, and those the processor does.\<close>

fun owed :: "batchEntry list \<Rightarrow> batch_pc \<Rightarrow> batchEntry list" where
  "owed es Waiting = es"
| "owed es Claimed = es"
| "owed es (Queued snap) = snap"
| "owed es (Filtering live rest) = live @ rest"
| "owed es (Sending live) = live"
| "owed es (Delivering ds) = map fst ds"
| "owed es Finished = []"

definition outstanding :: "bp_state \<Rightarrow> batchEntry multiset" where
  "outstanding s = (\<Sum>b \<leftarrow> started s. mset (owed (entries b) (pc b)))"

lemma sum_list_replace:
  fixes f :: "'a \<Rightarrow> 'b :: comm_monoid_add"
  assumes "n < length xs"
  shows "(\<Sum>x \<leftarrow> xs[n := y]. f x) + f (xs ! n) = (\<Sum>x \<leftarrow> xs. f x) + f y"
  using assms
proof (induction xs arbitrary: n)
  case Nil
  then show ?case by simp
next
  case (Cons x xs)
  then show ?case by (cases n) (simp_all add: ac_simps)
qed

lemma outstanding_set_pc:
  assumes "n < length (started s)"
  shows "outstanding (set_pc n p s) + mset (owed (entries (started s ! n)) (pc (started s ! n)))
       = outstanding s + mset (owed (entries (started s ! n)) p)"
  using sum_list_replace [OF assms, of "\<lambda>b. mset (owed (entries b) (pc b))" "(started s ! n)\<lparr>pc := p\<rparr>"]
  by (simp add: outstanding_def)

lemma outstanding_cong: "started s' = started s \<Longrightarrow> outstanding s' = outstanding s"
  by (simp add: outstanding_def)

definition accounted :: "bp_state \<Rightarrow> bool" where
  "accounted s \<longleftrightarrow> mset (added s) = outstanding s + mset (map fst (sends s)) \<and> distinct (map caller (added s))"

lemma accounted_move:
  assumes "accounted s" and "n < length (started s)"
    and "started t = started s" and "added t = added s" and "sends t = sends s @ new"
    and "mset (owed (entries (started s ! n)) (pc (started s ! n)))
       = mset (owed (entries (started s ! n)) p) + mset (map fst new)"
  shows "accounted (set_pc n p t)"
proof -
  have "outstanding (set_pc n p t) + mset (map fst new) = outstanding t"
    using outstanding_set_pc [of n t p] assms(2,3,6) by (simp add: ac_simps)
  then show ?thesis
    using assms(1,3-5) outstanding_cong [OF assms(3)] by (simp add: accounted_def ac_simps)
qed

lemma delivered_entries:
  assumes "process_entries fresh cfg send live = Some (Done ds)"
  shows "mset (map fst (map (\<lambda>(i, r). (live ! i, r)) ds)) = mset live"
    and "(e, r) \<in> set (map (\<lambda>(i, r). (live ! i, r)) ds) \<Longrightarrow> rID r = ID (req e)"
proof -
  have once: "answered_once live ds" using process_entries_once [OF assms] .
  then have "mset (map fst ds) = mset [0..<length live]"
    by (intro set_eq_iff_mset_eq_distinct [THEN iffD1]) (auto simp: answered_once_def)
  then have "mset (map ((!) live) (map fst ds)) = mset (map ((!) live) [0..<length live])"
    by (simp only: mset_map)
  moreover have "map fst (map (\<lambda>(i, r). (live ! i, r)) ds) = map ((!) live) (map fst ds)"
    by (induction ds) auto
  ultimately show "mset (map fst (map (\<lambda>(i, r). (live ! i, r)) ds)) = mset live" by (simp only: map_nth)
  show "(e, r) \<in> set (map (\<lambda>(i, r). (live ! i, r)) ds) \<Longrightarrow> rID r = ID (req e)"
    using once by (auto simp: answered_once_def)
qed

text \<open>A step of a goroutine moves owed entries to sent responses, or keeps them owed.\<close>

lemma claim_set_pc: "\<exists>t. claim n s = set_pc n Claimed t \<and> started t = started s \<and> added t = added s
    \<and> sends t = sends s \<and> workers t = workers s"
  by (simp add: claim_def Let_def) (metis (no_types, lifting) bp_state.select_convs(2,3,5,6) bp_state.surjective
      bp_state.update_convs(1))

lemma accounted_step:
  assumes "accounted s" and "n < length (started s)" and "process_step bp n s s'"
  shows "accounted s'"
  using assms(3)
proof (cases rule: process_step.cases)
  case claim
  then obtain t where "s' = set_pc n Claimed t" "started t = started s" "added t = added s" "sends t = sends s"
    using claim_set_pc [of n s] by auto
  then show ?thesis using accounted_move [OF assms(1,2), of t "[]"] claim(2) by simp
next
  case (sent live fresh send ds)
  then show ?thesis
    using accounted_move [OF assms(1,2), of "release (BackendURL (started s ! n)) s" "[]"
        "Delivering (map (\<lambda>(i, r). (live ! i, r)) ds)"] delivered_entries(1) [OF sent(3)] by simp
next
  case (drop live e rest cause1)
  then show ?thesis
    using accounted_move [OF assms(1,2), of "send_response e (internal_failure e cause1) s"
        "[(e, internal_failure e cause1)]" "Filtering live rest"] by simp
next
  case (deliver e r ds)
  then show ?thesis
    using accounted_move [OF assms(1,2), of "send_response e r s" "[(e, r)]" "Delivering ds"] by simp
qed (use accounted_move [OF assms(1,2), of _ "[]"] in \<open>auto simp: o_def\<close>)

lemma AddRequest_fields:
  assumes "map_ok bp s" and "AddRequest bp u c r s = Some s'"
  obtains n b where "added s' = added s @ [\<lparr>caller = c, req = request_copy r\<rparr>]" and "sends s' = sends s"
    and "workers s' = workers s"
    and "started s' = (if n < length (started s) then (started s)[n := b] else started s @ [b])"
    and "pc b = Waiting" and "BackendURL b = u"
    and "entries b = (if n < length (started s) then entries (started s ! n) else []) @ [\<lparr>caller = c, req = request_copy r\<rparr>]"
    and "n < length (started s) \<Longrightarrow> pc (started s ! n) = Waiting \<and> BackendURL (started s ! n) = u"
proof -
  obtain n b where s': "s' = s\<lparr>added := added s @ [\<lparr>caller = c, req = request_copy r\<rparr>],
           started := (if n < length (started s) then (started s)[n := b] else started s @ [b]),
           batches := batches s'\<rparr>"
      and b: "pc b = Waiting" "BackendURL b = u"
        "entries b = (if n < length (started s) then entries (started s ! n) else []) @ [\<lparr>caller = c, req = request_copy r\<rparr>]"
        "n < length (started s) \<longrightarrow> pc (started s ! n) = Waiting \<and> BackendURL (started s ! n) = u"
    using AddRequest_shape [OF assms(1), of u c r] assms(2) by auto
  show ?thesis by (rule that [of n b]) ((subst s', simp)+, use b in auto)
qed

lemma accounted_add:
  assumes "accounted s" and "map_ok bp s" and "AddRequest bp u c r s = Some s'"
    and "c \<notin> caller ` set (added s)"
  shows "accounted s'"
proof -
  let ?e = "\<lparr>caller = c, req = request_copy r\<rparr>"
  obtain n b where st: "added s' = added s @ [?e]" "sends s' = sends s"
      "started s' = (if n < length (started s) then (started s)[n := b] else started s @ [b])"
    and b: "pc b = Waiting" "entries b = (if n < length (started s) then entries (started s ! n) else []) @ [?e]"
      "n < length (started s) \<Longrightarrow> pc (started s ! n) = Waiting"
    using AddRequest_fields [OF assms(2,3)] by metis
  have "outstanding s' = outstanding s + {#?e#}"
  proof (cases "n < length (started s)")
    case True
    then show ?thesis
      using sum_list_replace [OF True, of "\<lambda>b. mset (owed (entries b) (pc b))" b] b
      by (simp add: outstanding_def st)
  next
    case False
    then show ?thesis using b by (simp add: outstanding_def st)
  qed
  then show ?thesis using assms(1,4) by (simp add: accounted_def st image_iff)
qed

lemma undispatched_map:
  assumes "map undispatched ss = map undispatched bs" and "\<And>b. f (undispatched b) = f b"
  shows "map f ss = map f bs"
  using arg_cong [OF assms(1), of "map f"] by (simp add: o_def assms(2))

lemma accounted_flush:
  assumes "accounted s" and "map_ok bp s" and "FlushAll s = Some s'"
  shows "accounted s'"
proof -
  obtain ss where ss: "s' = s\<lparr>started := ss, batches := []\<rparr>" "map undispatched ss = map undispatched (started s)"
    using FlushAll_shape [OF assms(2)] assms(3) by auto
  have "map (\<lambda>b. mset (owed (entries b) (pc b))) ss = map (\<lambda>b. mset (owed (entries b) (pc b))) (started s)"
    by (rule undispatched_map [OF ss(2)]) simp
  then show ?thesis using assms(1) by (simp add: accounted_def outstanding_def ss(1))
qed

section \<open>Every response carries the identifier of its caller\<close>

definition ids_ok :: "bp_state \<Rightarrow> bool" where
  "ids_ok s \<longleftrightarrow>
     (\<forall>(e, r) \<in> set (sends s). rID r = ID (req e))
     \<and> (\<forall>b \<in> set (started s). \<forall>ds. pc b = Delivering ds \<longrightarrow> (\<forall>(e, r) \<in> set ds. rID r = ID (req e)))"

lemma ids_ok_move:
  assumes "ids_ok s" and "started t = started s" and "sends t = sends s @ new"
    and "\<forall>(e, r) \<in> set new. rID r = ID (req e)"
    and "\<And>ds e r. p = Delivering ds \<Longrightarrow> (e, r) \<in> set ds \<Longrightarrow> rID r = ID (req e)"
  shows "ids_ok (set_pc n p t)"
proof -
  have "b = (started s ! n)\<lparr>pc := p\<rparr> \<or> b \<in> set (started s)"
    if "b \<in> set ((started s)[n := (started s ! n)\<lparr>pc := p\<rparr>])" for b
    using that set_update_subset_insert by fastforce
  then show ?thesis using assms by (fastforce simp: ids_ok_def)
qed

lemma ids_ok_step:
  assumes "ids_ok s" and "n < length (started s)" and "process_step bp n s s'"
  shows "ids_ok s'"
  using assms(3)
proof (cases rule: process_step.cases)
  case claim
  then obtain t where "s' = set_pc n Claimed t" "started t = started s" "added t = added s" "sends t = sends s"
    using claim_set_pc [of n s] by auto
  then show ?thesis using ids_ok_move [OF assms(1), of t "[]" Claimed] by simp
next
  case (sent live fresh send ds)
  then show ?thesis
    using ids_ok_move [OF assms(1), of "release (BackendURL (started s ! n)) s" "[]"
        "Delivering (map (\<lambda>(i, r). (live ! i, r)) ds)"] delivered_entries(2) [OF sent(3)] by simp
next
  case (drop live e rest cause1)
  then show ?thesis
    using ids_ok_move [OF assms(1), of "send_response e (internal_failure e cause1) s"
        "[(e, internal_failure e cause1)]" "Filtering live rest"] by simp
next
  case (deliver e r ds)
  then have d: "rID r' = ID (req e')" if "(e', r') \<in> set ((e, r) # ds)" for e' r'
    using assms(1,2) that nth_mem [OF assms(2)] by (fastforce simp: ids_ok_def)
  then show ?thesis
    using deliver ids_ok_move [OF assms(1), of "send_response e r s" "[(e, r)]" "Delivering ds"] by simp
next
  case (abandon es cause)
  show ?thesis unfolding abandon(1) by (rule ids_ok_move [OF assms(1), of s "[]"]) auto
next
  case (worker es)
  show ?thesis unfolding worker(1) by (rule ids_ok_move [OF assms(1), of _ "[]"]) auto
next
  case nobody
  show ?thesis unfolding nobody(1) by (rule ids_ok_move [OF assms(1), of _ "[]"]) auto
qed (use ids_ok_move [OF assms(1), of _ "[]"] in \<open>auto\<close>)

lemma ids_ok_add:
  assumes "ids_ok s" and "map_ok bp s" and "AddRequest bp u c r s = Some s'"
  shows "ids_ok s'"
proof -
  obtain n b where st: "sends s' = sends s" "pc b = Waiting"
      "started s' = (if n < length (started s) then (started s)[n := b] else started s @ [b])"
    using AddRequest_fields [OF assms(2,3)] by metis
  have "x = b \<or> x \<in> set (started s)" if "x \<in> set (started s')" for x
    using that set_update_subset_insert [of "started s" n b] by (auto simp: st split: if_splits)
  then show ?thesis using assms(1) st(1,2) by (fastforce simp: ids_ok_def)
qed

lemma ids_ok_flush:
  assumes "ids_ok s" and "map_ok bp s" and "FlushAll s = Some s'"
  shows "ids_ok s'"
proof -
  obtain ss where ss: "s' = s\<lparr>started := ss, batches := []\<rparr>" "map undispatched ss = map undispatched (started s)"
    using FlushAll_shape [OF assms(2)] assms(3) by auto
  have "map pc ss = map pc (started s)" by (rule undispatched_map [OF ss(2)]) simp
  then have "pc ` set ss = pc ` set (started s)" by (metis list.set_map)
  moreover have "\<forall>q \<in> pc ` set (started s). \<forall>ds. q = Delivering ds \<longrightarrow> (\<forall>(e, r) \<in> set ds. rID r = ID (req e))"
    using assms(1) by (auto simp: ids_ok_def)
  ultimately have "\<forall>q \<in> pc ` set ss. \<forall>ds. q = Delivering ds \<longrightarrow> (\<forall>(e, r) \<in> set ds. rID r = ID (req e))" by simp
  then show ?thesis using assms(1) by (simp add: ids_ok_def ss(1))
qed

section \<open>The worker semaphore\<close>

fun holds_worker :: "batch_pc \<Rightarrow> bool" where
  "holds_worker (Filtering live rest) = True"
| "holds_worker (Sending live) = True"
| "holds_worker _ = False"

definition holders :: "string \<Rightarrow> bp_state \<Rightarrow> nat" where
  "holders u s = (\<Sum>b \<leftarrow> started s. if BackendURL b = u \<and> holds_worker (pc b) then 1 else 0)"

lemma holders_eq_0:
  "holders u s = 0 \<longleftrightarrow> (\<forall>b \<in> set (started s). BackendURL b = u \<longrightarrow> \<not> holds_worker (pc b))"
proof -
  have "holders u s = 0 \<longleftrightarrow> (\<forall>b \<in> set (started s). (if BackendURL b = u \<and> holds_worker (pc b) then 1 else (0 :: nat)) = 0)"
    by (simp only: holders_def sum_list_eq_0_iff set_map ball_simps(9))
  then show ?thesis by simp
qed

definition workers_ok :: "BatchProcessor \<Rightarrow> bp_state \<Rightarrow> bool" where
  "workers_ok bp s \<longleftrightarrow> (\<forall>u. workers s u = holders u s \<and> workers s u \<le> maxConcurrent bp)"

lemma holders_set_pc:
  assumes "n < length (started t)"
  shows "holders u (set_pc n p t) + (if BackendURL (started t ! n) = u \<and> holds_worker (pc (started t ! n)) then 1 else 0)
       = holders u t + (if BackendURL (started t ! n) = u \<and> holds_worker p then 1 else 0)"
  using sum_list_replace [OF assms, of "\<lambda>b. if BackendURL b = u \<and> holds_worker (pc b) then 1 else (0 :: nat)"
      "(started t ! n)\<lparr>pc := p\<rparr>"]
  by (simp add: holders_def)

lemma workers_ok_cong:
  "workers s' = workers s \<Longrightarrow> (\<And>u. holders u s' = holders u s) \<Longrightarrow> workers_ok bp s \<Longrightarrow> workers_ok bp s'"
  by (metis workers_ok_def)

lemma workers_ok_move:
  assumes "workers_ok bp s" and "n < length (started s)" and "started t = started s"
    and "\<And>u. workers t u + (if BackendURL (started s ! n) = u \<and> holds_worker (pc (started s ! n)) then 1 else 0)
       = workers s u + (if BackendURL (started s ! n) = u \<and> holds_worker p then 1 else 0)"
    and "holds_worker p \<Longrightarrow> workers t (BackendURL (started s ! n)) \<le> maxConcurrent bp"
  shows "workers_ok bp (set_pc n p t)"
proof -
  have "holders u t = holders u s" for u using assms(3) by (simp add: holders_def)
  then have eq: "workers t u = holders u (set_pc n p t)" for u
    using assms(1) assms(4) [of u] holders_set_pc [of n t u p] assms(2,3) by (simp add: workers_ok_def)
  moreover have "workers t u \<le> maxConcurrent bp" for u
  proof (cases "holds_worker p \<and> BackendURL (started s ! n) = u")
    case False
    then have "workers t u \<le> workers s u" using assms(4) [of u] by (auto split: if_splits)
    moreover have "workers s u \<le> maxConcurrent bp" using assms(1) unfolding workers_ok_def by blast
    ultimately show ?thesis by (rule le_trans)
  qed (use assms(5) in auto)
  ultimately show ?thesis by (simp add: workers_ok_def)
qed

lemma workers_ok_step:
  assumes "workers_ok bp s" and "n < length (started s)" and "process_step bp n s s'"
  shows "workers_ok bp s'"
proof -
  let ?u = "BackendURL (started s ! n)"
  have cap: "workers s u \<le> maxConcurrent bp" for u using assms(1) unfolding workers_ok_def by blast
  have held: "0 < workers s ?u" if "holds_worker (pc (started s ! n))"
  proof -
    have "holders ?u s \<noteq> 0" using that nth_mem [OF assms(2)] by (auto simp: holders_eq_0)
    then show ?thesis using assms(1) by (simp add: workers_ok_def)
  qed
  show ?thesis
    using assms(3)
  proof (cases rule: process_step.cases)
    case claim
    then obtain t where "s' = set_pc n Claimed t" "started t = started s" "workers t = workers s"
      using claim_set_pc [of n s] by auto
    then show ?thesis using workers_ok_move [OF assms(1,2), of t Claimed] claim by simp
  next
    case (worker es)
    show ?thesis unfolding worker(1)
      by (rule workers_ok_move [OF assms(1,2)]) (use worker cap in \<open>auto simp: acquire_def\<close>)
  next
    case nobody
    show ?thesis unfolding nobody(1)
      by (rule workers_ok_move [OF assms(1,2)]) (use nobody held in \<open>auto simp: release_def\<close>)
  next
    case (sent live fresh send ds)
    show ?thesis unfolding sent(1)
      by (rule workers_ok_move [OF assms(1,2)]) (use sent held in \<open>auto simp: release_def\<close>)
  qed (auto intro!: workers_ok_move [OF assms(1,2)] intro: cap)
qed

lemma workers_ok_add:
  assumes "workers_ok bp s" and "map_ok bp s" and "AddRequest bp u c r s = Some s'"
  shows "workers_ok bp s'"
proof -
  obtain n b where st: "workers s' = workers s" "pc b = Waiting"
      "started s' = (if n < length (started s) then (started s)[n := b] else started s @ [b])"
      "n < length (started s) \<Longrightarrow> pc (started s ! n) = Waiting"
    using AddRequest_fields [OF assms(2,3)] by metis
  have "holders v s' = holders v s" for v
  proof (cases "n < length (started s)")
    case True
    then show ?thesis
      using sum_list_replace [OF True, of "\<lambda>b. if BackendURL b = v \<and> holds_worker (pc b) then 1 else (0 :: nat)" b] st
      by (simp add: holders_def)
  next
    case False
    then show ?thesis using st by (simp add: holders_def)
  qed
  then show ?thesis using workers_ok_cong st(1) assms(1) by blast
qed

lemma workers_ok_flush:
  assumes "workers_ok bp s" and "map_ok bp s" and "FlushAll s = Some s'"
  shows "workers_ok bp s'"
proof -
  obtain ss where ss: "s' = s\<lparr>started := ss, batches := []\<rparr>" "map undispatched ss = map undispatched (started s)"
    using FlushAll_shape [OF assms(2)] assms(3) by auto
  have "map (\<lambda>b. if BackendURL b = u \<and> holds_worker (pc b) then 1 else (0 :: nat)) ss
      = map (\<lambda>b. if BackendURL b = u \<and> holds_worker (pc b) then 1 else 0) (started s)" for u
    by (rule undispatched_map [OF ss(2)]) simp
  then have "holders u s' = holders u s" for u by (simp add: holders_def ss(1))
  moreover have "workers s' = workers s" by (simp add: ss(1))
  ultimately show ?thesis using workers_ok_cong assms(1) by blast
qed

section \<open>The invariant of the machine\<close>

definition batch_inv :: "BatchProcessor \<Rightarrow> bp_state \<Rightarrow> bool" where
  "batch_inv bp s \<longleftrightarrow> map_ok bp s \<and> accounted s \<and> ids_ok s \<and> workers_ok bp s"

lemma batch_inv_init: "batch_inv bp bp_init"
  by (simp add: batch_inv_def bp_init_def map_ok_def accounted_def outstanding_def ids_ok_def workers_ok_def
      holders_def)

lemma batch_inv_ended: "batch_inv bp (s\<lparr>ended := X\<rparr>) = batch_inv bp s"
proof -
  have "map_ok bp (s\<lparr>ended := X\<rparr>) = map_ok bp s" by (simp add: map_ok_def)
  moreover have "accounted (s\<lparr>ended := X\<rparr>) = accounted s" by (simp add: accounted_def outstanding_def)
  moreover have "ids_ok (s\<lparr>ended := X\<rparr>) = ids_ok s" by (simp add: ids_ok_def)
  moreover have "workers_ok bp (s\<lparr>ended := X\<rparr>) = workers_ok bp s" by (simp add: workers_ok_def holders_def)
  ultimately show ?thesis by (simp add: batch_inv_def)
qed

lemma batch_inv_step:
  assumes "batch_inv bp s" and "batch_step bp s s'"
  shows "batch_inv bp s'"
  using assms(2)
proof (cases rule: batch_step.cases)
  case (add c u r)
  obtain t where "AddRequest bp u c r s = Some t" "map_ok bp t"
    using AddRequest_shape [of bp s u c r] assms(1) by (auto simp: batch_inv_def)
  then show ?thesis
    using add assms(1) accounted_add ids_ok_add workers_ok_add unfolding batch_inv_def by auto
next
  case (leave c)
  then show ?thesis using assms(1) by (simp add: batch_inv_ended)
next
  case flush
  obtain ss where "FlushAll s = Some (s\<lparr>started := ss, batches := []\<rparr>)" "map_ok bp (s\<lparr>started := ss, batches := []\<rparr>)"
    using FlushAll_shape [of bp s] assms(1) by (auto simp: batch_inv_def)
  then show ?thesis
    using flush assms(1) accounted_flush ids_ok_flush workers_ok_flush unfolding batch_inv_def by auto
next
  case (run n)
  then show ?thesis
    using assms(1) map_ok_step accounted_step ids_ok_step workers_ok_step unfolding batch_inv_def by blast
qed

section \<open>Progress\<close>

definition batch_internal :: "BatchProcessor \<Rightarrow> bp_state \<Rightarrow> bp_state \<Rightarrow> bool" where
  "batch_internal bp s s' \<longleftrightarrow> (\<exists>n < length (started s). process_step bp n s s')"

fun steps_left :: "batchEntry list \<Rightarrow> batch_pc \<Rightarrow> nat" where
  "steps_left es Waiting = 2 * length es + 6"
| "steps_left es Claimed = 2 * length es + 5"
| "steps_left es (Queued snap) = 2 * length snap + 4"
| "steps_left es (Filtering live rest) = length live + 2 * length rest + 3"
| "steps_left es (Sending live) = length live + 2"
| "steps_left es (Delivering ds) = length ds + 1"
| "steps_left es Finished = 0"

definition batch_left :: "bp_state \<Rightarrow> nat" where
  "batch_left s = (\<Sum>b \<leftarrow> started s. steps_left (entries b) (pc b))"

definition all_finished :: "bp_state \<Rightarrow> bool" where
  "all_finished s \<longleftrightarrow> (\<forall>b \<in> set (started s). pc b = Finished)"

text \<open>What the configuration must allow: a worker, and an aggregation that returns.\<close>

definition can_work :: "BatchProcessor \<Rightarrow> bool" where
  "can_work bp \<longleftrightarrow> 0 < maxConcurrent bp \<and> (McEnabled (multicall bp) \<longrightarrow> 0 < MaxCalls (multicall bp))"

lemma batch_left_set_pc:
  assumes "n < length (started s)" and "started t = started s"
    and "steps_left (entries (started s ! n)) p < steps_left (entries (started s ! n)) (pc (started s ! n))"
  shows "batch_left (set_pc n p t) < batch_left s"
  using sum_list_replace [OF assms(1), of "\<lambda>b. steps_left (entries b) (pc b)" "(started s ! n)\<lparr>pc := p\<rparr>"] assms(2,3)
  by (simp add: batch_left_def)

lemma batch_closer:
  assumes "batch_internal bp s s'"
  shows "batch_left s' < batch_left s"
proof -
  obtain n where n: "n < length (started s)" "process_step bp n s s'" using assms by (auto simp: batch_internal_def)
  from n(2) show ?thesis
  proof (cases rule: process_step.cases)
    case claim
    then obtain t where "s' = set_pc n Claimed t" "started t = started s" using claim_set_pc [of n s] by auto
    then show ?thesis using batch_left_set_pc [OF n(1)] claim by simp
  next
    case (sent live fresh send ds)
    have "length ds = length live"
      using arg_cong [OF delivered_entries(1) [OF sent(3)], of size] by simp
    then show ?thesis unfolding sent(1) using sent(2) by (intro batch_left_set_pc [OF n(1)]) simp_all
  qed (auto intro!: batch_left_set_pc [OF n(1)])
qed

lemma member_of_sum:
  fixes f :: "'a \<Rightarrow> 'b multiset"
  shows "x \<in> set xs \<Longrightarrow> e \<in># f x \<Longrightarrow> e \<in># (\<Sum>x \<leftarrow> xs. f x)"
  by (induction xs) auto

lemma owed_can_send:
  assumes "accounted s" and "n < length (started s)" and "e \<in> set (owed (entries (started s ! n)) (pc (started s ! n)))"
  shows "can_send e s"
proof -
  have e: "e \<in># outstanding s"
    unfolding outstanding_def by (rule member_of_sum [OF nth_mem [OF assms(2)]]) (use assms(3) in simp)
  have d: "distinct (map caller (added s))" and a: "mset (added s) = outstanding s + mset (map fst (sends s))"
    using assms(1) by (auto simp: accounted_def)
  have "image_mset caller (outstanding s) + image_mset caller (mset (map fst (sends s))) = mset (map caller (added s))"
    by (simp only: mset_map a image_mset_union)
  then have "count (image_mset caller (outstanding s)) (caller e)
      + count (image_mset caller (mset (map fst (sends s)))) (caller e) \<le> 1"
    using d by (metis count_union distinct_count_atmost_1 le_refl zero_le)
  moreover have "1 \<le> count (image_mset caller (outstanding s)) (caller e)"
    using e by (simp add: Suc_le_eq)
  ultimately have "count (image_mset caller (mset (map fst (sends s)))) (caller e) = 0" by linarith
  then have "caller e \<notin> set_mset (image_mset caller (mset (map fst (sends s))))" by (simp only: count_eq_zero_iff not_False_eq_True)
  then show ?thesis by (simp add: can_send_def image_image)
qed

lemma running_moves:
  assumes "batch_inv bp s" and "can_work bp" and "n < length (started s)"
    and "pc (started s ! n) \<noteq> Finished" and "\<And>es. pc (started s ! n) \<noteq> Queued es"
  shows "\<exists>s'. process_step bp n s s'"
proof (cases "pc (started s ! n)")
  case Waiting
  then show ?thesis by (blast intro: process_step.claim)
next
  case Claimed
  then show ?thesis by (blast intro: process_step.snapshot)
next
  case (Filtering live rest)
  show ?thesis
  proof (cases rest)
    case Nil
    then show ?thesis
      using Filtering process_step.nobody [of s n bp] process_step.filtered [of s n live bp] by (cases "live = []") auto
  next
    case (Cons e es)
    then have "can_send e s"
      using owed_can_send [OF _ assms(3)] assms(1) Filtering by (simp add: batch_inv_def)
    then show ?thesis
      using Filtering Cons process_step.keep [of s n live e es bp] process_step.drop [of s n live e es bp]
      by (cases "caller e \<in> ended s") blast+
  qed
next
  case (Sending live)
  have "\<exists>rm. (if McEnabled (multicall bp) then aggregateEthCalls (\<lambda>_. 0) (wire_requests live) (multicall bp)
      else Some (wire_requests live, None)) = Some rm"
    using assms(2) aggregate_returns [of "multicall bp" "\<lambda>_. 0" "wire_requests live"] by (auto simp: can_work_def)
  then obtain rm where "(if McEnabled (multicall bp) then aggregateEthCalls (\<lambda>_. 0) (wire_requests live) (multicall bp)
      else Some (wire_requests live, None)) = Some rm" by blast
  then have "\<exists>ds. process_entries (\<lambda>_. 0) (multicall bp) (\<lambda>_. Fail []) live = Some (Done ds)"
    unfolding process_entries_def by (cases rm) simp
  then show ?thesis using Sending process_step.sent by blast
next
  case (Delivering ds)
  show ?thesis
  proof (cases ds)
    case Nil
    then show ?thesis using Delivering by (blast intro: process_step.finish)
  next
    case (Cons er ds')
    then have "can_send (fst er) s"
      using owed_can_send [OF _ assms(3)] assms(1) Delivering by (simp add: batch_inv_def)
    then show ?thesis
      using Delivering Cons process_step.deliver [of s n "fst er" "snd er" ds' bp] by auto
  qed
qed (use assms(4,5) in auto)

lemma batch_live:
  assumes "batch_inv bp s" and "can_work bp" and "\<not> all_finished s"
  shows "\<exists>s'. batch_internal bp s s'"
proof -
  obtain n where n: "n < length (started s)" "pc (started s ! n) \<noteq> Finished"
    using assms(3) by (auto simp: all_finished_def in_set_conv_nth)
  show ?thesis
  proof (cases "\<exists>es. pc (started s ! n) = Queued es")
    case False
    then show ?thesis using running_moves [OF assms(1,2) n] n(1) by (auto simp: batch_internal_def)
  next
    case True
    then obtain es where es: "pc (started s ! n) = Queued es" by blast
    let ?u = "BackendURL (started s ! n)"
    show ?thesis
    proof (cases "workers s ?u < maxConcurrent bp")
      case True
      then show ?thesis using process_step.worker [OF es] n(1) by (auto simp: batch_internal_def)
    next
      case False
      then have "holders ?u s \<noteq> 0"
        using assms(1,2) by (auto simp: batch_inv_def workers_ok_def can_work_def)
      then obtain m where m: "m < length (started s)" "holds_worker (pc (started s ! m))"
        by (auto simp: holders_eq_0 in_set_conv_nth)
      then have "\<exists>s'. process_step bp m s s'"
        by (intro running_moves [OF assms(1,2)]) (auto simp del: not_None_eq)
      then show ?thesis using m(1) by (auto simp: batch_internal_def)
    qed
  qed
qed

interpretation batch_machine: progress_machine bp_init "batch_step bp" "batch_inv bp" "batch_internal bp" batch_left
  "\<lambda>s. can_work bp \<longrightarrow> all_finished s" for bp
proof
  show "batch_inv bp bp_init" by (rule batch_inv_init)
  show "batch_inv bp s \<Longrightarrow> batch_step bp s s' \<Longrightarrow> batch_inv bp s'" for s s' by (rule batch_inv_step)
  show "batch_internal bp s s' \<Longrightarrow> batch_step bp s s'" for s s'
    by (auto simp: batch_internal_def intro: batch_step.run)
  show "batch_internal bp s s' \<Longrightarrow> batch_left s' < batch_left s" for s s' by (rule batch_closer)
  show "batch_inv bp s \<Longrightarrow> \<not> (can_work bp \<longrightarrow> all_finished s) \<Longrightarrow> \<exists>s'. batch_internal bp s s'" for s
    using batch_live by blast
qed

section \<open>The properties of the machine\<close>

text \<open>
  C8. Whatever the interleaving of callers, timers, flushes and workers, no caller gets more than one
  response, every response goes to the caller that asked and carries its identifier, and once all
  goroutines have returned every request that was added has been answered exactly once.
\<close>

theorem batch_answers_once:
  assumes "(batch_step bp)\<^sup>*\<^sup>* bp_init s"
  shows "distinct (map (caller \<circ> fst) (sends s))
    \<and> (\<forall>(e, r) \<in> set (sends s). e \<in> set (added s) \<and> rID r = ID (req e))
    \<and> (all_finished s \<longrightarrow> mset (map fst (sends s)) = mset (added s))"
proof -
  have inv: "accounted s" "ids_ok s" using batch_machine.reachable [OF assms] by (simp_all add: batch_inv_def)
  have a: "mset (added s) = outstanding s + mset (map fst (sends s))" and d: "distinct (map caller (added s))"
    using inv(1) by (simp_all add: accounted_def)
  obtain xs where "mset xs = image_mset caller (outstanding s)" using ex_mset by blast
  then have "mset (map caller (added s)) = mset (xs @ map caller (map fst (sends s)))"
    by (simp only: mset_map a image_mset_union mset_append)
  then have "distinct (xs @ map caller (map fst (sends s)))" using d mset_eq_imp_distinct_iff by blast
  then have "distinct (map caller (map fst (sends s)))" by simp
  moreover have "set (map fst (sends s)) \<subseteq> set (added s)"
    using arg_cong [OF a, of set_mset] by auto
  moreover have "outstanding s = {#}" if "all_finished s"
    using that by (auto simp: outstanding_def all_finished_def intro!: sum_list_0 cong: map_cong)
  ultimately show ?thesis using inv(2) a by (auto simp: ids_ok_def)
qed

text \<open>
  C10. In every state the processor can come to, adding a request and flushing do not panic (no dispatch
  channel is closed twice), no backend has more batches in flight than it has workers, no batch
  is larger than the limit, and a batch that can still be joined has not been claimed by its
  goroutine and has room.
\<close>

theorem batch_bounds:
  assumes "(batch_step bp)\<^sup>*\<^sup>* bp_init s"
  shows "AddRequest bp u c r s \<noteq> None \<and> FlushAll s \<noteq> None
    \<and> holders u s \<le> maxConcurrent bp
    \<and> (\<forall>b \<in> set (started s). length (entries b) \<le> max 1 (maxBatchSize bp))
    \<and> (\<forall>(v, n) \<in> set (batches s). n < length (started s) \<and> open_batch bp v (started s ! n))"
proof -
  have inv: "map_ok bp s" "workers_ok bp s" using batch_machine.reachable [OF assms] by (simp_all add: batch_inv_def)
  have "AddRequest bp u c r s \<noteq> None" using AddRequest_shape [OF inv(1), of u c r] by auto
  moreover have "FlushAll s \<noteq> None" using FlushAll_shape [OF inv(1)] by auto
  moreover have "holders u s \<le> maxConcurrent bp" using inv(2) unfolding workers_ok_def by metis
  ultimately show ?thesis using inv(1) unfolding map_ok_def by blast
qed

lemma internal_added: "batch_internal bp s s' \<Longrightarrow> added s' = added s"
  unfolding batch_internal_def
  by (elim exE conjE process_stepE) (auto simp: claim_def Let_def)

lemma internal_reaches: "(batch_internal bp)\<^sup>*\<^sup>* s s' \<Longrightarrow> (batch_step bp)\<^sup>*\<^sup>* s s' \<and> added s' = added s"
proof (induction rule: rtranclp_induct)
  case base
  then show ?case by simp
next
  case (step y z)
  have "batch_step bp y z" using step.hyps(2) by (auto simp: batch_internal_def intro: batch_step.run)
  then show ?case using step.IH internal_added [OF step.hyps(2)] by auto
qed

lemma drained:
  assumes inv: "batch_inv bp s" and "can_work bp"
  shows "\<exists>s'. (batch_internal bp)\<^sup>*\<^sup>* s s' \<and> mset (map fst (sends s')) = mset (added s)
    \<and> (\<forall>n t. (batch_internal bp ^^ n) s t \<longrightarrow> n \<le> batch_left s)"
proof -
  obtain s' where s': "(batch_internal bp)\<^sup>*\<^sup>* s s'" "all_finished s'"
    using batch_machine.leads_to_goal [OF inv] assms(2) by blast
  have "batch_inv bp s'" using batch_machine.inv_steps inv internal_reaches [OF s'(1)] by blast
  moreover have "outstanding s' = {#}"
    using s'(2) by (auto simp: outstanding_def all_finished_def intro!: sum_list_0 cong: map_cong)
  ultimately have "mset (map fst (sends s')) = mset (added s)"
    using internal_reaches [OF s'(1)] by (simp add: batch_inv_def accounted_def)
  then show ?thesis using s'(1) batch_machine.internal_ends [OF inv] by blast
qed

text \<open>
  C9. The processor never gets stuck: with at least one worker per backend (and a chunk size of at least
  1 where aggregation is on), from every state it can come to, the goroutines alone can run until
  every request added so far is answered, and they cannot run forever: the number of their steps is
  bounded.
\<close>

theorem batch_drains:
  assumes "(batch_step bp)\<^sup>*\<^sup>* bp_init s" and "can_work bp"
  shows "\<exists>s'. (batch_internal bp)\<^sup>*\<^sup>* s s' \<and> mset (map fst (sends s')) = mset (added s)
    \<and> (\<forall>n t. (batch_internal bp ^^ n) s t \<longrightarrow> n \<le> batch_left s)"
  by (rule drained [OF batch_machine.reachable [OF assms(1)] assms(2)])

subsection \<open>A run\<close>

definition sample_bp :: BatchProcessor where
  "sample_bp = \<lparr>maxBatchSize = 2, maxWaitTime = 50000000, maxConcurrent = 1, maxRetries = 2, multicall = sample_cfg\<rparr>"

definition one_request :: bp_state where
  "one_request =
     \<lparr>batches = [(''u'', 0)], workers = (\<lambda>_. 0),
      started = [\<lparr>BackendURL = ''u'', dispatch_closed = False,
                   entries = [\<lparr>caller = 5, req = request_copy head_request\<rparr>], pc = Waiting\<rparr>],
      ended = {}, added = [\<lparr>caller = 5, req = request_copy head_request\<rparr>], sends = []\<rparr>"

lemma one_request_reachable: "(batch_step sample_bp)\<^sup>*\<^sup>* bp_init one_request"
proof -
  have "AddRequest sample_bp ''u'' 5 head_request bp_init = Some one_request"
    by (simp add: AddRequest_def append_entry_def bp_init_def one_request_def sample_bp_def Let_def rangeScans_def
        head_request_def)
  then have "batch_step sample_bp bp_init one_request" by (intro batch_step.add) (simp_all add: bp_init_def)
  then show ?thesis by blast
qed

theorem batch_drains_witness:
  "\<exists>s'. (batch_internal sample_bp)\<^sup>*\<^sup>* one_request s'
      \<and> mset (map fst (sends s')) = {#\<lparr>caller = 5, req = request_copy head_request\<rparr>#}"
proof -
  have "can_work sample_bp" by (simp add: can_work_def sample_bp_def sample_cfg_def)
  from batch_drains [OF one_request_reachable this] show ?thesis by (auto simp: one_request_def)
qed

theorem batch_bounds_witness:
  "AddRequest sample_bp ''u'' 6 head_request one_request \<noteq> None \<and> holders ''u'' one_request \<le> 1"
  using batch_bounds [OF one_request_reachable, of "''u''" 6 head_request] by (simp add: sample_bp_def)

theorem batch_answers_once_witness:
  "\<exists>s'. (batch_step sample_bp)\<^sup>*\<^sup>* bp_init s' \<and> all_finished s'
      \<and> mset (map fst (sends s')) = {#\<lparr>caller = 5, req = request_copy head_request\<rparr>#}"
proof -
  have "can_work sample_bp" by (simp add: can_work_def sample_bp_def sample_cfg_def)
  then obtain s' where s': "(batch_internal sample_bp)\<^sup>*\<^sup>* one_request s'" "all_finished s'"
    using batch_machine.leads_to_goal [OF batch_machine.reachable [OF one_request_reachable]] by blast
  then have r: "(batch_step sample_bp)\<^sup>*\<^sup>* bp_init s'" and "added s' = added one_request"
    using internal_reaches [OF s'(1)] one_request_reachable by auto
  then show ?thesis using batch_answers_once [OF r] s'(2) by (auto simp: one_request_def)
qed

end
