(* ===== verification/Cache_Keys.thy ===== *)
theory Cache_Keys
  imports Rpc_Types "HOL-Library.List_Lexorder" "HOL-Library.Char_ord"
begin

text \<open>
  The keys of the cache, \<open>internal/backend/cache.go\<close>: SHA-256 digests (the parameter \<open>H\<close>, a function
  on bytes) of what identifies a request, under a prefix per kind of entry. The canonical form of
  parameters is what \<open>json.Marshal\<close> makes of the untyped value; the text of a number after its
  trip through \<open>float64\<close> is the parameter \<open>fnum\<close>.
\<close>

section \<open>Texts\<close>

fun join :: "string \<Rightarrow> string list \<Rightarrow> string" where
  "join sep [] = []"
| "join sep [s] = s"
| "join sep (s # ss) = s @ sep @ join sep ss"

text \<open>The compact text of a value.\<close>

fun print_json :: "json \<Rightarrow> string" where
  "print_json JNull = ''null''"
| "print_json (JBool b) = (if b then ''true'' else ''false'')"
| "print_json (JNum l) = l"
| "print_json (JStr l) = [CHR 0x22] @ l @ [CHR 0x22]"
| "print_json (JArr vs) = ''['' @ join '','' (map print_json vs) @ '']''"
| "print_json (JObj ms) =
     ''{'' @ join '','' (map (\<lambda>(k, v). [CHR 0x22] @ k @ [CHR 0x22, CHR '':''] @ print_json v) ms) @ ''}''"

definition string_bytes :: "string \<Rightarrow> bytes" where
  "string_bytes s = map (\<lambda>c. of_nat (code c)) s"

lemma string_bytes_inj: "string_bytes s = string_bytes t \<longleftrightarrow> s = t"
proof -
  have "inj (\<lambda>c. of_nat (code c) :: u8)"
  proof (rule injI)
    fix c d
    assume "(of_nat (code c) :: u8) = of_nat (code d)"
    then have "unat (of_nat (code c) :: u8) = unat (of_nat (code d) :: u8)" by simp
    then have "code c = code d" by (simp add: unat_of_nat take_bit_nat_eq_self code_less_256)
    then show "c = d" by (simp add: code_def)
  qed
  then show ?thesis by (simp add: string_bytes_def inj_map_eq_map)
qed

section \<open>Go maps of JSON members\<close>

text \<open>
  A Go map keyed by strings, filled in the order of an object: a later member replaces an earlier one.
  \<open>json.Marshal\<close> writes it in the order of the keys.
\<close>

definition put_member :: "string \<Rightarrow> 'v \<Rightarrow> (string \<times> 'v) list \<Rightarrow> (string \<times> 'v) list" where
  "put_member k v ms = filter (\<lambda>(k', v'). k' \<noteq> k) ms @ [(k, v)]"

definition sorted_members :: "(string \<times> json) list \<Rightarrow> json" where
  "sorted_members ms = JObj (map (\<lambda>(k, v). (quote k, v)) (sort_key fst ms))"

definition key_text :: "string \<Rightarrow> string" where
  "key_text k = (case unquote k of None \<Rightarrow> [] | Some s \<Rightarrow> s)"

definition go_map :: "('v \<Rightarrow> 'w) \<Rightarrow> (string \<times> 'v) list \<Rightarrow> (string \<times> 'w) list" where
  "go_map f ms = foldl (\<lambda>acc (k, v). put_member (key_text k) (f v) acc) [] ms"

lemma go_map_cong [fundef_cong]:
  "ms = ms' \<Longrightarrow> (\<And>k v. (k, v) \<in> set ms' \<Longrightarrow> f v = g v) \<Longrightarrow> go_map f ms = go_map g ms'"
proof -
  assume a: "ms = ms'" and f: "\<And>k v. (k, v) \<in> set ms' \<Longrightarrow> f v = g v"
  have "foldl (\<lambda>acc (k, v). put_member (key_text k) (f v) acc) z ms'
      = foldl (\<lambda>acc (k, v). put_member (key_text k) (g v) acc) z ms'" for z
    using f by (intro foldl_cong) auto
  then show ?thesis by (simp add: go_map_def a)
qed

text \<open>Unmarshalling into \<open>any\<close> and marshalling again.\<close>

fun canonical :: "(string \<Rightarrow> string) \<Rightarrow> json \<Rightarrow> json" where
  "canonical fnum (JNum l) = JNum (fnum l)"
| "canonical fnum (JStr l) = jstring (key_text l)"
| "canonical fnum (JArr vs) = JArr (map (canonical fnum) vs)"
| "canonical fnum (JObj ms) = sorted_members (go_map (canonical fnum) ms)"
| "canonical fnum j = j"

section \<open>Keys\<close>

definition request_preimage :: "string \<Rightarrow> string \<Rightarrow> bytes \<Rightarrow> bytes" where
  "request_preimage chainID mth params =
     string_bytes chainID @ [0] @ string_bytes mth @ [0] @ params"

text \<open>None is the error of \<open>CanonicalKey\<close>; its callers go on with the empty key.\<close>

definition CanonicalKey ::
  "(bytes \<Rightarrow> bytes) \<Rightarrow> (string \<Rightarrow> string) \<Rightarrow> string \<Rightarrow> string \<Rightarrow> raw \<Rightarrow> string option" where
  "CanonicalKey H fnum chainID mth params =
     (case params of
        None \<Rightarrow> Some (''v3:'' @ hex_encode (H (request_preimage chainID mth [])))
      | Some p \<Rightarrow>
        (if any_ok p
         then Some (''v3:'' @ hex_encode (H (request_preimage chainID mth
                (string_bytes (print_json (canonical fnum p))))))
         else None))"

definition lookup_key ::
  "(bytes \<Rightarrow> bytes) \<Rightarrow> (string \<Rightarrow> string) \<Rightarrow> string \<Rightarrow> string \<Rightarrow> raw \<Rightarrow> string" where
  "lookup_key H fnum chainID mth params =
     (case CanonicalKey H fnum chainID mth params of None \<Rightarrow> [] | Some k \<Rightarrow> k)"

definition sub_preimage :: "string \<Rightarrow> bytes \<Rightarrow> bytes \<Rightarrow> bytes" where
  "sub_preimage chain target callData = string_bytes chain @ [0] @ target @ [0] @ callData"

definition subCallKey :: "(bytes \<Rightarrow> bytes) \<Rightarrow> string \<Rightarrow> bytes \<Rightarrow> bytes \<Rightarrow> string" where
  "subCallKey H chain target callData = ''sub:v2:'' @ hex_encode (H (sub_preimage chain target callData))"

definition subCallNegKey :: "(bytes \<Rightarrow> bytes) \<Rightarrow> string \<Rightarrow> bytes \<Rightarrow> bytes \<Rightarrow> string" where
  "subCallNegKey H chain target callData =
     ''sub:neg:v2:'' @ hex_encode (H (sub_preimage chain target callData))"

section \<open>Separation\<close>

text \<open>A chain name, as a path segment, has no zero byte.\<close>

definition no_nul :: "string \<Rightarrow> bool" where
  "no_nul s \<longleftrightarrow> list_all (\<lambda>c. code c \<noteq> 0) s"

lemma no_nul_bytes: "no_nul s \<Longrightarrow> 0 \<notin> set (string_bytes s)"
proof
  assume "no_nul s" and "0 \<in> set (string_bytes s)"
  then obtain c where c: "c \<in> set s" "(of_nat (code c) :: u8) = 0" by (auto simp: string_bytes_def)
  then have "unat (of_nat (code c) :: u8) = 0" by simp
  then have "code c = 0" by (simp add: unat_of_nat take_bit_nat_eq_self code_less_256)
  then show False using c(1) \<open>no_nul s\<close> by (auto simp: no_nul_def list_all_iff)
qed

lemma split_at_nul:
  assumes "xs @ [0] @ r = ys @ [0] @ t" and "(0 :: u8) \<notin> set xs" and "0 \<notin> set ys"
  shows "xs = ys \<and> r = t"
proof -
  have tw: "takeWhile (\<lambda>x. x \<noteq> 0) (zs @ [0] @ q) = zs" if "(0 :: u8) \<notin> set zs" for zs q
    using that by (induction zs) auto
  have "xs = ys" using tw [OF assms(2), of r] tw [OF assms(3), of t] assms(1) by metis
  then show ?thesis using assms(1) by simp
qed

text \<open>
  Entries of different kinds never meet: the key of a request, of a sub-call result and of a
  negative sub-call result differ whatever they are made from, and so do all from the empty key.
\<close>

theorem keys_disjoint:
  "distinct [subCallKey H c1 t1 d1, subCallNegKey H c2 t2 d2,
     ''v3:'' @ hex_encode (H (request_preimage c3 m3 p3)), []]"
  by (simp add: subCallKey_def subCallNegKey_def)

lemma subCallKey_neq_Neg: "subCallKey H c1 t1 d1 \<noteq> subCallNegKey H c2 t2 d2"
  by (simp add: subCallKey_def subCallNegKey_def)

lemma lookup_key_neq_sub:
  "lookup_key H fnum c m p \<noteq> subCallKey H c1 t1 d1" "lookup_key H fnum c m p \<noteq> subCallNegKey H c1 t1 d1"
  by (auto simp: lookup_key_def CanonicalKey_def subCallKey_def subCallNegKey_def split: option.split)

lemma sub_preimage_inj:
  assumes "sub_preimage c t d = sub_preimage c' t' d'" and "no_nul c" and "no_nul c'"
    and "length t = length t'"
  shows "c = c' \<and> t = t' \<and> d = d'"
proof -
  have "string_bytes c = string_bytes c' \<and> t @ [0] @ d = t' @ [0] @ d'"
    by (rule split_at_nul [OF assms(1) [unfolded sub_preimage_def]
          no_nul_bytes [OF assms(2)] no_nul_bytes [OF assms(3)]])
  then have "string_bytes c = string_bytes c'" and "t = t' \<and> [0] @ d = [0] @ d'"
    using append_eq_append_conv [of t t' "[0] @ d" "[0] @ d'"] assms(4) by blast+
  then show ?thesis using string_bytes_inj by fastforce
qed

text \<open>No two of the inputs collide under the digest.\<close>

definition collision_free :: "(bytes \<Rightarrow> bytes) \<Rightarrow> bytes set \<Rightarrow> bool" where
  "collision_free H ps \<longleftrightarrow> inj_on H ps"

text \<open>
  C36. Two sub-calls share a cache entry only if they are the same call: the same chain, contract
  and calldata.
\<close>

theorem sub_keys_separate:
  assumes "subCallKey H c t d = subCallKey H c' t' d'"
    and "collision_free H {sub_preimage c t d, sub_preimage c' t' d'}"
    and "no_nul c" and "no_nul c'" and "length t = 20" and "length t' = 20"
  shows "c = c' \<and> t = t' \<and> d = d'"
proof -
  have "H (sub_preimage c t d) = H (sub_preimage c' t' d')"
    using assms(1) by (simp add: subCallKey_def hex_encode_inj)
  then have "sub_preimage c t d = sub_preimage c' t' d'"
    by (rule inj_onD [OF assms(2) [unfolded collision_free_def]]) simp_all
  moreover have "length t = length t'" by (simp only: assms(5,6))
  ultimately show ?thesis by (intro sub_preimage_inj assms(3,4))
qed

theorem sub_keys_separate_witness:
  "subCallKey (\<lambda>b. b) ''1'' (replicate 20 7) [1] \<noteq> subCallKey (\<lambda>b. b) ''10'' (replicate 20 7) [1]"
proof
  assume "subCallKey (\<lambda>b. b) ''1'' (replicate 20 7) [1] = subCallKey (\<lambda>b. b) ''10'' (replicate 20 7) [1]"
  from sub_keys_separate [OF this] show False
    by (simp add: collision_free_def no_nul_def code_def)
qed

text \<open>
  Parameters with a number outside the range of \<open>float64\<close> have no canonical form, and the key
  then used is empty: all such requests, of every chain and method, share one entry.
\<close>

theorem overflow_shares_key:
  assumes "\<not> any_ok p" and "\<not> any_ok p'"
  shows "lookup_key H fnum c m (Some p) = lookup_key H fnum c' m' (Some p')"
  using assms by (simp add: lookup_key_def CanonicalKey_def)

definition overflow_filter :: "string \<Rightarrow> json" where
  "overflow_filter addr = JArr [JObj [(''address'', JStr addr), (''x'', JNum ''1e999'')]]"

lemma overflow_not_ok: "\<not> num_in_range ''1e999''"
proof -
  have m: "num_mantissa ''1e999'' = (1, 999)"
    by (simp add: num_mantissa_def is_digit_def digits_val_def json_eval)
  have "(2 :: nat) ^ 1024 \<le> 2 ^ 2997" by (rule power_increasing) simp_all
  also have "\<dots> = 8 ^ 999" by (simp add: power_mult [of 2 3 999, simplified])
  also have "\<dots> \<le> 10 ^ 999" by (rule power_mono) simp_all
  finally have "\<not> (10 :: nat) ^ 999 < 2 ^ 1024 - 2 ^ 970" by linarith
  then show ?thesis
    by (simp only: num_in_range_def m prod.case nat_numeral mult_1 zero_le_numeral if_True one_neq_zero
        simp_thms)
qed

theorem overflow_shares_key_witness:
  "lookup_key (\<lambda>b. b) (\<lambda>l. l) ''1'' ''eth_getLogs'' (Some (overflow_filter ''0xaa''))
     = lookup_key (\<lambda>b. b) (\<lambda>l. l) ''8453'' ''eth_getLogs'' (Some (overflow_filter ''0xbb''))"
  by (rule overflow_shares_key) (simp_all add: overflow_filter_def overflow_not_ok)

end
