(* ===== verification/Cache_Policy.thy ===== *)
theory Cache_Policy
  imports Rpc_Types
begin

text \<open>
  The configuration of the cache, and how long an answer may be kept: \<open>TTL\<close> and \<open>AnswerTTL\<close> of
  \<open>internal/backend/cache.go\<close>. Durations are in nanoseconds.
\<close>

record ChainCacheConfig =
  MaxReorgDepth :: int
  ChainBlockTime :: int

record CacheConfig =
  CEnabled :: bool
  Path :: string
  MemEntries :: int
  TTLLatest :: int
  TTLBlock :: int
  Clean :: bool
  BlockCacheBytes :: int
  Chains :: "string \<rightharpoonup> ChainCacheConfig"

definition chain_config :: "CacheConfig \<Rightarrow> string \<Rightarrow> ChainCacheConfig" where
  "chain_config c chainID =
     (case Chains c chainID of None \<Rightarrow> \<lparr>MaxReorgDepth = 0, ChainBlockTime = 0\<rparr> | Some cc \<Rightarrow> cc)"

definition BlockTime :: "CacheConfig \<Rightarrow> string \<Rightarrow> int" where
  "BlockTime c chainID = ChainBlockTime (chain_config c chainID)"

definition ReorgDepth :: "CacheConfig \<Rightarrow> string \<Rightarrow> u64" where
  "ReorgDepth c chainID = of_int (max (MaxReorgDepth (chain_config c chainID)) 0)"

section \<open>Lifetimes\<close>

definition TTL :: "string \<Rightarrow> raw \<Rightarrow> CacheConfig \<Rightarrow> int" where
  "TTL mth params cfg =
     (if mth \<in> {''eth_getBlockByNumber'', ''eth_getBalance'', ''eth_getCode'', ''eth_getStorageAt'', ''eth_call''}
      then (if pinnedToBlock mth params then TTLBlock cfg else TTLLatest cfg)
      else if mth \<in> {''eth_getBlockByHash'', ''eth_getTransactionByHash'', ''eth_getTransactionReceipt''}
      then TTLBlock cfg
      else if mth = ''eth_getLogs''
      then (if logsPinned params then TTLBlock cfg else TTLLatest cfg)
      else 0)"

definition answersWithInclusion :: "string \<Rightarrow> bool" where
  "answersWithInclusion mth \<longleftrightarrow>
     mth = ''eth_getTransactionByHash'' \<or> mth = ''eth_getTransactionReceipt''"

definition AnswerTTL :: "string \<Rightarrow> raw \<Rightarrow> raw \<Rightarrow> CacheConfig \<Rightarrow> int \<times> u64 \<times> string" where
  "AnswerTTL mth params response cfg =
     (if \<not> Cacheable response then (0, 0, [])
      else
        (let ttl = TTL mth params cfg in
         if ttl \<le> 0 then (0, 0, [])
         else
           (case ResponseBlock response of (blockNum, blockHash) \<Rightarrow>
              if answersWithInclusion mth \<and> blockNum = 0 then (0, 0, [])
              else (ttl, blockNum, blockHash))))"

section \<open>What is kept\<close>

text \<open>The block parameter or filter of a request fixes the blocks it reads.\<close>

definition fixed_blocks :: "string \<Rightarrow> raw \<Rightarrow> bool" where
  "fixed_blocks mth params \<longleftrightarrow>
     mth \<in> {''eth_getBlockByHash'', ''eth_getTransactionByHash'', ''eth_getTransactionReceipt''}
     \<or> pinnedToBlock mth params \<or> mth = ''eth_getLogs'' \<and> logsPinned params"

lemma TTL_cases:
  "TTL mth params cfg = 0 \<or> TTL mth params cfg = TTLLatest cfg
   \<or> TTL mth params cfg = TTLBlock cfg \<and> fixed_blocks mth params"
  by (auto simp: TTL_def fixed_blocks_def)

text \<open>
  C32. An answer is kept only if it is an object with a result that is not null and without an error,
  and, for a transaction or receipt, only if it names the block that includes it. It is kept for
  the lifetime of fixed blocks only if the request itself fixes the blocks it reads (by number, by
  hash, or by a range with both ends given); any other answer gets at most the lifetime of the tip.
\<close>

theorem AnswerTTL_sound:
  assumes "AnswerTTL mth params response cfg = (ttl, n, h)" and "0 < ttl"
  shows "(\<exists>ms. as_struct response = Some ms \<and> \<not> is_null (raw_field ''result'' ms)
            \<and> is_null (raw_field ''error'' ms))
    \<and> (n, h) = ResponseBlock response
    \<and> (answersWithInclusion mth \<longrightarrow> n \<noteq> 0)
    \<and> (ttl = TTLLatest cfg \<or> ttl = TTLBlock cfg \<and> fixed_blocks mth params)"
proof -
  have c: "Cacheable response" and t: "0 < TTL mth params cfg" "ttl = TTL mth params cfg"
    and r: "(n, h) = ResponseBlock response" "answersWithInclusion mth \<longrightarrow> n \<noteq> 0"
    using assms by (auto simp: AnswerTTL_def Let_def split: if_splits prod.splits)
  show ?thesis
    using c [unfolded Cacheable_iff] t r TTL_cases [of mth params cfg] by auto
qed

definition pinned_balance :: json where
  "pinned_balance = JArr [JStr ''0xabc'', quantity 16]"

definition balance_answer :: json where
  "balance_answer = JObj [(''jsonrpc'', JStr ''2.0''), (''id'', JNum ''1''), (''result'', JStr ''0x5'')]"

definition sample_cache_cfg :: CacheConfig where
  "sample_cache_cfg =
     \<lparr>CEnabled = True, Path = ''cache'', MemEntries = 100, TTLLatest = 250000000,
      TTLBlock = 86400000000000, Clean = False, BlockCacheBytes = 1048576,
      Chains = [''1'' \<mapsto> \<lparr>MaxReorgDepth = 64, ChainBlockTime = 12000000000\<rparr>]\<rparr>"

lemma balance_answer_cacheable: "Cacheable (Some balance_answer)"
  by (simp add: Cacheable_iff balance_answer_def json_eval)

lemma balance_answer_block: "ResponseBlock (Some balance_answer) = (0, [])"
  by (simp add: ResponseBlock_def balance_answer_def decode_logs_def decode_included_def json_eval)

lemma AnswerTTL_balance:
  "AnswerTTL ''eth_getBalance'' (Some pinned_balance) (Some balance_answer) sample_cache_cfg
     = (86400000000000, 0, [])"
proof -
  have "pinnedToBlock ''eth_getBalance'' (Some pinned_balance)"
    by (simp add: pinnedToBlock_def blockParamIndex_def pinned_balance_def namesBlock_def)
  then show ?thesis
    by (simp add: AnswerTTL_def balance_answer_cacheable balance_answer_block TTL_def
        answersWithInclusion_def sample_cache_cfg_def)
qed

theorem AnswerTTL_sound_witness:
  "(86400000000000 :: int) = TTLBlock sample_cache_cfg
     \<and> fixed_blocks ''eth_getBalance'' (Some pinned_balance)"
  using AnswerTTL_sound [OF AnswerTTL_balance] by (simp add: sample_cache_cfg_def)

end
