(* ===== verification/Reorg.thy ===== *)
theory Reorg
  imports Cache_Policy "HOL-Library.AList"
begin

text \<open>
  The reorganization tracker of the cache, \<open>internal/backend/cache.go\<close>: per chain the hashes of the
  recent blocks, the highest block and its hash. Block numbers are 64-bit words and wrap.
\<close>

record tracker =
  blockHashes :: "string \<Rightarrow> (u64 \<times> string) list"
  latestBlocks :: "string \<Rightarrow> u64"
  latestHashes :: "string \<Rightarrow> string"

text \<open>Missing maps and missing entries read as empty and zero.\<close>

definition empty_tracker :: tracker where
  "empty_tracker = \<lparr>blockHashes = (\<lambda>_. []), latestBlocks = (\<lambda>_. 0), latestHashes = (\<lambda>_. [])\<rparr>"

section \<open>The operations\<close>

definition detectReorg :: "tracker \<Rightarrow> string \<Rightarrow> u64 \<Rightarrow> string \<Rightarrow> raw \<Rightarrow> bool" where
  "detectReorg t chainID n h blockData =
     (let hashes = map_of (blockHashes t chainID);
          other = (case hashes n of None \<Rightarrow> False | Some h' \<Rightarrow> h' \<noteq> h)
      in if other then True
         else if 0 < n \<and> n \<le> latestBlocks t chainID \<and> other then True
         else if 1 < n \<and> blockData \<noteq> None then
           (case hashes (n - 1) of
              None \<Rightarrow> False
            | Some p \<Rightarrow>
              (let p' = extractParentHashFromBlockData blockData in p' \<noteq> [] \<and> p' \<noteq> p))
         else False)"

definition cleanupOldBlockHashes :: "CacheConfig \<Rightarrow> string \<Rightarrow> tracker \<Rightarrow> tracker" where
  "cleanupOldBlockHashes cfg chainID t =
     (let chainHashes = blockHashes t chainID;
          window = 2 * ReorgDepth cfg chainID
      in if of_nat (length chainHashes) \<le> window \<or> latestBlocks t chainID < window then t
         else
           (let cutoff = latestBlocks t chainID - window in
            t\<lparr>blockHashes := (blockHashes t)(chainID := filter (\<lambda>(n, h). \<not> n < cutoff) chainHashes)\<rparr>))"

text \<open>The part of \<open>UpdateLatestBlock\<close> behind the check for a reorganization.\<close>

definition set_block :: "string \<Rightarrow> u64 \<Rightarrow> string \<Rightarrow> tracker \<Rightarrow> tracker" where
  "set_block chainID n h t =
     (let t1 = t\<lparr>blockHashes := (blockHashes t)(chainID := AList.update n h (blockHashes t chainID))\<rparr>
      in if latestBlocks t1 chainID < n
         then t1\<lparr>latestBlocks := (latestBlocks t1)(chainID := n),
                 latestHashes := (latestHashes t1)(chainID := h)\<rparr>
         else t1)"

definition record_block :: "CacheConfig \<Rightarrow> string \<Rightarrow> u64 \<Rightarrow> string \<Rightarrow> tracker \<Rightarrow> tracker" where
  "record_block cfg chainID n h t = cleanupOldBlockHashes cfg chainID (set_block chainID n h t)"

definition IsBlockHashValid :: "CacheConfig \<Rightarrow> tracker \<Rightarrow> string \<Rightarrow> string \<Rightarrow> u64 \<Rightarrow> bool" where
  "IsBlockHashValid cfg t chainID entryHash entryNum =
     (if entryHash = [] then True
      else
        (case map_of (blockHashes t chainID) entryNum of
           Some h \<Rightarrow> h = entryHash
         | None \<Rightarrow>
           \<not> (0 < latestBlocks t chainID
              \<and> latestBlocks t chainID - entryNum \<le> ReorgDepth cfg chainID)))"

section \<open>The invariant: what is kept is recent and bounded\<close>

definition tracker_ok :: "CacheConfig \<Rightarrow> tracker \<Rightarrow> bool" where
  "tracker_ok cfg t \<longleftrightarrow>
     (\<forall>c. distinct (map fst (blockHashes t c))
          \<and> (\<forall>(n, h) \<in> set (blockHashes t c). n \<le> latestBlocks t c)
          \<and> length (blockHashes t c) \<le> unat (2 * ReorgDepth cfg c) + 1)"

lemma word_interval_length:
  fixes lo hi :: u64
  assumes "distinct ns" and "\<forall>n \<in> set ns. lo \<le> n \<and> n \<le> hi" and "lo \<le> hi"
  shows "length ns \<le> unat (hi - lo) + 1"
proof -
  have "distinct (map unat ns)"
    using assms(1) by (simp add: distinct_map inj_on_def word_unat_eq_iff)
  moreover have "set (map unat ns) \<subseteq> {unat lo..unat hi}"
    using assms(2) by (auto simp: word_le_nat_alt)
  ultimately have "length ns \<le> card {unat lo..unat hi}"
    by (metis card_mono distinct_card finite_atLeastAtMost length_map)
  then show ?thesis
    using assms(3) by (simp add: unat_sub word_le_nat_alt)
qed

lemma cleanup_other: "c \<noteq> chainID \<Longrightarrow> blockHashes (cleanupOldBlockHashes cfg chainID t) c = blockHashes t c"
  by (simp add: cleanupOldBlockHashes_def Let_def)

lemma cleanup_latest [simp]:
  "latestBlocks (cleanupOldBlockHashes cfg chainID t) = latestBlocks t"
  "latestHashes (cleanupOldBlockHashes cfg chainID t) = latestHashes t"
  by (simp_all add: cleanupOldBlockHashes_def Let_def)

lemma distinct_filter_keys: "distinct (map fst xs) \<Longrightarrow> distinct (map fst (filter P xs))"
  by (induction xs) auto

lemma cleanup_bound:
  assumes "distinct (map fst (blockHashes t c))"
    and "\<forall>(n, h) \<in> set (blockHashes t c). n \<le> latestBlocks t c"
    and "length (blockHashes t c) < 2 ^ 64"
  shows "length (blockHashes (cleanupOldBlockHashes cfg c t) c) \<le> unat (2 * ReorgDepth cfg c) + 1"
proof -
  let ?w = "2 * ReorgDepth cfg c"
  let ?xs = "blockHashes t c"
  consider (short) "of_nat (length ?xs) \<le> ?w" | (low) "\<not> of_nat (length ?xs) \<le> ?w" "latestBlocks t c < ?w"
    | (cut) "\<not> of_nat (length ?xs) \<le> ?w" "\<not> latestBlocks t c < ?w" by blast
  then show ?thesis
  proof cases
    case short
    have "unat (of_nat (length ?xs) :: u64) = length ?xs"
      using assms(3) by (simp add: unat_of_nat take_bit_nat_eq_self)
    then have "length ?xs \<le> unat ?w" using short by (simp add: word_le_nat_alt)
    then show ?thesis using short by (simp add: cleanupOldBlockHashes_def Let_def)
  next
    case low
    have "length (map fst ?xs) \<le> unat (latestBlocks t c - 0) + 1"
      using assms(1,2) by (intro word_interval_length) auto
    moreover have "unat (latestBlocks t c) < unat ?w" using low by (simp add: word_less_nat_alt)
    ultimately show ?thesis using low by (simp add: cleanupOldBlockHashes_def Let_def)
  next
    case cut
    let ?lo = "latestBlocks t c - ?w"
    let ?ys = "filter (\<lambda>(n, h). \<not> n < ?lo) ?xs"
    have le: "?w \<le> latestBlocks t c" using cut by simp
    have "length (map fst ?ys) \<le> unat (latestBlocks t c - ?lo) + 1"
    proof (rule word_interval_length)
      show "distinct (map fst ?ys)" using assms(1) by (rule distinct_filter_keys)
      show "\<forall>n \<in> set (map fst ?ys). ?lo \<le> n \<and> n \<le> latestBlocks t c"
        using assms(2) by auto
      show "?lo \<le> latestBlocks t c" using le by (simp add: word_sub_le)
    qed
    then show ?thesis using cut by (simp add: cleanupOldBlockHashes_def Let_def)
  qed
qed

lemma keys_update: "set (map fst (AList.update k v xs)) = insert k (set (map fst xs))"
  by (induction xs) auto

lemma distinct_update: "distinct (map fst xs) \<Longrightarrow> distinct (map fst (AList.update k v xs))"
  by (rule AList.distinct_update)

lemma length_update_le: "length (AList.update k v xs) \<le> length xs + 1"
  by (induction xs) auto

text \<open>
  C34. Whatever blocks are reported, in whatever order, the tracker keeps at most one hash per block
  number, none above the highest block seen, and per chain at most twice the reorganization depth
  plus one of them.
\<close>

theorem record_block_bounded:
  assumes "tracker_ok cfg t" and "unat (2 * ReorgDepth cfg chainID) + 2 < 2 ^ 64"
  shows "tracker_ok cfg (record_block cfg chainID n h t)"
proof -
  let ?t2 = "set_block chainID n h t"
  let ?t3 = "record_block cfg chainID n h t"
  have ok: "distinct (map fst (blockHashes t c))" "\<forall>(m, g) \<in> set (blockHashes t c). m \<le> latestBlocks t c"
    "length (blockHashes t c) \<le> unat (2 * ReorgDepth cfg c) + 1" for c
    using assms(1) by (simp_all add: tracker_ok_def)
  have d2: "distinct (map fst (blockHashes ?t2 c))" for c
    using ok(1) by (simp add: distinct_update set_block_def Let_def)
  have le: "latestBlocks t chainID \<le> latestBlocks ?t2 chainID" "n \<le> latestBlocks ?t2 chainID"
    by (auto simp: set_block_def Let_def)
  have k2: "\<forall>(m, g) \<in> set (blockHashes ?t2 c). m \<le> latestBlocks ?t2 c" for c
  proof (cases "c = chainID")
    case True
    have "m \<le> latestBlocks ?t2 chainID" if "(m, g) \<in> set (AList.update n h (blockHashes t chainID))" for m g
    proof -
      have "m = n \<or> m \<in> set (map fst (blockHashes t chainID))"
        using that keys_update [of n h "blockHashes t chainID"] by force
      then show ?thesis using ok(2) [of chainID] le by (auto intro: order_trans)
    qed
    moreover have "blockHashes ?t2 chainID = AList.update n h (blockHashes t chainID)"
      by (simp add: set_block_def Let_def)
    ultimately show ?thesis using True by auto
  next
    case False
    then show ?thesis using ok(2) [of c] by (simp add: set_block_def Let_def)
  qed
  have sub: "set (blockHashes ?t3 c) \<subseteq> set (blockHashes ?t2 c)" for c
    by (auto simp: record_block_def cleanupOldBlockHashes_def Let_def)
  have "distinct (map fst (blockHashes ?t3 c))" for c
    using d2 [of c] by (auto simp: record_block_def cleanupOldBlockHashes_def Let_def distinct_filter_keys)
  moreover have "\<forall>(m, g) \<in> set (blockHashes ?t3 c). m \<le> latestBlocks ?t3 c" for c
    using k2 [of c] sub [of c] by (auto simp: record_block_def)
  moreover have "length (blockHashes ?t3 c) \<le> unat (2 * ReorgDepth cfg c) + 1" for c
  proof (cases "c = chainID")
    case True
    have "length (blockHashes ?t2 chainID) < 2 ^ 64"
      using ok(3) [of chainID] assms(2) length_update_le [of n h "blockHashes t chainID"]
      by (simp add: set_block_def Let_def)
    then show ?thesis using cleanup_bound [OF d2 k2] True by (simp add: record_block_def)
  next
    case False
    then show ?thesis using ok(3) [of c] by (simp add: cleanup_other record_block_def set_block_def Let_def)
  qed
  ultimately show ?thesis by (simp add: tracker_ok_def)
qed

lemma tracker_ok_empty: "tracker_ok cfg empty_tracker"
  by (simp add: tracker_ok_def empty_tracker_def)

theorem record_block_bounded_witness:
  "tracker_ok sample_cache_cfg (record_block sample_cache_cfg ''1'' 100 ''0xaa'' empty_tracker)"
  by (rule record_block_bounded [OF tracker_ok_empty])
     (simp add: ReorgDepth_def chain_config_def sample_cache_cfg_def)

section \<open>What a recorded block does to entries\<close>

lemma record_block_latest:
  "latestBlocks (record_block cfg chainID n h t) chainID
     = (if latestBlocks t chainID < n then n else latestBlocks t chainID)"
  by (simp add: record_block_def set_block_def Let_def)

text \<open>A block that is not too far behind the highest one keeps its new hash.\<close>

lemma record_block_hash:
  assumes "\<not> n < latestBlocks (record_block cfg chainID n h t) chainID - 2 * ReorgDepth cfg chainID
    \<or> latestBlocks (record_block cfg chainID n h t) chainID < 2 * ReorgDepth cfg chainID"
  shows "map_of (blockHashes (record_block cfg chainID n h t) chainID) n = Some h"
proof -
  have f: "map_of (filter (\<lambda>(m, g). \<not> m < cut) xs) n = map_of xs n" if "\<not> n < cut"
    for cut :: u64 and xs :: "(u64 \<times> string) list"
    using that by (induction xs) auto
  show ?thesis
    using assms f
    by (auto simp: record_block_def set_block_def Let_def cleanupOldBlockHashes_def update_conv' split: if_splits)
qed

lemma recent_not_cut:
  fixes l n w :: u64
  assumes "l - n \<le> w" and "n \<le> l"
  shows "\<not> n < l - w \<or> l < w"
proof (cases "l < w")
  case False
  have "unat l - unat n \<le> unat w" "unat n \<le> unat l"
    using assms by (simp_all add: word_le_nat_alt unat_sub)
  moreover have "unat (l - w) = unat l - unat w" using False by (simp add: unat_sub)
  ultimately have "unat (l - w) \<le> unat n" by linarith
  then show ?thesis by (simp add: word_less_nat_alt)
qed simp

text \<open>
  C35. Once the tracker has seen block n with hash h, entries read from block n are served exactly
  when they carry that hash, as long as n is not further than twice the reorganization depth
  behind the highest block: an entry of a replaced block is refused.
\<close>

theorem replaced_block_refused:
  assumes "latestBlocks (record_block cfg chainID n h t) chainID - n \<le> 2 * ReorgDepth cfg chainID"
    and "n \<le> latestBlocks (record_block cfg chainID n h t) chainID"
    and "entryHash \<noteq> []"
  shows "IsBlockHashValid cfg (record_block cfg chainID n h t) chainID entryHash n \<longleftrightarrow> entryHash = h"
proof -
  let ?t = "record_block cfg chainID n h t"
  show ?thesis
    using record_block_hash [OF recent_not_cut [OF assms(1,2)]] assms(3)
    by (auto simp: IsBlockHashValid_def)
qed

theorem replaced_block_refused_witness:
  "\<not> IsBlockHashValid sample_cache_cfg (record_block sample_cache_cfg ''1'' 100 ''0xbb''
        (record_block sample_cache_cfg ''1'' 100 ''0xaa'' empty_tracker)) ''1'' ''0xaa'' 100"
  using replaced_block_refused [where cfg = sample_cache_cfg and chainID = "''1''" and n = 100 and h = "''0xbb''"
      and t = "record_block sample_cache_cfg ''1'' 100 ''0xaa'' empty_tracker" and entryHash = "''0xaa''"]
  by (simp add: record_block_latest empty_tracker_def)

text \<open>
  A reorganization at the height of the tip leaves the hash recorded for the tip at the
  abandoned block: the hash is replaced only when a higher block arrives.
\<close>

theorem tip_hash_stale:
  assumes "latestBlocks t chainID = n" and "h \<noteq> latestHashes t chainID"
  shows "latestHashes (record_block cfg chainID n h t) chainID = latestHashes t chainID
    \<and> map_of (blockHashes (record_block cfg chainID n h t) chainID) n = Some h
    \<and> (latestHashes t chainID \<noteq> [] \<longrightarrow>
        \<not> IsBlockHashValid cfg (record_block cfg chainID n h t) chainID (latestHashes t chainID) n)"
proof -
  let ?t = "record_block cfg chainID n h t"
  have l: "latestBlocks ?t chainID = n" using assms(1) by (simp add: record_block_latest)
  have "latestHashes ?t chainID = latestHashes t chainID"
    using assms(1) by (simp add: record_block_def set_block_def Let_def)
  moreover have m: "map_of (blockHashes ?t chainID) n = Some h"
  proof (rule record_block_hash)
    show "\<not> n < latestBlocks ?t chainID - 2 * ReorgDepth cfg chainID
      \<or> latestBlocks ?t chainID < 2 * ReorgDepth cfg chainID"
      unfolding l by (metis not_less word_sub_le)
  qed
  ultimately show ?thesis using assms(2) by (auto simp: IsBlockHashValid_def)
qed

theorem tip_hash_stale_witness:
  "latestHashes (record_block sample_cache_cfg ''1'' 100 ''0xbb''
      (record_block sample_cache_cfg ''1'' 100 ''0xaa'' empty_tracker)) ''1'' = ''0xaa''"
proof -
  let ?t = "record_block sample_cache_cfg ''1'' 100 ''0xaa'' empty_tracker"
  have "latestBlocks ?t ''1'' = 100" by (simp add: record_block_latest empty_tracker_def)
  moreover have "latestHashes ?t ''1'' = ''0xaa''" by (simp add: record_block_def set_block_def Let_def empty_tracker_def)
  ultimately show ?thesis
    using tip_hash_stale [of ?t "''1''" 100 "''0xbb''" sample_cache_cfg] by simp
qed

end
