(* ===== verification/Cache_Store.thy ===== *)
theory Cache_Store
  imports Cache_Keys Reorg
begin

text \<open>
  The two-tier store of the cache, \<open>internal/backend/cache.go\<close>: entries with an expiry and the block
  they were read from, the memory tier in front of the durable one, and the operations that read,
  write and invalidate entries. The tiers are third-party code (an LRU cache and pebble): they are
  an argument of the operations, a record of functions.
\<close>

section \<open>Entries and tiers\<close>

text \<open>
  The bytes an entry keeps are the text of a response (as everywhere, its value), or the return data
  of a sub-call.
\<close>

datatype cached = Response raw | ReturnBytes bytes

record entry =
  Expiry :: int
  Body :: cached
  ChainID :: string
  BlockHash :: string
  BlockNum :: u64

text \<open>
  What the store calls of its tiers. A read of the LRU may change its order; a read of the durable
  tier is None when the key is not there or cannot be read or decoded.
\<close>

record ('m, 'd) tiers =
  mem_get :: "string \<Rightarrow> 'm \<Rightarrow> 'm \<times> entry option"
  mem_peek :: "string \<Rightarrow> 'm \<Rightarrow> entry option"
  mem_add :: "string \<Rightarrow> entry \<Rightarrow> 'm \<Rightarrow> 'm"
  mem_remove :: "string \<Rightarrow> 'm \<Rightarrow> 'm"
  mem_keys :: "'m \<Rightarrow> string list"
  db_get :: "string \<Rightarrow> 'd \<Rightarrow> entry option"
  db_set :: "string \<Rightarrow> entry \<Rightarrow> 'd \<Rightarrow> 'd"
  db_delete :: "string \<Rightarrow> 'd \<Rightarrow> 'd"

record ('m, 'd) store =
  cfg :: CacheConfig
  mem :: "'m option"
  db :: "'d option"
  track :: tracker

definition max_int64 :: int where
  "max_int64 = 2 ^ 63 - 1"

text \<open>Times are in nanoseconds; expiries in milliseconds.\<close>

definition unix_milli :: "int \<Rightarrow> int" where
  "unix_milli t = t div 1000000"

section \<open>Opening\<close>

definition open_defaults :: "CacheConfig \<Rightarrow> CacheConfig" where
  "open_defaults c =
     c\<lparr>MemEntries := (if MemEntries c \<le> 0 then 100000 else MemEntries c),
       TTLLatest := (if TTLLatest c \<le> 0 then 250000000 else TTLLatest c),
       TTLBlock := (if TTLBlock c \<le> 0 then 86400000000000 else TTLBlock c),
       BlockCacheBytes := (if BlockCacheBytes c \<le> 0 then 536870912 else BlockCacheBytes c)\<rparr>"

text \<open>\<open>open_db\<close> and \<open>new_lru\<close> are pebble and the LRU; the error of the first is returned.\<close>

definition Open ::
  "(string \<Rightarrow> string + 'd) \<Rightarrow> (int \<Rightarrow> 'm) \<Rightarrow> CacheConfig \<Rightarrow> string + ('m, 'd) store" where
  "Open open_db new_lru c =
     (let c' = open_defaults c in
      if \<not> CEnabled c' then Inr \<lparr>cfg = c', mem = None, db = None, track = empty_tracker\<rparr>
      else
        (case open_db (Path c') of
           Inl e \<Rightarrow> Inl e
         | Inr d \<Rightarrow> Inr \<lparr>cfg = c', mem = Some (new_lru (MemEntries c')), db = Some d,
                          track = empty_tracker\<rparr>))"

section \<open>Invalidation\<close>

definition purgeChain :: "('m, 'd) tiers \<Rightarrow> string \<Rightarrow> 'm \<Rightarrow> 'm" where
  "purgeChain ops chainID m =
     foldl (\<lambda>m' key.
         case mem_peek ops key m' of
           None \<Rightarrow> m'
         | Some e \<Rightarrow> if ChainID e = chainID then mem_remove ops key m' else m')
       m (mem_keys ops m)"

definition UpdateLatestBlock ::
  "('m, 'd) tiers \<Rightarrow> string \<Rightarrow> u64 \<Rightarrow> string \<Rightarrow> raw \<Rightarrow> ('m, 'd) store \<Rightarrow> ('m, 'd) store" where
  "UpdateLatestBlock ops chainID n h blockData s =
     (let s1 = (if detectReorg (track s) chainID n h blockData
                then s\<lparr>mem := map_option (purgeChain ops chainID) (mem s)\<rparr> else s)
      in s1\<lparr>track := record_block (cfg s) chainID n h (track s1)\<rparr>)"

definition CheckReorgFromHealthResponse ::
  "('m, 'd) tiers \<Rightarrow> raw \<Rightarrow> string \<Rightarrow> ('m, 'd) store \<Rightarrow> ('m, 'd) store" where
  "CheckReorgFromHealthResponse ops response chainID s =
     (case ExtractBlockInfo response of (n, h) \<Rightarrow>
        if 0 < n then UpdateLatestBlock ops chainID n h response s else s)"

section \<open>Reading\<close>

definition entry_valid :: "('m, 'd) store \<Rightarrow> entry \<Rightarrow> bool" where
  "entry_valid s e \<longleftrightarrow> IsBlockHashValid (cfg s) (track s) (ChainID e) (BlockHash e) (BlockNum e)"

text \<open>The second half of \<open>Get\<close>: the durable tier, whose hits go to memory.\<close>

definition get_db ::
  "('m, 'd) tiers \<Rightarrow> int \<Rightarrow> string \<Rightarrow> ('m, 'd) store \<Rightarrow> cached option \<times> ('m, 'd) store" where
  "get_db ops now key s =
     (case db s of
        None \<Rightarrow> (None, s)
      | Some d \<Rightarrow>
        (case db_get ops key d of
           None \<Rightarrow> (None, s)
         | Some e \<Rightarrow>
           if unix_milli now \<le> Expiry e then
             (if entry_valid s e then (Some (Body e), s\<lparr>mem := map_option (mem_add ops key e) (mem s)\<rparr>)
              else (None, s\<lparr>db := Some (db_delete ops key d)\<rparr>))
           else (None, s)))"

definition Get ::
  "('m, 'd) tiers \<Rightarrow> int \<Rightarrow> string \<Rightarrow> ('m, 'd) store \<Rightarrow> cached option \<times> ('m, 'd) store" where
  "Get ops now key s =
     (if \<not> CEnabled (cfg s) then (None, s)
      else
        (case mem s of
           None \<Rightarrow> get_db ops now key s
         | Some m \<Rightarrow>
           (case mem_get ops key m of (m1, found) \<Rightarrow>
              (let s1 = s\<lparr>mem := Some m1\<rparr> in
               case found of
                 None \<Rightarrow> get_db ops now key s1
               | Some e \<Rightarrow>
                 if unix_milli now \<le> Expiry e then
                   (if entry_valid s1 e then (Some (Body e), s1)
                    else get_db ops now key (s1\<lparr>mem := Some (mem_remove ops key m1)\<rparr>))
                 else get_db ops now key s1))))"

section \<open>Writing\<close>

definition shortLived :: "int \<Rightarrow> CacheConfig \<Rightarrow> entry \<Rightarrow> bool" where
  "shortLived now c e =
     (if Expiry e = max_int64 then False
      else Expiry e - unix_milli now \<le> TTLLatest c div 1000000)"

definition add_mem :: "('m, 'd) tiers \<Rightarrow> string \<Rightarrow> entry \<Rightarrow> ('m, 'd) store \<Rightarrow> ('m, 'd) store" where
  "add_mem ops key e s = s\<lparr>mem := map_option (mem_add ops key e) (mem s)\<rparr>"

definition set_db :: "('m, 'd) tiers \<Rightarrow> string \<Rightarrow> entry \<Rightarrow> ('m, 'd) store \<Rightarrow> ('m, 'd) store" where
  "set_db ops key e s = s\<lparr>db := map_option (db_set ops key e) (db s)\<rparr>"

text \<open>The entry \<open>Put\<close> makes: tip-tracked without a block of its own, immortal past the reorg depth.\<close>

definition put_entry ::
  "CacheConfig \<Rightarrow> tracker \<Rightarrow> int \<Rightarrow> cached \<Rightarrow> int \<Rightarrow> string \<Rightarrow> u64 \<Rightarrow> string \<Rightarrow> entry" where
  "put_entry c t now body ttl chainID callBlockNum callBlockHash =
     (let tip = latestBlocks t chainID in
      \<lparr>Expiry = (if 0 < callBlockNum \<and> callBlockNum < tip \<and> ReorgDepth c chainID < tip - callBlockNum
                 then max_int64 else unix_milli (now + ttl)),
       Body = body, ChainID = chainID,
       BlockHash = (if callBlockNum = 0 then latestHashes t chainID else callBlockHash),
       BlockNum = (if callBlockNum = 0 then tip else callBlockNum)\<rparr>)"

text \<open>\<open>now2\<close> is the second reading of the clock.\<close>

definition Put ::
  "('m, 'd) tiers \<Rightarrow> int \<Rightarrow> int \<Rightarrow> string \<Rightarrow> cached \<Rightarrow> int \<Rightarrow> string \<Rightarrow> u64 \<Rightarrow> string
     \<Rightarrow> ('m, 'd) store \<Rightarrow> ('m, 'd) store" where
  "Put ops now now2 key body ttl chainID callBlockNum callBlockHash s =
     (if \<not> CEnabled (cfg s) \<or> ttl \<le> 0 then s
      else
        (let e = put_entry (cfg s) (track s) now body ttl chainID callBlockNum callBlockHash;
             s1 = add_mem ops key e s
         in if shortLived now2 (cfg s) e then s1 else set_db ops key e s1))"

definition PutImmortal ::
  "('m, 'd) tiers \<Rightarrow> string \<Rightarrow> cached \<Rightarrow> string \<Rightarrow> ('m, 'd) store \<Rightarrow> ('m, 'd) store" where
  "PutImmortal ops key body chainID s =
     (if \<not> CEnabled (cfg s) then s
      else
        (let e = \<lparr>Expiry = max_int64, Body = body, ChainID = chainID, BlockHash = [], BlockNum = 0\<rparr>
         in set_db ops key e (add_mem ops key e s)))"

definition putNegative ::
  "(bytes \<Rightarrow> bytes) \<Rightarrow> ('m, 'd) tiers \<Rightarrow> int \<Rightarrow> string \<Rightarrow> bytes \<Rightarrow> bytes \<Rightarrow> ('m, 'd) store \<Rightarrow> ('m, 'd) store"
where
  "putNegative H ops now chain target callData s =
     (if \<not> CEnabled (cfg s) \<or> TTLBlock (cfg s) \<le> 0 then s
      else
        (let e = \<lparr>Expiry = unix_milli (now + TTLBlock (cfg s)), Body = ReturnBytes [], ChainID = chain,
                  BlockHash = [], BlockNum = 0\<rparr>;
             key = subCallNegKey H chain target callData
         in set_db ops key e (add_mem ops key e s)))"

definition negativeCached ::
  "(bytes \<Rightarrow> bytes) \<Rightarrow> ('m, 'd) tiers \<Rightarrow> int \<Rightarrow> string \<Rightarrow> bytes \<Rightarrow> bytes \<Rightarrow> ('m, 'd) store
     \<Rightarrow> bool \<times> ('m, 'd) store" where
  "negativeCached H ops now chain target callData s =
     (if \<not> CEnabled (cfg s) then (False, s)
      else (case Get ops now (subCallNegKey H chain target callData) s of (r, s') \<Rightarrow> (r \<noteq> None, s')))"

text \<open>\<open>Do\<close>, for a caller whose flight is not shared.\<close>

definition Do ::
  "('m, 'd) tiers \<Rightarrow> int \<Rightarrow> int \<Rightarrow> string \<Rightarrow> (('m, 'd) store \<Rightarrow> (string + cached) \<times> ('m, 'd) store)
     \<Rightarrow> ('m, 'd) store \<Rightarrow> (string + cached) \<times> ('m, 'd) store" where
  "Do ops now now2 key fn s =
     (case Get ops now key s of
        (Some b, s1) \<Rightarrow> (Inr b, s1)
      | (None, s1) \<Rightarrow>
        (case Get ops now2 key s1 of
           (Some b, s2) \<Rightarrow> (Inr b, s2)
         | (None, s2) \<Rightarrow> fn s2))"

section \<open>The contract of the tiers\<close>

text \<open>
  What the store relies on: a tier returns under a key only what was last written under it, and may
  forget (an LRU evicts, a write to disk may fail). The memory tier lists all its keys, and keeps
  an entry it is just given.
\<close>

definition lawful :: "('m, 'd) tiers \<Rightarrow> bool" where
  "lawful ops \<longleftrightarrow>
     (\<forall>k m. snd (mem_get ops k m) = mem_peek ops k m
          \<and> (\<forall>k'. mem_peek ops k' (fst (mem_get ops k m)) = mem_peek ops k' m))
   \<and> (\<forall>k e m. mem_peek ops k (mem_add ops k e m) = Some e
          \<and> (\<forall>k'. k' \<noteq> k \<longrightarrow> mem_peek ops k' (mem_add ops k e m) \<in> {None, mem_peek ops k' m}))
   \<and> (\<forall>k m. mem_peek ops k (mem_remove ops k m) = None
          \<and> (\<forall>k'. k' \<noteq> k \<longrightarrow> mem_peek ops k' (mem_remove ops k m) = mem_peek ops k' m))
   \<and> (\<forall>m k. mem_peek ops k m \<noteq> None \<longleftrightarrow> k \<in> set (mem_keys ops m))
   \<and> (\<forall>k e d. db_get ops k (db_set ops k e d) \<in> {Some e, db_get ops k d}
          \<and> (\<forall>k'. k' \<noteq> k \<longrightarrow> db_get ops k' (db_set ops k e d) = db_get ops k' d))
   \<and> (\<forall>k d. db_get ops k (db_delete ops k d) \<in> {None, db_get ops k d}
          \<and> (\<forall>k'. k' \<noteq> k \<longrightarrow> db_get ops k' (db_delete ops k d) = db_get ops k' d))"

text \<open>The entries the store holds.\<close>

definition holds :: "('m, 'd) tiers \<Rightarrow> ('m, 'd) store \<Rightarrow> string \<Rightarrow> entry \<Rightarrow> bool" where
  "holds ops s key e \<longleftrightarrow>
     (\<exists>m. mem s = Some m \<and> mem_peek ops key m = Some e)
     \<or> (\<exists>d. db s = Some d \<and> db_get ops key d = Some e)"

definition all_entries :: "('m, 'd) tiers \<Rightarrow> (string \<Rightarrow> entry \<Rightarrow> bool) \<Rightarrow> ('m, 'd) store \<Rightarrow> bool" where
  "all_entries ops P s \<longleftrightarrow> (\<forall>k e. holds ops s k e \<longrightarrow> P k e)"

section \<open>What the operations do to the entries\<close>

lemma lawful_mem:
  assumes "lawful ops"
  shows "snd (mem_get ops k m) = mem_peek ops k m"
    and "mem_peek ops k' (fst (mem_get ops k m)) = mem_peek ops k' m"
    and "mem_peek ops k (mem_add ops k e m) = Some e"
    and "mem_peek ops k' (mem_add ops k e m) = Some x \<Longrightarrow> k' = k \<and> x = e \<or> mem_peek ops k' m = Some x"
    and "mem_peek ops k' (mem_remove ops k m) = (if k' = k then None else mem_peek ops k' m)"
    and "mem_peek ops k m = Some x \<Longrightarrow> k \<in> set (mem_keys ops m)"
proof -
  show "snd (mem_get ops k m) = mem_peek ops k m"
    and "mem_peek ops k' (fst (mem_get ops k m)) = mem_peek ops k' m"
    and add: "mem_peek ops k (mem_add ops k e m) = Some e"
    and "mem_peek ops k' (mem_remove ops k m) = (if k' = k then None else mem_peek ops k' m)"
    using assms by (auto simp: lawful_def)
  have "mem_peek ops k m \<noteq> None \<longleftrightarrow> k \<in> set (mem_keys ops m)" using assms unfolding lawful_def by blast
  then show "mem_peek ops k m = Some x \<Longrightarrow> k \<in> set (mem_keys ops m)" by simp
  have "k' \<noteq> k \<Longrightarrow> mem_peek ops k' (mem_add ops k e m) \<in> {None, mem_peek ops k' m}"
    using assms by (simp add: lawful_def)
  then show "mem_peek ops k' (mem_add ops k e m) = Some x \<Longrightarrow> k' = k \<and> x = e \<or> mem_peek ops k' m = Some x"
    using add by (cases "k' = k") auto
qed

lemma lawful_db:
  assumes "lawful ops"
  shows "db_get ops k' (db_set ops k e d) = Some x \<Longrightarrow> k' = k \<and> x = e \<or> db_get ops k' d = Some x"
    and "db_get ops k' (db_delete ops k d) = Some x \<Longrightarrow> db_get ops k' d = Some x"
proof -
  have "db_get ops k (db_set ops k e d) \<in> {Some e, db_get ops k d}"
    and "k' \<noteq> k \<Longrightarrow> db_get ops k' (db_set ops k e d) = db_get ops k' d"
    using assms by (simp_all add: lawful_def)
  then show "db_get ops k' (db_set ops k e d) = Some x \<Longrightarrow> k' = k \<and> x = e \<or> db_get ops k' d = Some x"
    by (cases "k' = k") auto
  have "db_get ops k (db_delete ops k d) \<in> {None, db_get ops k d}"
    and "k' \<noteq> k \<Longrightarrow> db_get ops k' (db_delete ops k d) = db_get ops k' d"
    using assms by (simp_all add: lawful_def)
  then show "db_get ops k' (db_delete ops k d) = Some x \<Longrightarrow> db_get ops k' d = Some x"
    by (cases "k' = k") auto
qed

text \<open>Reads add no entry: what is held afterwards was held before.\<close>

definition only_forgets :: "('m, 'd) tiers \<Rightarrow> ('m, 'd) store \<Rightarrow> ('m, 'd) store \<Rightarrow> bool" where
  "only_forgets ops s s' \<longleftrightarrow> cfg s' = cfg s \<and> track s' = track s \<and> (\<forall>k e. holds ops s' k e \<longrightarrow> holds ops s k e)"

lemma only_forgets_refl [simp]: "only_forgets ops s s"
  by (simp add: only_forgets_def)

lemma only_forgets_trans: "only_forgets ops s t \<Longrightarrow> only_forgets ops t u \<Longrightarrow> only_forgets ops s u"
  by (auto simp: only_forgets_def)

lemma only_forgets_all: "only_forgets ops s s' \<Longrightarrow> all_entries ops P s \<Longrightarrow> all_entries ops P s'"
  by (auto simp: only_forgets_def all_entries_def)

definition served :: "('m, 'd) tiers \<Rightarrow> int \<Rightarrow> string \<Rightarrow> ('m, 'd) store \<Rightarrow> cached \<Rightarrow> bool" where
  "served ops now key s b \<longleftrightarrow>
     (\<exists>e. holds ops s key e \<and> Body e = b \<and> unix_milli now \<le> Expiry e \<and> entry_valid s e)"

lemma get_db_sound:
  assumes "lawful ops" and "get_db ops now key s = (r, s')"
  shows "only_forgets ops s s' \<and> (\<forall>b. r = Some b \<longrightarrow> served ops now key s b)"
proof (cases "Option.bind (db s) (db_get ops key)")
  case None
  then have "r = None" and "s' = s"
    using assms(2) by (auto simp: get_db_def split: option.splits)
  then show ?thesis by simp
next
  case (Some e)
  then obtain d where d: "db s = Some d" "db_get ops key d = Some e" by (auto simp: bind_eq_Some_conv)
  have h: "holds ops s key e" using d by (auto simp: holds_def)
  have add: "only_forgets ops s (s\<lparr>mem := map_option (mem_add ops key e) (mem s)\<rparr>)"
    using h by (auto simp: only_forgets_def holds_def dest!: lawful_mem(4) [OF assms(1)])
  have del: "only_forgets ops s (s\<lparr>db := Some (db_delete ops key d)\<rparr>)"
    using d by (auto simp: only_forgets_def holds_def dest: lawful_db(2) [OF assms(1)])
  show ?thesis
    using assms(2) d h add del by (auto simp: get_db_def served_def split: if_splits)
qed

lemma Get_sound:
  assumes "lawful ops" and "Get ops now key s = (r, s')"
  shows "only_forgets ops s s' \<and> (\<forall>b. r = Some b \<longrightarrow> served ops now key s b)"
proof (cases "\<not> CEnabled (cfg s) \<or> mem s = None")
  case True
  then show ?thesis
    using assms get_db_sound [OF assms(1), of now key s] by (auto simp: Get_def split: if_splits)
next
  case False
  then obtain m where m: "mem s = Some m" "CEnabled (cfg s)" by auto
  obtain m1 found where g: "mem_get ops key m = (m1, found)" by fastforce
  have f: "found = mem_peek ops key m" and p1: "mem_peek ops k m1 = mem_peek ops k m" for k
    using lawful_mem(1) [OF assms(1), of key m] lawful_mem(2) [OF assms(1), of _ key m] g by simp_all
  let ?s1 = "s\<lparr>mem := Some m1\<rparr>"
  let ?s2 = "s\<lparr>mem := Some (mem_remove ops key m1)\<rparr>"
  have o1: "only_forgets ops s ?s1" using p1 m(1) by (auto simp: only_forgets_def holds_def)
  have o2: "only_forgets ops s ?s2"
    using p1 m(1) lawful_mem(5) [OF assms(1)] by (auto simp: only_forgets_def holds_def split: if_splits)
  have sv: "served ops now key s b" if "only_forgets ops s t" "served ops now key t b" for t b
    using that by (auto simp: served_def only_forgets_def entry_valid_def)
  have db1: "only_forgets ops s s' \<and> (\<forall>b. r = Some b \<longrightarrow> served ops now key s b)"
    if "get_db ops now key t = (r, s')" and "only_forgets ops s t" for t
    using get_db_sound [OF assms(1) that(1)] sv [OF that(2)] only_forgets_trans [OF that(2)] by blast
  show ?thesis
  proof (cases found)
    case None
    then show ?thesis using assms(2) m g db1 [OF _ o1] by (simp add: Get_def)
  next
    case (Some e)
    then have h: "holds ops s key e" using f m(1) by (simp add: holds_def)
    have v: "entry_valid ?s1 e = entry_valid s e" by (simp add: entry_valid_def)
    show ?thesis
      using assms(2) m g Some h o1 db1 [OF _ o1] db1 [OF _ o2]
      by (auto simp: Get_def Let_def v served_def split: if_splits)
  qed
qed

lemma add_mem_holds:
  assumes "lawful ops" and "holds ops (add_mem ops key e s) k x"
  shows "k = key \<and> x = e \<or> holds ops s k x"
  using assms(2) by (auto simp: add_mem_def holds_def dest!: lawful_mem(4) [OF assms(1)])

lemma set_db_holds:
  assumes "lawful ops" and "holds ops (set_db ops key e s) k x"
  shows "k = key \<and> x = e \<or> holds ops s k x"
  using assms(2) by (auto simp: set_db_def holds_def dest!: lawful_db(1) [OF assms(1)])

lemma add_mem_simps [simp]:
  "cfg (add_mem ops key e s) = cfg s" "track (add_mem ops key e s) = track s"
  "cfg (set_db ops key e s) = cfg s" "track (set_db ops key e s) = track s"
  by (simp_all add: add_mem_def set_db_def)

lemma add_set_all:
  assumes "lawful ops" and "all_entries ops P s" and "P key e"
  shows "all_entries ops P (add_mem ops key e s)" and "all_entries ops P (set_db ops key e s)"
  using assms add_mem_holds [OF assms(1)] set_db_holds [OF assms(1)] by (fastforce simp: all_entries_def)+

text \<open>
  C26. Get serves only what the store holds under that very key, while its expiry has not passed and
  while its block has not been replaced; and reading brings no entry into the store that was not
  there, in either tier.
\<close>

theorem Get_serves_valid:
  assumes "lawful ops" and "Get ops now key s = (Some b, s')"
  shows "served ops now key s b \<and> only_forgets ops s s'"
  using Get_sound [OF assms] by simp

subsection \<open>Writes\<close>

lemma Put_all:
  assumes "lawful ops" and "all_entries ops P s"
    and "P key (put_entry (cfg s) (track s) now body ttl chainID n h)"
  shows "all_entries ops P (Put ops now now2 key body ttl chainID n h s)"
  using assms add_set_all [OF assms(1)] by (simp add: Put_def Let_def)

lemma PutImmortal_all:
  assumes "lawful ops" and "all_entries ops P s"
    and "P key \<lparr>Expiry = max_int64, Body = body, ChainID = chainID, BlockHash = [], BlockNum = 0\<rparr>"
  shows "all_entries ops P (PutImmortal ops key body chainID s)"
  using assms add_set_all [OF assms(1)] by (simp add: PutImmortal_def Let_def)

lemma putNegative_all:
  assumes "lawful ops" and "all_entries ops P s"
    and "\<And>x. P (subCallNegKey H chain t d)
           \<lparr>Expiry = x, Body = ReturnBytes [], ChainID = chain, BlockHash = [], BlockNum = 0\<rparr>"
  shows "all_entries ops P (putNegative H ops now chain t d s)"
  using assms add_set_all [OF assms(1)] by (simp add: putNegative_def Let_def)

text \<open>
  What Put stores expires after its lifetime, and only an entry of a known block further behind
  the tip than the chain's reorganization depth (a true distance: the block is below the tip) never
  does. An entry without a block of its own is tied to the tip the tracker knows. An entry that
  lives no longer than the lifetime of the tip is not written to disk.
\<close>

theorem Put_entry_lifetime:
  assumes "put_entry c t now body ttl chainID n h = e" and "unix_milli (now + ttl) < max_int64"
  shows "(if Expiry e = max_int64
          then n \<noteq> 0 \<and> n < latestBlocks t chainID
               \<and> unat (ReorgDepth c chainID) < unat (latestBlocks t chainID) - unat n
          else Expiry e = unix_milli (now + ttl))
    \<and> (n = 0 \<longrightarrow> BlockHash e = latestHashes t chainID \<and> BlockNum e = latestBlocks t chainID)
    \<and> (n \<noteq> 0 \<longrightarrow> BlockHash e = h \<and> BlockNum e = n)
    \<and> (unix_milli (now + ttl) - unix_milli now2 \<le> TTLLatest c div 1000000 \<and> Expiry e \<noteq> max_int64
        \<longrightarrow> shortLived now2 c e)"
proof -
  have "unat (ReorgDepth c chainID) < unat (latestBlocks t chainID) - unat n"
    if "n < latestBlocks t chainID" and "ReorgDepth c chainID < latestBlocks t chainID - n"
    using that by (simp add: word_less_nat_alt unat_sub word_le_nat_alt)
  then show ?thesis
    using assms
    by (cases "0 < n \<and> n < latestBlocks t chainID \<and> ReorgDepth c chainID < latestBlocks t chainID - n")
       (auto simp: put_entry_def Let_def shortLived_def word_gt_0)
qed

theorem Put_entry_lifetime_witness:
  "Expiry (put_entry sample_cache_cfg (record_block sample_cache_cfg ''1'' 1000 ''0xaa'' empty_tracker)
      0 (ReturnBytes []) 1000000 ''1'' 100 ''0xbb'') = max_int64
   \<and> (100 :: u64) < latestBlocks (record_block sample_cache_cfg ''1'' 1000 ''0xaa'' empty_tracker) ''1''"
proof -
  let ?t = "record_block sample_cache_cfg ''1'' 1000 ''0xaa'' empty_tracker"
  have l: "latestBlocks ?t ''1'' = 1000" by (simp add: record_block_latest empty_tracker_def)
  have "ReorgDepth sample_cache_cfg ''1'' = 64"
    by (simp add: ReorgDepth_def chain_config_def sample_cache_cfg_def)
  then have "Expiry (put_entry sample_cache_cfg ?t 0 (ReturnBytes []) 1000000 ''1'' 100 ''0xbb'') = max_int64"
    by (simp add: put_entry_def Let_def l)
  then show ?thesis
    using Put_entry_lifetime [of sample_cache_cfg ?t 0 "ReturnBytes []" 1000000 "''1''" 100 "''0xbb''" _ 0]
    by (simp add: unix_milli_def max_int64_def)
qed

subsection \<open>Reorganizations\<close>

lemma purge_fold:
  assumes "lawful ops"
  shows "mem_peek ops k (foldl (\<lambda>m' key. case mem_peek ops key m' of None \<Rightarrow> m'
            | Some e \<Rightarrow> if ChainID e = c then mem_remove ops key m' else m') m ks)
       = (case mem_peek ops k m of None \<Rightarrow> None
          | Some e \<Rightarrow> if ChainID e = c \<and> k \<in> set ks then None else Some e)"
proof (induction ks arbitrary: m)
  case Nil
  then show ?case by (simp split: option.split)
next
  case (Cons key ks)
  show ?case
    using lawful_mem(5) [OF assms] by (auto simp: Cons.IH split: option.split)
qed

lemma purge_peek:
  assumes "lawful ops"
  shows "mem_peek ops k (purgeChain ops c m)
       = (case mem_peek ops k m of None \<Rightarrow> None | Some e \<Rightarrow> if ChainID e = c then None else Some e)"
  using purge_fold [OF assms, of k c m "mem_keys ops m"] lawful_mem(6) [OF assms, of k m]
  by (auto simp: purgeChain_def split: option.splits)

text \<open>
  C33. A reorganization of one chain empties the memory tier of that chain's entries and leaves every
  entry of another chain, and the durable tier, as they are; without one no entry is touched. In
  either case the reported block is recorded.
\<close>

theorem UpdateLatestBlock_purges:
  assumes "lawful ops" and "mem s = Some m"
  shows "\<exists>m'. mem (UpdateLatestBlock ops c n h blockData s) = Some m'
    \<and> db (UpdateLatestBlock ops c n h blockData s) = db s
    \<and> track (UpdateLatestBlock ops c n h blockData s) = record_block (cfg s) c n h (track s)
    \<and> (\<forall>k. mem_peek ops k m' =
          (case mem_peek ops k m of
             None \<Rightarrow> None
           | Some e \<Rightarrow> if detectReorg (track s) c n h blockData \<and> ChainID e = c then None else Some e))"
  using purge_peek [OF assms(1), of _ c m] assms(2)
  by (auto simp: UpdateLatestBlock_def Let_def split: option.split)

lemma UpdateLatestBlock_all:
  assumes "lawful ops" and "all_entries ops P s"
  shows "all_entries ops P (UpdateLatestBlock ops c n h blockData s)"
proof (cases "mem s")
  case None
  then show ?thesis using assms(2) by (auto simp: all_entries_def holds_def UpdateLatestBlock_def Let_def)
next
  case (Some m)
  then show ?thesis
    using purge_peek [OF assms(1), of _ c m] assms(2)
    by (auto simp: all_entries_def holds_def UpdateLatestBlock_def Let_def split: option.splits if_splits)
qed

subsection \<open>A pair of tiers that meets the contract\<close>

text \<open>An LRU as a list, most recent first, bounded by its capacity; a durable map.\<close>

definition lru_touch :: "string \<Rightarrow> (string \<times> entry) list \<Rightarrow> (string \<times> entry) list" where
  "lru_touch k xs = (case map_of xs k of None \<Rightarrow> xs | Some e \<Rightarrow> (k, e) # AList.delete k xs)"

definition sample_tiers :: "nat \<Rightarrow> ((string \<times> entry) list, string \<Rightarrow> entry option) tiers" where
  "sample_tiers cap =
     \<lparr>mem_get = (\<lambda>k xs. (lru_touch k xs, map_of xs k)),
      mem_peek = (\<lambda>k xs. map_of xs k),
      mem_add = (\<lambda>k e xs. (k, e) # take cap (AList.delete k xs)),
      mem_remove = AList.delete,
      mem_keys = map fst,
      db_get = (\<lambda>k d. d k),
      db_set = (\<lambda>k e d. d(k \<mapsto> e)),
      db_delete = (\<lambda>k d. d(k := None))\<rparr>"

lemma map_of_take: "map_of (take n xs) k \<in> {None, map_of xs k}"
  by (induction xs arbitrary: n) (auto simp: take_Cons' split: if_splits)

lemma lawful_sample: "lawful (sample_tiers cap)"
proof -
  have "map_of (take n (AList.delete k xs)) k' \<in> {None, map_of xs k'}" if "k' \<noteq> k"
    for n k k' and xs :: "(string \<times> entry) list"
    using map_of_take [of n "AList.delete k xs" k'] that by (simp add: delete_conv')
  moreover have "map_of (lru_touch k xs) k' = map_of xs k'" for k k' and xs :: "(string \<times> entry) list"
    by (auto simp: lru_touch_def delete_conv' split: option.split)
  ultimately show ?thesis
    by (simp add: lawful_def sample_tiers_def delete_conv' map_of_eq_None_iff)
qed

lemma sample_tiers_peek [simp]: "mem_peek (sample_tiers cap) k xs = map_of xs k"
  by (simp add: sample_tiers_def)

definition sample_entry :: entry where
  "sample_entry =
     \<lparr>Expiry = 10, Body = ReturnBytes [1], ChainID = ''1'', BlockHash = [], BlockNum = 0\<rparr>"

definition sample_store :: "((string \<times> entry) list, string \<Rightarrow> entry option) store" where
  "sample_store =
     \<lparr>cfg = sample_cache_cfg, mem = Some [], db = Some [''k'' \<mapsto> sample_entry], track = empty_tracker\<rparr>"

theorem Get_serves_valid_witness:
  "served (sample_tiers 10) 5000000 ''k'' sample_store (ReturnBytes [1])"
proof -
  have "Get (sample_tiers 10) 5000000 ''k'' sample_store
      = (Some (ReturnBytes [1]), sample_store\<lparr>mem := Some [(''k'', sample_entry)]\<rparr>)"
    by (simp add: Get_def get_db_def sample_store_def sample_tiers_def sample_cache_cfg_def lru_touch_def
        sample_entry_def unix_milli_def entry_valid_def IsBlockHashValid_def)
  from Get_serves_valid [OF lawful_sample this] show ?thesis by blast
qed

definition two_chain_store :: "((string \<times> entry) list, string \<Rightarrow> entry option) store" where
  "two_chain_store =
     \<lparr>cfg = sample_cache_cfg,
      mem = Some [(''a'', sample_entry), (''b'', sample_entry\<lparr>ChainID := ''10''\<rparr>)], db = Some Map.empty,
      track = record_block sample_cache_cfg ''1'' 100 ''0xaa'' empty_tracker\<rparr>"

theorem UpdateLatestBlock_purges_witness:
  "mem (UpdateLatestBlock (sample_tiers 10) ''1'' 100 ''0xbb'' None two_chain_store)
     \<noteq> mem two_chain_store"
proof -
  let ?m = "[(''a'', sample_entry), (''b'', sample_entry\<lparr>ChainID := ''10''\<rparr>)]"
  have "map_of (blockHashes (track two_chain_store) ''1'') 100 = Some ''0xaa''"
    unfolding two_chain_store_def store.simps
    by (rule record_block_hash) (simp add: record_block_latest empty_tracker_def ReorgDepth_def
        chain_config_def sample_cache_cfg_def word_less_nat_alt)
  then have r: "detectReorg (track two_chain_store) ''1'' 100 ''0xbb'' None"
    by (simp add: detectReorg_def Let_def)
  have m: "mem two_chain_store = Some ?m" by (simp add: two_chain_store_def)
  obtain m' where "mem (UpdateLatestBlock (sample_tiers 10) ''1'' 100 ''0xbb'' None two_chain_store) = Some m'"
    and "mem_peek (sample_tiers 10) ''a'' m' = None"
    using UpdateLatestBlock_purges [OF lawful_sample [of 10] m, where c = "''1''" and n = 100 and h = "''0xbb''"
        and blockData = None] r
    by (auto simp: sample_entry_def)
  then show ?thesis by (auto simp: m)
qed

end
