(* ===== verification/Cache_Serve.thy ===== *)
theory Cache_Serve
  imports Cache_Store Multicall
begin

text \<open>
  Serving and filling the cache, \<open>internal/backend/cache.go\<close>: \<open>Lookup\<close> and \<open>Store\<close> for single
  requests, the forever-cache of immutable sub-calls that a multicall is served from in full
  (\<open>serveMulticall\<close>) or in part (\<open>PlanMulticall\<close>, \<open>CompleteMulticall\<close>). The readings of the clock in
  one operation are numbered: \<open>clock k\<close> is the \<open>k\<close>-th.
\<close>

section \<open>Responses\<close>

text \<open>The bytes of an entry, as a response and as return data; keys keep the two apart.\<close>

definition as_return :: "cached \<Rightarrow> bytes" where
  "as_return b =
     (case b of
        ReturnBytes bs \<Rightarrow> bs
      | Response r \<Rightarrow> (case r of None \<Rightarrow> [] | Some j \<Rightarrow> string_bytes (print_json j)))"

definition as_response :: "cached \<Rightarrow> raw" where
  "as_response b = (case b of Response r \<Rightarrow> r | ReturnBytes bs \<Rightarrow> None)"

definition rpc_result :: "raw \<Rightarrow> string \<Rightarrow> json" where
  "rpc_result i s =
     JObj [(''jsonrpc'', jstring ''2.0''), (''id'', marshal_raw i), (''result'', jstring s)]"

definition rpcRevertResponse :: "raw \<Rightarrow> json" where
  "rpcRevertResponse i =
     JObj [(''jsonrpc'', jstring ''2.0''), (''id'', marshal_raw i),
           (''error'', rpc_error 3 ''execution reverted'')]"

text \<open>
  The body is decoded into a map; a body \<open>null\<close> leaves the map nil, and the assignment to it panics.
\<close>

definition RewriteResponseID :: "raw \<Rightarrow> raw \<Rightarrow> (unit, raw) outcome" where
  "RewriteResponseID response i =
     (case response of
        Some (JObj ms) \<Rightarrow>
          (let fields = put_member ''id'' (case i of None \<Rightarrow> JNull | Some j \<Rightarrow> j) (go_map (\<lambda>v. v) ms)
           in Done (Some (sorted_members (map (\<lambda>(k, v). (k, html_escape v)) fields))))
      | Some JNull \<Rightarrow> Panic
      | _ \<Rightarrow> Done response)"

section \<open>Single requests\<close>

text \<open>
  \<open>cacheImmutableCall\<close>: a result is kept forever; a revert (code 3) for the negative window.
\<close>

definition cacheImmutableCall ::
  "(bytes \<Rightarrow> bytes) \<Rightarrow> ('m, 'd) tiers \<Rightarrow> int \<Rightarrow> string \<Rightarrow> bytes \<Rightarrow> bytes \<Rightarrow> raw
     \<Rightarrow> ('m, 'd) store \<Rightarrow> ('m, 'd) store" where
  "cacheImmutableCall H ops now chain target callData response s =
     (case as_struct response of
        None \<Rightarrow> s
      | Some ms \<Rightarrow>
        (case string_ptr_field ''result'' ms of
           None \<Rightarrow> s
         | Some (Some res) \<Rightarrow>
             PutImmortal ops (subCallKey H chain target callData) (ReturnBytes (hexToBytes res)) chain s
         | Some None \<Rightarrow>
             (case raw_field ''error'' ms of
                None \<Rightarrow> s
              | Some e \<Rightarrow>
                (if Option.bind (as_struct (Some e)) (int_field ''code'') = Some 3
                 then putNegative H ops now chain target callData s else s))))"

section \<open>Sub-calls\<close>

fun cache_results ::
  "(bytes \<Rightarrow> bytes) \<Rightarrow> ('m, 'd) tiers \<Rightarrow> (nat \<Rightarrow> int) \<Rightarrow> string \<Rightarrow> nat \<Rightarrow> (call3 \<times> multicallResult) list
     \<Rightarrow> ('m, 'd) store \<Rightarrow> ('m, 'd) store" where
  "cache_results H ops clock chain i [] s = s"
| "cache_results H ops clock chain i ((c, r) # crs) s =
     cache_results H ops clock chain (Suc i) crs
       (if \<not> isImmutableSelector (CallData c) then s
        else if Success r
        then PutImmortal ops (subCallKey H chain (Target c) (CallData c)) (ReturnBytes (ReturnData r)) chain s
        else putNegative H ops (clock i) chain (Target c) (CallData c) s)"

definition cacheMulticallSubcalls ::
  "(bytes \<Rightarrow> bytes) \<Rightarrow> ('m, 'd) tiers \<Rightarrow> (nat \<Rightarrow> int) \<Rightarrow> string \<Rightarrow> call3 list \<Rightarrow> raw
     \<Rightarrow> ('m, 'd) store \<Rightarrow> (unit, ('m, 'd) store) outcome" where
  "cacheMulticallSubcalls H ops clock chain calls response s =
     (case Option.bind (as_struct response) (string_field ''result'') of
        None \<Rightarrow> Done s
      | Some res \<Rightarrow>
        if res = [] then Done s
        else
          (case decodeAggregate3Result res of
             Panic \<Rightarrow> Panic
           | Fail e \<Rightarrow> Done s
           | Done results \<Rightarrow>
               if length results \<noteq> length calls then Done s
               else Done (cache_results H ops clock chain 0 (zip calls results) s)))"

text \<open>
  One cached sub-call: the answer kept under its key, or the failure kept under the negative key.
\<close>

definition cached_sub_call ::
  "(bytes \<Rightarrow> bytes) \<Rightarrow> ('m, 'd) tiers \<Rightarrow> (nat \<Rightarrow> int) \<Rightarrow> string \<Rightarrow> nat \<Rightarrow> call3
     \<Rightarrow> ('m, 'd) store \<Rightarrow> multicallResult option \<times> ('m, 'd) store" where
  "cached_sub_call H ops clock chain i c s =
     (case Get ops (clock (2 * i)) (subCallKey H chain (Target c) (CallData c)) s of
        (Some body, s1) \<Rightarrow> (Some \<lparr>Success = True, ReturnData = as_return body\<rparr>, s1)
      | (None, s1) \<Rightarrow>
        (case negativeCached H ops (clock (2 * i + 1)) chain (Target c) (CallData c) s1 of
           (True, s2) \<Rightarrow> (Some \<lparr>Success = False, ReturnData = []\<rparr>, s2)
         | (False, s2) \<Rightarrow> (None, s2)))"

fun serve_calls ::
  "(bytes \<Rightarrow> bytes) \<Rightarrow> ('m, 'd) tiers \<Rightarrow> (nat \<Rightarrow> int) \<Rightarrow> string \<Rightarrow> nat \<Rightarrow> call3 list
     \<Rightarrow> ('m, 'd) store \<Rightarrow> multicallResult list option \<times> ('m, 'd) store" where
  "serve_calls H ops clock chain i [] s = (Some [], s)"
| "serve_calls H ops clock chain i (c # cs) s =
     (if \<not> isImmutableSelector (CallData c) then (None, s)
      else
        (case cached_sub_call H ops clock chain i c s of
           (None, s1) \<Rightarrow> (None, s1)
         | (Some r, s1) \<Rightarrow>
           (case serve_calls H ops clock chain (Suc i) cs s1 of
              (None, s2) \<Rightarrow> (None, s2)
            | (Some rs, s2) \<Rightarrow> (Some (r # rs), s2))))"

definition serveMulticall ::
  "(bytes \<Rightarrow> bytes) \<Rightarrow> ('m, 'd) tiers \<Rightarrow> (nat \<Rightarrow> int) \<Rightarrow> string \<Rightarrow> raw \<Rightarrow> call3 list
     \<Rightarrow> ('m, 'd) store \<Rightarrow> (unit, raw) outcome \<times> ('m, 'd) store" where
  "serveMulticall H ops clock chain i calls s =
     (case serve_calls H ops clock chain 0 calls s of
        (None, s1) \<Rightarrow> (Fail (), s1)
      | (Some results, s1) \<Rightarrow>
          (Done (Some (rpc_result i (hex0x (encodeAggregate3Result results)))), s1))"

section \<open>Lookup and Store\<close>

definition Lookup ::
  "(bytes \<Rightarrow> bytes) \<Rightarrow> (string \<Rightarrow> string) \<Rightarrow> ('m, 'd) tiers \<Rightarrow> (nat \<Rightarrow> int) \<Rightarrow> string \<Rightarrow> string \<Rightarrow> raw \<Rightarrow> raw
     \<Rightarrow> ('m, 'd) store \<Rightarrow> (unit, raw) outcome \<times> ('m, 'd) store" where
  "Lookup H fnum ops clock chain mth params i s =
     (if \<not> CEnabled (cfg s) then (Fail (), s)
      else
        (let parsed = (if mth = ''eth_call'' then parseEthCallParams params else None) in
         case (case parsed of None \<Rightarrow> Fail () | Some p \<Rightarrow> decodeMulticallParsed p) of
           Panic \<Rightarrow> (Panic, s)
         | Done calls \<Rightarrow> serveMulticall H ops clock chain i calls s
         | Fail u \<Rightarrow>
             (case decodeImmutableCallFrom parsed of
                Some (target, callData) \<Rightarrow>
                  (case Get ops (clock 0) (subCallKey H chain target callData) s of
                     (Some body, s1) \<Rightarrow> (Done (Some (rpc_result i (hex0x (as_return body)))), s1)
                   | (None, s1) \<Rightarrow>
                     (case negativeCached H ops (clock 1) chain target callData s1 of
                        (True, s2) \<Rightarrow> (Done (Some (rpcRevertResponse i)), s2)
                      | (False, s2) \<Rightarrow> (Fail (), s2)))
              | None \<Rightarrow>
                  (if TTL mth params (cfg s) \<le> 0 then (Fail (), s)
                   else
                     (case Get ops (clock 0) (lookup_key H fnum chain mth params) s of
                        (Some body, s1) \<Rightarrow> (RewriteResponseID (as_response body) i, s1)
                      | (None, s1) \<Rightarrow> (Fail (), s1))))))"

definition StoreResponse ::
  "(bytes \<Rightarrow> bytes) \<Rightarrow> (string \<Rightarrow> string) \<Rightarrow> ('m, 'd) tiers \<Rightarrow> (nat \<Rightarrow> int) \<Rightarrow> string \<Rightarrow> string \<Rightarrow> raw \<Rightarrow> raw
     \<Rightarrow> ('m, 'd) store \<Rightarrow> (unit, ('m, 'd) store) outcome" where
  "StoreResponse H fnum ops clock chain mth params response s =
     (if \<not> CEnabled (cfg s) then Done s
      else
        (case decodeMulticall mth params of
           Panic \<Rightarrow> Panic
         | Done calls \<Rightarrow> cacheMulticallSubcalls H ops clock chain calls response s
         | Fail u \<Rightarrow>
             (case decodeImmutableCall mth params of
                Some (target, callData) \<Rightarrow>
                  Done (cacheImmutableCall H ops (clock 0) chain target callData response s)
              | None \<Rightarrow>
                  (case AnswerTTL mth params response (cfg s) of (ttl, blockNum, blockHash) \<Rightarrow>
                     if ttl \<le> 0 then Done s
                     else Done (Put ops (clock 0) (clock 1) (lookup_key H fnum chain mth params)
                                  (Response response) ttl chain blockNum blockHash s)))))"

section \<open>Partly cached multicalls\<close>

record MulticallPlan =
  plan_id :: raw
  plan_calls :: "call3 list"
  plan_results :: "multicallResult list"
  missIndices :: "nat list"
  ReducedBody :: json

text \<open>
  The loop of \<open>PlanMulticall\<close>: the results so far known (empty ones for the misses) and the positions
  of the misses.
\<close>

fun plan_loop ::
  "(bytes \<Rightarrow> bytes) \<Rightarrow> ('m, 'd) tiers \<Rightarrow> (nat \<Rightarrow> int) \<Rightarrow> string \<Rightarrow> nat \<Rightarrow> call3 list
     \<Rightarrow> ('m, 'd) store \<Rightarrow> multicallResult list \<times> nat list \<times> ('m, 'd) store" where
  "plan_loop H ops clock chain i [] s = ([], [], s)"
| "plan_loop H ops clock chain i (c # cs) s =
     (case (if isImmutableSelector (CallData c) then cached_sub_call H ops clock chain i c s else (None, s)) of
        (found, s1) \<Rightarrow>
          (case plan_loop H ops clock chain (Suc i) cs s1 of (rs, miss, s2) \<Rightarrow>
             (case found of
                Some r \<Rightarrow> (r # rs, miss, s2)
              | None \<Rightarrow> (\<lparr>Success = False, ReturnData = []\<rparr> # rs, i # miss, s2))))"

definition PlanMulticall ::
  "(bytes \<Rightarrow> bytes) \<Rightarrow> ('m, 'd) tiers \<Rightarrow> (nat \<Rightarrow> int) \<Rightarrow> string \<Rightarrow> string \<Rightarrow> raw \<Rightarrow> raw
     \<Rightarrow> ('m, 'd) store \<Rightarrow> (unit, MulticallPlan) outcome \<times> ('m, 'd) store" where
  "PlanMulticall H ops clock chain mth params i s =
     (if \<not> CEnabled (cfg s) then (Fail (), s)
      else
        (case decodeMulticall mth params of
           Panic \<Rightarrow> (Panic, s)
         | Fail u \<Rightarrow> (Fail (), s)
         | Done calls \<Rightarrow>
           (case parseEthCallParams params of
              None \<Rightarrow> (Fail (), s)
            | Some parsed \<Rightarrow>
              (case plan_loop H ops clock chain 0 calls s of (results, missing, s1) \<Rightarrow>
                 if missing = [] \<or> length missing = length calls then (Fail (), s1)
                 else
                   (Done \<lparr>plan_id = i, plan_calls = calls, plan_results = results, missIndices = missing,
                      ReducedBody = buildMulticallBody i (To (CallParams parsed)) (BlockTag parsed)
                        (encodeAggregate3 (map (\<lambda>j. calls ! j) missing))\<rparr>, s1)))))"

text \<open>The merge: the result of the \<open>j\<close>-th miss goes to its position.\<close>

fun merge_results :: "multicallResult list \<Rightarrow> (nat \<times> multicallResult) list \<Rightarrow> multicallResult list" where
  "merge_results rs [] = rs"
| "merge_results rs ((idx, r) # prs) = merge_results (rs[idx := r]) prs"

definition CompleteMulticall ::
  "(bytes \<Rightarrow> bytes) \<Rightarrow> ('m, 'd) tiers \<Rightarrow> (nat \<Rightarrow> int) \<Rightarrow> string \<Rightarrow> MulticallPlan \<Rightarrow> raw
     \<Rightarrow> ('m, 'd) store \<Rightarrow> (unit, raw) outcome \<times> ('m, 'd) store" where
  "CompleteMulticall H ops clock chain plan reducedResponse s =
     (case as_struct reducedResponse of
        None \<Rightarrow> (Fail (), s)
      | Some ms \<Rightarrow>
        (case string_field ''result'' ms of
           None \<Rightarrow> (Fail (), s)
         | Some res \<Rightarrow>
           if raw_field ''error'' ms \<noteq> None \<or> res = [] then (Fail (), s)
           else
             (case decodeAggregate3Result res of
                Panic \<Rightarrow> (Panic, s)
              | Fail e \<Rightarrow> (Fail (), s)
              | Done missResults \<Rightarrow>
                if length missResults \<noteq> length (missIndices plan) then (Fail (), s)
                else
                  (let pairs = zip (missIndices plan) missResults;
                       s1 = cache_results H ops clock chain 0
                              (map (\<lambda>(idx, r). (plan_calls plan ! idx, r)) pairs) s;
                       results = merge_results (plan_results plan) pairs
                   in (Done (Some (rpc_result (plan_id plan) (hex0x (encodeAggregate3Result results)))), s1)))))"

end
