(* ===== verification/Cache_Truth.thy ===== *)
theory Cache_Truth
  imports Cache_Serve
begin

text \<open>
  What the sub-call cache may answer, and that every operation of \<open>Cache_Serve\<close> keeps it so: an
  entry under the key of an immutable read holds the result the contract gives, and a multicall
  answered from the cache, in full or in part, is the one the node would have answered.
\<close>

section \<open>The invariant of the entries\<close>

text \<open>
  The result of an immutable read, from the chain, the contract and the calldata alone; and the calls
  one store ever sees, the digests of which do not collide.
\<close>

type_synonym read_result = "string \<Rightarrow> bytes \<Rightarrow> bytes \<Rightarrow> multicallResult"
type_synonym sub_call = "string \<times> bytes \<times> bytes"

definition distinguished :: "(bytes \<Rightarrow> bytes) \<Rightarrow> sub_call set \<Rightarrow> bool" where
  "distinguished H U \<longleftrightarrow>
     collision_free H ((\<lambda>(c, t, d). sub_preimage c t d) ` U) \<and> (\<forall>(c, t, d) \<in> U. no_nul c \<and> length t = 20)"

definition sub_entry_ok ::
  "(bytes \<Rightarrow> bytes) \<Rightarrow> sub_call set \<Rightarrow> read_result \<Rightarrow> string \<Rightarrow> entry \<Rightarrow> bool" where
  "sub_entry_ok H U truth k e \<longleftrightarrow>
     (\<forall>(c, t, d) \<in> U.
        (k = subCallKey H c t d \<longrightarrow> Success (truth c t d) \<and> Body e = ReturnBytes (ReturnData (truth c t d)))
      \<and> (k = subCallNegKey H c t d \<longrightarrow> \<not> Success (truth c t d)))"

text \<open>The cache keeps no revert data: a failed read is served with empty return data.\<close>

definition visible :: "multicallResult \<Rightarrow> multicallResult" where
  "visible r = (if Success r then r else \<lparr>Success = False, ReturnData = []\<rparr>)"

definition sub_calls :: "string \<Rightarrow> call3 list \<Rightarrow> sub_call set" where
  "sub_calls chain calls = (\<lambda>c. (chain, Target c, CallData c)) ` set calls"

lemma sub_calls_simps [simp]:
  "sub_calls chain [] = {}"
  "sub_calls chain (c # cs) = insert (chain, Target c, CallData c) (sub_calls chain cs)"
  by (simp_all add: sub_calls_def)

lemma same_sub_call:
  assumes "distinguished H U" and "(c, t, d) \<in> U" and "(c', t', d') \<in> U"
  shows "subCallKey H c t d = subCallKey H c' t' d' \<longleftrightarrow> c = c' \<and> t = t' \<and> d = d'"
    and "subCallNegKey H c t d = subCallNegKey H c' t' d' \<longleftrightarrow> c = c' \<and> t = t' \<and> d = d'"
proof -
  have inj: "inj_on H ((\<lambda>(c, t, d). sub_preimage c t d) ` U)"
    and wf: "no_nul c" "no_nul c'" and l: "length t = 20" "length t' = 20"
    using assms by (auto simp: distinguished_def collision_free_def)
  have "H (sub_preimage c t d) = H (sub_preimage c' t' d') \<longleftrightarrow> sub_preimage c t d = sub_preimage c' t' d'"
    by (rule inj_on_eq_iff [OF inj]) (use assms(2,3) in force)+
  also have "\<dots> \<longleftrightarrow> c = c' \<and> t = t' \<and> d = d'"
    using sub_preimage_inj [OF _ wf trans [OF l(1) l(2) [symmetric]]] by blast
  finally have h: "H (sub_preimage c t d) = H (sub_preimage c' t' d') \<longleftrightarrow> c = c' \<and> t = t' \<and> d = d'" .
  show "subCallKey H c t d = subCallKey H c' t' d' \<longleftrightarrow> c = c' \<and> t = t' \<and> d = d'"
    and "subCallNegKey H c t d = subCallNegKey H c' t' d' \<longleftrightarrow> c = c' \<and> t = t' \<and> d = d'"
    by (simp_all add: subCallKey_def subCallNegKey_def hex_encode_inj h)
qed

text \<open>What may be written.\<close>

lemma sub_entry_ok_result:
  assumes "distinguished H U" and "(c, t, d) \<in> U" and "Success (truth c t d)"
  shows "sub_entry_ok H U truth (subCallKey H c t d)
    \<lparr>Expiry = x, Body = ReturnBytes (ReturnData (truth c t d)), ChainID = c, BlockHash = b, BlockNum = n\<rparr>"
  using assms same_sub_call(1) [OF assms(1,2)] subCallKey_neq_Neg
  by (auto simp: sub_entry_ok_def)

lemma sub_entry_ok_failure:
  assumes "distinguished H U" and "(c, t, d) \<in> U" and "\<not> Success (truth c t d)"
  shows "sub_entry_ok H U truth (subCallNegKey H c t d) e"
  using assms same_sub_call(2) [OF assms(1,2)] subCallKey_neq_Neg
  by (auto simp: sub_entry_ok_def dest: sym)

lemma sub_entry_ok_request: "sub_entry_ok H U truth (lookup_key H fnum c m p) e"
  using lookup_key_neq_sub by (auto simp: sub_entry_ok_def)

section \<open>Reading\<close>

lemma cached_sub_call_sound:
  assumes "lawful ops" and "all_entries ops (sub_entry_ok H U truth) s"
    and "(chain, Target c, CallData c) \<in> U" and "cached_sub_call H ops clock chain i c s = (found, s')"
  shows "only_forgets ops s s'
    \<and> (\<forall>r. found = Some r \<longrightarrow> r = visible (truth chain (Target c) (CallData c)))"
proof -
  let ?k = "subCallKey H chain (Target c) (CallData c)" and ?n = "subCallNegKey H chain (Target c) (CallData c)"
  obtain b s1 where g: "Get ops (clock (2 * i)) ?k s = (b, s1)" by fastforce
  note s1 = Get_sound [OF assms(1) g]
  have hit: "Success (truth chain (Target c) (CallData c))
      \<and> body = ReturnBytes (ReturnData (truth chain (Target c) (CallData c)))"
    if "served ops now ?k s body" for now body
    using that assms(2,3) by (fastforce simp: served_def all_entries_def sub_entry_ok_def)
  have neg: "\<not> Success (truth chain (Target c) (CallData c))" if "served ops now ?n s1 body" for now body
    using that only_forgets_all [OF _ assms(2)] s1 assms(3)
    by (fastforce simp: served_def all_entries_def sub_entry_ok_def)
  show ?thesis
  proof (cases b)
    case (Some body)
    then have "served ops (clock (2 * i)) ?k s body" using s1 by blast
    from hit [OF this] show ?thesis
      using assms(4) g Some s1 by (auto simp: cached_sub_call_def visible_def as_return_def)
  next
    case None
    obtain f s2 where n: "Get ops (clock (2 * i + 1)) ?n s1 = (f, s2)" by fastforce
    note s2 = Get_sound [OF assms(1) n]
    have f2: "only_forgets ops s s2" using s1 s2 only_forgets_trans by blast
    show ?thesis
    proof (cases f)
      case None
      then show ?thesis
        using assms(4) g n s1 f2 \<open>b = None\<close>
        by (auto simp: cached_sub_call_def negativeCached_def split: if_splits)
    next
      case (Some body)
      then have "served ops (clock (2 * i + 1)) ?n s1 body" using s2 by blast
      from neg [OF this] show ?thesis
        using assms(4) g n s1 f2 \<open>b = None\<close> Some
        by (auto simp: cached_sub_call_def negativeCached_def visible_def split: if_splits)
    qed
  qed
qed

lemma serve_calls_sound:
  assumes "lawful ops" and "all_entries ops (sub_entry_ok H U truth) s" and "sub_calls chain calls \<subseteq> U"
    and "serve_calls H ops clock chain i calls s = (r, s')"
  shows "only_forgets ops s s'
    \<and> (\<forall>rs. r = Some rs \<longrightarrow> rs = map (\<lambda>c. visible (truth chain (Target c) (CallData c))) calls
          \<and> list_all (\<lambda>c. isImmutableSelector (CallData c)) calls)"
  using assms(2-)
proof (induction calls arbitrary: i s r s')
  case Nil
  then show ?case by auto
next
  case (Cons c cs)
  show ?case
  proof (cases "isImmutableSelector (CallData c)")
    case False
    then show ?thesis using Cons.prems by simp
  next
    case imm: True
    obtain f s1 where f: "cached_sub_call H ops clock chain i c s = (f, s1)" by fastforce
    note c = cached_sub_call_sound [OF assms(1) Cons.prems(1) _ f]
    have u: "(chain, Target c, CallData c) \<in> U" "sub_calls chain cs \<subseteq> U" using Cons.prems(2) by auto
    show ?thesis
    proof (cases f)
      case None
      then show ?thesis using Cons.prems(3) imm f c u by auto
    next
      case (Some x)
      obtain r' s2 where t: "serve_calls H ops clock chain (Suc i) cs s1 = (r', s2)" by fastforce
      have "all_entries ops (sub_entry_ok H U truth) s1" using only_forgets_all Cons.prems(1) c u by blast
      note IH = Cons.IH [OF this u(2) t]
      then show ?thesis
        using Cons.prems(3) imm f c u Some t only_forgets_trans [of ops s s1 s']
        by (auto split: option.splits)
    qed
  qed
qed

text \<open>
  C25. A multicall answered from the cache alone carries, for each of its calls in order, the result
  the contract gives (a failed call with empty return data), and consists of immutable reads only;
  reading keeps the entries truthful.
\<close>

theorem multicall_served_truthful:
  assumes "lawful ops" and "all_entries ops (sub_entry_ok H U truth) s" and "sub_calls chain calls \<subseteq> U"
    and "serveMulticall H ops clock chain i calls s = (Done answer, s')"
  shows "answer = Some (rpc_result i (hex0x (encodeAggregate3Result
             (map (\<lambda>c. visible (truth chain (Target c) (CallData c))) calls))))
    \<and> list_all (\<lambda>c. isImmutableSelector (CallData c)) calls
    \<and> all_entries ops (sub_entry_ok H U truth) s'"
proof -
  obtain r s1 where r: "serve_calls H ops clock chain 0 calls s = (r, s1)" by fastforce
  note sc = serve_calls_sound [OF assms(1-3) r]
  show ?thesis
    using assms(4) r sc only_forgets_all [OF _ assms(2)]
    by (cases r) (auto simp: serveMulticall_def)
qed

section \<open>Writing\<close>

text \<open>The results of calls are truthful where the calls are immutable reads.\<close>

definition immutable_results ::
  "sub_call set \<Rightarrow> read_result \<Rightarrow> string \<Rightarrow> (call3 \<times> multicallResult) list \<Rightarrow> bool" where
  "immutable_results U truth chain crs \<longleftrightarrow>
     (\<forall>(c, r) \<in> set crs. isImmutableSelector (CallData c) \<longrightarrow>
        (chain, Target c, CallData c) \<in> U \<and> r = truth chain (Target c) (CallData c))"

lemma cache_results_truthful:
  assumes "lawful ops" and "distinguished H U"
    and "all_entries ops (sub_entry_ok H U truth) s" and "immutable_results U truth chain crs"
  shows "all_entries ops (sub_entry_ok H U truth) (cache_results H ops clock chain i crs s)"
  using assms(3,4)
proof (induction crs arbitrary: i s)
  case Nil
  then show ?case by simp
next
  case (Cons cr crs)
  obtain c r where cr: "cr = (c, r)" by fastforce
  have tl: "immutable_results U truth chain crs" using Cons.prems(2) by (simp add: immutable_results_def)
  have hd: "(chain, Target c, CallData c) \<in> U" "r = truth chain (Target c) (CallData c)"
    if "isImmutableSelector (CallData c)"
    using Cons.prems(2) that by (auto simp: immutable_results_def cr)
  have pos: "all_entries ops (sub_entry_ok H U truth)
      (PutImmortal ops (subCallKey H chain (Target c) (CallData c)) (ReturnBytes (ReturnData r)) chain s)"
    if "isImmutableSelector (CallData c)" and "Success r"
    using sub_entry_ok_result [OF assms(2) hd(1) [OF that(1)]] hd(2) [OF that(1)] that(2)
    by (intro PutImmortal_all assms(1) Cons.prems(1)) simp
  have neg: "all_entries ops (sub_entry_ok H U truth)
      (putNegative H ops now chain (Target c) (CallData c) s)"
    if "isImmutableSelector (CallData c)" and "\<not> Success r" for now
    using sub_entry_ok_failure [OF assms(2) hd(1) [OF that(1)]] hd(2) [OF that(1)] that(2)
    by (intro putNegative_all assms(1) Cons.prems(1)) simp
  show ?case
    unfolding cr cache_results.simps by (intro Cons.IH tl) (simp add: Cons.prems(1) pos neg)
qed

section \<open>Partly cached multicalls\<close>

lemma plan_loop_sound:
  assumes "lawful ops" and "all_entries ops (sub_entry_ok H U truth) s" and "sub_calls chain calls \<subseteq> U"
    and "plan_loop H ops clock chain i calls s = (rs, miss, s')"
  shows "only_forgets ops s s' \<and> length rs = length calls
    \<and> sorted_wrt (<) miss \<and> set miss \<subseteq> {i..<i + length calls}
    \<and> (\<forall>j < length calls. i + j \<notin> set miss \<longrightarrow>
          isImmutableSelector (CallData (calls ! j))
          \<and> rs ! j = visible (truth chain (Target (calls ! j)) (CallData (calls ! j))))"
  using assms(2-)
proof (induction calls arbitrary: i s rs miss)
  case Nil
  then show ?case by auto
next
  case (Cons c cs)
  let ?find = "if isImmutableSelector (CallData c) then cached_sub_call H ops clock chain i c s else (None, s)"
  obtain f s1 where f: "?find = (f, s1)" by fastforce
  have u: "(chain, Target c, CallData c) \<in> U" "sub_calls chain cs \<subseteq> U" using Cons.prems(2) by auto
  have c: "only_forgets ops s s1" "f = Some r \<Longrightarrow> isImmutableSelector (CallData c)
      \<and> r = visible (truth chain (Target c) (CallData c))" for r
    using f cached_sub_call_sound [OF assms(1) Cons.prems(1) u(1)] by (auto split: if_splits)
  obtain rs' miss' s2 where t: "plan_loop H ops clock chain (Suc i) cs s1 = (rs', miss', s2)"
    using prod_cases3 by blast
  have s2: "s2 = s'" and rs: "rs = (case f of Some r \<Rightarrow> r | None \<Rightarrow> \<lparr>Success = False, ReturnData = []\<rparr>) # rs'"
    and miss: "miss = (if f = None then i # miss' else miss')"
    using Cons.prems(3) f t by (auto split: option.splits)
  have "all_entries ops (sub_entry_ok H U truth) s1" using only_forgets_all c(1) Cons.prems(1) by blast
  note IH = Cons.IH [OF this u(2) t [unfolded s2]]
  have lower: "\<forall>k \<in> set miss'. i < k" using IH by force
  have "isImmutableSelector (CallData ((c # cs) ! j))
      \<and> rs ! j = visible (truth chain (Target ((c # cs) ! j)) (CallData ((c # cs) ! j)))"
    if jl: "j < length (c # cs)" and jm: "i + j \<notin> set miss" for j
  proof (cases j)
    case 0
    then obtain r where "f = Some r" using jm miss by (cases f) auto
    then show ?thesis using c(2) 0 rs by simp
  next
    case (Suc j')
    then have "Suc i + j' \<notin> set miss'" using jm miss by (auto split: if_splits)
    then show ?thesis using IH jl Suc rs by auto
  qed
  moreover have "only_forgets ops s s'" using only_forgets_trans c(1) IH by blast
  ultimately show ?case using IH lower rs miss by auto
qed

lemma length_merge_results [simp]: "length (merge_results rs prs) = length rs"
  by (induction rs prs rule: merge_results.induct) simp_all

lemma merge_results_other: "k \<notin> fst ` set prs \<Longrightarrow> merge_results rs prs ! k = rs ! k"
  by (induction rs prs rule: merge_results.induct) auto

lemma merge_results_at:
  assumes "distinct (map fst prs)" and "(k, r) \<in> set prs" and "k < length rs"
  shows "merge_results rs prs ! k = r"
  using assms
proof (induction rs prs rule: merge_results.induct)
  case (1 rs)
  then show ?case by simp
next
  case (2 rs idx r' prs)
  then show ?case by (auto simp: merge_results_other rev_image_eqI)
qed

text \<open>
  A node with a Multicall3 contract at the address \<open>mc\<close>, as the body of a plan meets it; \<open>call_at\<close> is the
  result of a call at a block tag. A call that fails and may not fail makes the whole call fail. Data are of
  a size that a node accepts.
\<close>

definition may_pass :: "(call3 \<Rightarrow> multicallResult) \<Rightarrow> call3 \<Rightarrow> bool" where
  "may_pass call c \<longleftrightarrow> Success (call c) \<or> AllowFailure c"

definition rpc_failure :: "raw \<Rightarrow> json \<Rightarrow> json" where
  "rpc_failure i e = JObj [(''jsonrpc'', jstring ''2.0''), (''id'', marshal_raw i), (''error'', e)]"

definition answering_node :: "bytes \<Rightarrow> (string \<Rightarrow> call3 \<Rightarrow> multicallResult) \<Rightarrow> (json \<Rightarrow> raw) \<Rightarrow> bool" where
  "answering_node mc call_at up \<longleftrightarrow>
     (\<forall>i to tag calls. names_address to mc \<and> wf_calls calls \<longrightarrow>
        (if list_all (may_pass (call_at tag)) calls
         then up (buildMulticallBody i to tag (encodeAggregate3 calls))
                = Some (rpc_result i (hex0x (encodeAggregate3Result (map (call_at tag) calls))))
         else \<exists>e. up (buildMulticallBody i to tag (encodeAggregate3 calls)) = Some (rpc_failure i e)))
     \<and> (\<forall>tag c. length (ReturnData (call_at tag c)) \<le> 2 ^ 20)"

definition small_calls :: "call3 list \<Rightarrow> bool" where
  "small_calls calls \<longleftrightarrow>
     length calls \<le> 10000 \<and> list_all (\<lambda>c. wf_call c \<and> length (CallData c) \<le> 2 ^ 20) calls"

lemma rpc_result_fields:
  "as_struct (Some (rpc_result i (hex0x b)))
     = Some [(''jsonrpc'', jstring ''2.0''), (''id'', marshal_raw i), (''result'', jstring (hex0x b))]"
  "string_field ''result'' [(''jsonrpc'', v), (''id'', w), (''result'', jstring (hex0x b))] = Some (hex0x b)"
  "raw_field ''error'' [(''jsonrpc'', v), (''id'', w), (''result'', z)] = None"
  by (simp_all add: rpc_result_def as_struct_def jstring_def field_values_def json_eval)

lemma PlanMulticall_Done:
  assumes "PlanMulticall H ops clock chain mth params i s = (Done plan, s1)"
    and "parseEthCallParams params = Some p"
  shows "CEnabled (cfg s) \<and> decodeMulticall mth params = Done (plan_calls plan)
    \<and> plan_loop H ops clock chain 0 (plan_calls plan) s = (plan_results plan, missIndices plan, s1)
    \<and> missIndices plan \<noteq> [] \<and> plan_id plan = i
    \<and> ReducedBody plan = buildMulticallBody i (To (CallParams p)) (BlockTag p)
          (encodeAggregate3 (map ((!) (plan_calls plan)) (missIndices plan)))"
  using assms by (auto simp: PlanMulticall_def split: if_splits outcome.splits option.splits prod.splits)

text \<open>
  C15. A multicall that the cache can answer in part is answered as the node answers it. For a request that
  is just a call of the Multicall3 contract at a block tag (no override, sender, value or gas setting, no
  block given by an object) whose calls may fail or succeed: the plan keeps the cached results, the reduced
  call asks the node for the others alone, and the merged response has, in the order of the calls, the
  results of the node's answer to the whole call, except that a failure that was cached comes without its
  return data. What is learned on the way is kept truthful.
\<close>

theorem partial_multicall_exact:
  assumes "lawful ops" and "distinguished H U" and "all_entries ops (sub_entry_ok H U truth) s"
    and "PlanMulticall H ops clock chain mth params i s = (Done plan, s1)"
    and "parseEthCallParams params = Some p" and "plain_params params tag mc d"
    and "sub_calls chain (plan_calls plan) \<subseteq> U" and "small_calls (plan_calls plan)"
    and "answering_node mc call_at up" and "list_all (may_pass (call_at tag)) (plan_calls plan)"
    and "\<forall>c \<in> set (plan_calls plan). isImmutableSelector (CallData c)
           \<longrightarrow> call_at tag c = truth chain (Target c) (CallData c)"
  shows "\<exists>ws rs s2. up (buildMulticallBody i (To (CallParams p)) tag (encodeAggregate3 (plan_calls plan)))
        = Some (rpc_result i (hex0x (encodeAggregate3Result ws)))
    \<and> CompleteMulticall H ops clock2 chain plan (up (ReducedBody plan)) s1
        = (Done (Some (rpc_result i (hex0x (encodeAggregate3Result rs)))), s2)
    \<and> decodeMulticall mth params = Done (plan_calls plan)
    \<and> length ws = length (plan_calls plan) \<and> length rs = length (plan_calls plan)
    \<and> list_all2 (\<lambda>(c, w) r. r = w
          \<or> isImmutableSelector (CallData c) \<and> \<not> Success w \<and> r = \<lparr>Success = False, ReturnData = []\<rparr>)
        (zip (plan_calls plan) ws) rs
    \<and> all_entries ops (sub_entry_ok H U truth) s2"
proof -
  let ?calls = "plan_calls plan" and ?miss = "missIndices plan"
  let ?mcalls = "map ((!) ?calls) ?miss"
  let ?res = "map (call_at tag) ?mcalls"
  let ?prs = "zip ?miss ?res"
  note P = PlanMulticall_Done [OF assms(4,5)]
  have to: "names_address (To (CallParams p)) mc" and tag: "BlockTag p = tag"
    using plain_params_parsed [OF assms(6)] assms(5) by auto
  have loop: "plan_loop H ops clock chain 0 ?calls s = (plan_results plan, ?miss, s1)" using P by blast
  note L = plan_loop_sound [OF assms(1,3,7) loop]
  have truthful: "all_entries ops (sub_entry_ok H U truth) s1" using only_forgets_all L assms(3) by blast
  have dist: "distinct ?miss" and range: "set ?miss \<subseteq> {..<length ?calls}"
    using L strict_sorted_iff [of ?miss] by auto
  have card: "length ?miss \<le> length ?calls"
    using card_mono [OF _ range] distinct_card [OF dist] by simp
  have mem: "c \<in> set ?calls" if "c \<in> set ?mcalls" for c using that range by auto
  have "wf_calls ?mcalls" "wf_calls ?calls"
    using P card mem range assms(8) by (auto intro!: wf_calls_small simp: small_calls_def list_all_iff)
  moreover have "list_all (may_pass (call_at tag)) ?mcalls" using assms(10) mem by (auto simp: list_all_iff)
  ultimately have up: "up (ReducedBody plan) = Some (rpc_result i (hex0x (encodeAggregate3Result ?res)))"
    and whole: "up (buildMulticallBody i (To (CallParams p)) tag (encodeAggregate3 ?calls))
      = Some (rpc_result i (hex0x (encodeAggregate3Result (map (call_at tag) ?calls))))"
    using P assms(9,10) to by (simp_all add: answering_node_def tag del: map_map)
  have "wf_results ?res"
    using card assms(8,9) by (intro wf_results_small) (auto simp: answering_node_def small_calls_def)
  then have dec: "decodeAggregate3Result (hex0x (encodeAggregate3Result ?res)) = Done ?res"
    by (rule results.dec_enc)
  let ?rs = "merge_results (plan_results plan) ?prs"
  let ?crs = "map (\<lambda>(idx, r). (?calls ! idx, r)) ?prs"
  have fstprs: "map fst ?prs = ?miss" by simp
  have at: "(j, call_at tag (?calls ! j)) \<in> set ?prs" if "j \<in> set ?miss" for j
    using that by (auto simp: in_set_zip in_set_conv_nth)
  have "?rs ! j = call_at tag (?calls ! j)
      \<or> isImmutableSelector (CallData (?calls ! j)) \<and> \<not> Success (call_at tag (?calls ! j))
        \<and> ?rs ! j = \<lparr>Success = False, ReturnData = []\<rparr>"
    if j: "j < length ?calls" for j
  proof (cases "j \<in> set ?miss")
    case True
    have "?rs ! j = call_at tag (?calls ! j)"
      by (rule merge_results_at) (use dist at [OF True] L j in \<open>simp_all add: fstprs\<close>)
    then show ?thesis ..
  next
    case False
    then have "j \<notin> fst ` set ?prs" by (auto dest: set_zip_leftD)
    then have "?rs ! j = plan_results plan ! j" by (rule merge_results_other)
    then show ?thesis using L False j assms(11) by (simp add: visible_def)
  qed
  moreover have "length ?rs = length ?calls" using L by simp
  ultimately have all: "list_all2 (\<lambda>(c, w) r. r = w
      \<or> isImmutableSelector (CallData c) \<and> \<not> Success w \<and> r = \<lparr>Success = False, ReturnData = []\<rparr>)
      (zip ?calls (map (call_at tag) ?calls)) ?rs"
    by (simp add: list_all2_conv_all_nth)
  have "immutable_results U truth chain ?crs"
    using assms(7,11) range by (auto simp: immutable_results_def sub_calls_def in_set_zip subset_iff)
  then have kept: "all_entries ops (sub_entry_ok H U truth) (cache_results H ops clock2 chain 0 ?crs s1)"
    by (rule cache_results_truthful [OF assms(1,2) truthful])
  have ne: "hex0x b \<noteq> []" for b by (simp add: hex0x_def)
  have "CompleteMulticall H ops clock2 chain plan (up (ReducedBody plan)) s1
      = (Done (Some (rpc_result i (hex0x (encodeAggregate3Result ?rs)))), cache_results H ops clock2 chain 0 ?crs s1)"
    using P unfolding CompleteMulticall_def up rpc_result_fields option.case ne dec outcome.case Let_def
    by (simp add: rpc_result_fields ne dec)
  then show ?thesis using whole all kept P L by (intro exI conjI) auto
qed

section \<open>Storing and looking up\<close>

lemma Get_after_add:
  assumes "lawful ops" and "CEnabled (cfg s)" and "mem s = Some m" and "mem_peek ops key m = Some e"
    and "unix_milli now \<le> Expiry e" and "entry_valid s e"
  shows "fst (Get ops now key s) = Some (Body e)"
proof -
  obtain m1 where g: "mem_get ops key m = (m1, Some e)"
    using lawful_mem(1) [OF assms(1), of key m] assms(4) by (cases "mem_get ops key m") simp
  have "entry_valid (s\<lparr>mem := Some m1\<rparr>) e" using assms(6) by (simp add: entry_valid_def)
  then show ?thesis using assms(2,3,5) g by (simp add: Get_def)
qed

lemma add_mem_peek:
  "lawful ops \<Longrightarrow> mem s = Some m \<Longrightarrow> \<exists>m'. mem (add_mem ops key e s) = Some m' \<and> mem_peek ops key m' = Some e"
  "mem (set_db ops key e s) = mem s"
  by (simp_all add: add_mem_def set_db_def lawful_mem(3))

lemma entry_valid_add [simp]:
  "entry_valid (add_mem ops key e s) = entry_valid s" "entry_valid (set_db ops key e s) = entry_valid s"
  by (simp_all add: fun_eq_iff entry_valid_def)

lemma PutImmortal_served:
  assumes "lawful ops" and "CEnabled (cfg s)" and "mem s = Some m" and "unix_milli now \<le> max_int64"
  shows "fst (Get ops now key (PutImmortal ops key body chain s)) = Some body"
proof -
  let ?e = "\<lparr>Expiry = max_int64, Body = body, ChainID = chain, BlockHash = [], BlockNum = 0\<rparr>"
  obtain m' where m': "mem (add_mem ops key ?e s) = Some m'" "mem_peek ops key m' = Some ?e"
    using add_mem_peek(1) [OF assms(1,3)] by blast
  have "fst (Get ops now key (set_db ops key ?e (add_mem ops key ?e s))) = Some (Body ?e)"
    using assms(2,4) m'
    by (intro Get_after_add [OF assms(1), where m = m'])
      (simp_all add: add_mem_peek(2) entry_valid_def IsBlockHashValid_def)
  then show ?thesis using assms(2) by (simp add: PutImmortal_def Let_def)
qed

lemma Put_served:
  assumes "lawful ops" and "CEnabled (cfg s)" and "mem s = Some m" and "0 < ttl"
    and "e = put_entry (cfg s) (track s) now body ttl chain n h" and "entry_valid s e"
    and "unix_milli now3 \<le> Expiry e"
  shows "fst (Get ops now3 key (Put ops now now2 key body ttl chain n h s)) = Some body"
proof -
  obtain m' where m': "mem (add_mem ops key e s) = Some m'" "mem_peek ops key m' = Some e"
    using add_mem_peek(1) [OF assms(1,3)] by blast
  have "fst (Get ops now3 key (add_mem ops key e s)) = Some (Body e)"
    and "fst (Get ops now3 key (set_db ops key e (add_mem ops key e s))) = Some (Body e)"
    using assms(2,6,7) m'
    by (auto intro!: Get_after_add [OF assms(1), where m = m'] simp: add_mem_peek(2))
  moreover have "Body e = body" by (simp add: assms(5) put_entry_def Let_def)
  ultimately show ?thesis using assms(2,4,5) by (auto simp: Put_def Let_def)
qed

text \<open>\<open>Lookup\<close> decodes the request once, \<open>Store\<close> twice, to the same effect.\<close>

lemma lookup_decodes:
  "(case (if mth = ''eth_call'' then parseEthCallParams params else None) of
      None \<Rightarrow> Fail () | Some p \<Rightarrow> decodeMulticallParsed p) = decodeMulticall mth params"
  "decodeImmutableCallFrom (if mth = ''eth_call'' then parseEthCallParams params else None)
     = decodeImmutableCall mth params"
  by (auto simp: decodeMulticall_def decodeImmutableCall_def decodeImmutableCallFrom_def split: option.split)

text \<open>A response under another identifier: all its other members are kept.\<close>

definition stamped :: "raw \<Rightarrow> members \<Rightarrow> json" where
  "stamped i ms =
     sorted_members (map (\<lambda>(k, v). (k, html_escape v))
       (put_member ''id'' (case i of None \<Rightarrow> JNull | Some j \<Rightarrow> j) (go_map (\<lambda>v. v) ms)))"

lemma AnswerTTL_positive:
  assumes "AnswerTTL mth params response c = (ttl, n, h)" and "0 < ttl"
  shows "0 < TTL mth params c \<and> (\<exists>ms. response = Some (JObj ms))"
proof -
  have c: "Cacheable response" and t: "0 < TTL mth params c"
    using assms by (auto simp: AnswerTTL_def Let_def split: if_splits prod.splits)
  then show ?thesis
    by (auto simp: Cacheable_iff as_struct_def raw_field_def field_values_def split: option.splits json.splits)
qed

text \<open>
  C18. What is stored is found: the answer to a request that the policy keeps is served to the next
  request with the same method and parameters on the chain, under the identifier of that request,
  until its expiry and as long as the block it was read from is not replaced. Serving never panics.
\<close>

theorem store_then_lookup:
  assumes "lawful ops" and "CEnabled (cfg s)" and "mem s = Some m"
    and "decodeMulticall mth params = Fail ()" and "decodeImmutableCall mth params = None"
    and "AnswerTTL mth params response (cfg s) = (ttl, n, h)" and "0 < ttl"
    and "e = put_entry (cfg s) (track s) (clock 0) (Response response) ttl chain n h"
    and "entry_valid s e" and "unix_milli (clock' 0) \<le> Expiry e"
    and "StoreResponse H fnum ops clock chain mth params response s = Done s'"
  shows "\<exists>ms. response = Some (JObj ms)
    \<and> fst (Lookup H fnum ops clock' chain mth params i s') = Done (Some (stamped i ms))"
proof -
  let ?k = "lookup_key H fnum chain mth params"
  have s': "s' = Put ops (clock 0) (clock 1) ?k (Response response) ttl chain n h s"
    using assms(2,4-7,11) by (simp add: StoreResponse_def)
  obtain ms where ms: "response = Some (JObj ms)" and ttl: "0 < TTL mth params (cfg s)"
    using AnswerTTL_positive [OF assms(6,7)] by blast
  have c: "cfg s' = cfg s" by (simp add: s' Put_def Let_def)
  have "fst (Get ops (clock' 0) ?k s') = Some (Response response)"
    unfolding s' by (rule Put_served [OF assms(1-3,7-10)])
  then obtain s2 where g: "Get ops (clock' 0) ?k s' = (Some (Response response), s2)"
    by (cases "Get ops (clock' 0) ?k s'") simp
  have "Lookup H fnum ops clock' chain mth params i s' = (RewriteResponseID response i, s2)"
    unfolding Lookup_def Let_def lookup_decodes
    using assms(2,4,5) ttl g by (simp add: c as_response_def)
  then show ?thesis by (simp add: ms RewriteResponseID_def stamped_def Let_def)
qed

text \<open>
  An answer without data to an immutable read, which is what a node gives while no contract is
  deployed at the address, is kept as the result of the read and served at any later time, after
  the contract is deployed as well.
\<close>

theorem undeployed_read_kept:
  assumes "lawful ops" and "CEnabled (cfg s)" and "mem s = Some m" and "unix_milli now \<le> max_int64"
  shows "fst (Get ops now (subCallKey H chain t d)
           (cacheImmutableCall H ops now0 chain t d (Some (rpc_result i (hex0x []))) s))
       = Some (ReturnBytes [])"
proof -
  have "cacheImmutableCall H ops now0 chain t d (Some (rpc_result i (hex0x []))) s
      = PutImmortal ops (subCallKey H chain t d) (ReturnBytes []) chain s"
    by (simp add: cacheImmutableCall_def rpc_result_def as_struct_def jstring_def field_values_def json_eval)
  then show ?thesis by (simp add: PutImmortal_served [OF assms])
qed

text \<open>
  A node that spells out that there is no error, as a member \<open>error\<close> with the value null, is taken
  to have failed: the reduced response of a plan is discarded although it carries every result.
\<close>

theorem null_error_discarded:
  "CompleteMulticall H ops clock chain plan
     (Some (JObj [(''jsonrpc'', jstring ''2.0''), (''id'', i), (''error'', JNull),
                  (''result'', jstring (hex0x (encodeAggregate3Result res)))])) s = (Fail (), s)"
  by (simp add: CompleteMulticall_def as_struct_def jstring_def field_values_def json_eval)

section \<open>Concrete runs\<close>

definition fresh_store :: "((string \<times> entry) list, string \<Rightarrow> entry option) store" where
  "fresh_store = \<lparr>cfg = sample_cache_cfg, mem = Some [], db = Some Map.empty, track = empty_tracker\<rparr>"

lemma fresh_store_simps [simp]:
  "CEnabled sample_cache_cfg" "mem fresh_store = Some []" "cfg fresh_store = sample_cache_cfg"
  by (simp_all add: fresh_store_def sample_cache_cfg_def)

theorem undeployed_read_kept_witness:
  "fst (Get (sample_tiers 10) 7000000 (subCallKey (\<lambda>b. b) ''1'' (replicate 20 7) [0x31, 0x3c, 0xe5, 0x67])
      (cacheImmutableCall (\<lambda>b. b) (sample_tiers 10) 0 ''1'' (replicate 20 7) [0x31, 0x3c, 0xe5, 0x67]
        (Some (rpc_result None (hex0x []))) fresh_store))
    = Some (ReturnBytes [])"
  by (rule undeployed_read_kept [OF lawful_sample]) (simp_all add: unix_milli_def max_int64_def)

theorem store_then_lookup_witness:
  "\<exists>s'. StoreResponse (\<lambda>b. b) (\<lambda>l. l) (sample_tiers 10) (\<lambda>k. 0) ''1'' ''eth_getBalance'' (Some pinned_balance)
      (Some balance_answer) fresh_store = Done s'
    \<and> (\<exists>ms. Some balance_answer = Some (JObj ms)
        \<and> fst (Lookup (\<lambda>b. b) (\<lambda>l. l) (sample_tiers 10) (\<lambda>k. 3000000) ''1'' ''eth_getBalance''
             (Some pinned_balance) (Some (JNum ''7'')) s') = Done (Some (stamped (Some (JNum ''7'')) ms)))"
proof -
  have d: "decodeMulticall ''eth_getBalance'' (Some pinned_balance) = Fail ()"
      "decodeImmutableCall ''eth_getBalance'' (Some pinned_balance) = None"
    by (simp_all add: decodeMulticall_def decodeImmutableCall_def split: option.split)
  obtain s' where s': "StoreResponse (\<lambda>b. b) (\<lambda>l. l) (sample_tiers 10) (\<lambda>k. 0) ''1'' ''eth_getBalance''
      (Some pinned_balance) (Some balance_answer) fresh_store = Done s'"
    by (simp add: StoreResponse_def d AnswerTTL_balance)
  have "\<exists>ms. Some balance_answer = Some (JObj ms)
        \<and> fst (Lookup (\<lambda>b. b) (\<lambda>l. l) (sample_tiers 10) (\<lambda>k. 3000000) ''1'' ''eth_getBalance''
             (Some pinned_balance) (Some (JNum ''7'')) s') = Done (Some (stamped (Some (JNum ''7'')) ms))"
    by (rule store_then_lookup [OF lawful_sample _ _ d AnswerTTL_balance [folded fresh_store_simps(3)] _ refl _ _ s'])
      (simp_all add: put_entry_def Let_def entry_valid_def IsBlockHashValid_def
        empty_tracker_def unix_milli_def fresh_store_def)
  then show ?thesis using s' by blast
qed

text \<open>A store that knows the first of two reads, and a node.\<close>

definition sample_reads :: "call3 list" where
  "sample_reads =
     [\<lparr>Target = replicate 20 0x11, AllowFailure = True, CallData = [0x31, 0x3c, 0xe5, 0x67]\<rparr>,
      \<lparr>Target = replicate 20 0x22, AllowFailure = True, CallData = [0x70, 0xa0, 0x82, 0x31]\<rparr>]"

definition known_read :: read_result where
  "known_read c t d = \<lparr>Success = True, ReturnData = [18]\<rparr>"

definition half_store :: "((string \<times> entry) list, string \<Rightarrow> entry option) store" where
  "half_store = fresh_store\<lparr>mem := Some
     [(subCallKey (\<lambda>b. b) ''1'' (replicate 20 0x11) [0x31, 0x3c, 0xe5, 0x67],
       \<lparr>Expiry = max_int64, Body = ReturnBytes [18], ChainID = ''1'', BlockHash = [], BlockNum = 0\<rparr>)]\<rparr>"

definition reads_params :: raw where
  "reads_params = Some (multicall_params (hex0x (replicate 20 0xca)) ''latest'' (encodeAggregate3 sample_reads))"

definition reads_node :: "(call3 \<Rightarrow> multicallResult) \<Rightarrow> json \<Rightarrow> raw" where
  "reads_node call body =
     (case body of
        JObj [v, i, mt, (p, JArr [JObj [(k, JStr d), to], tag])] \<Rightarrow>
          (case decodeAggregate3Calls (hexToBytes d) of
             Done calls \<Rightarrow>
               Some (JObj [(''jsonrpc'', jstring ''2.0''), i,
                 if list_all (may_pass call) calls
                 then (''result'', jstring (hex0x (encodeAggregate3Result (map call calls)))) else (''error'', JNull)])
           | _ \<Rightarrow> None)
      | _ \<Rightarrow> None)"

definition plain_read :: "call3 \<Rightarrow> multicallResult" where
  "plain_read c =
     (if isImmutableSelector (CallData c) then \<lparr>Success = True, ReturnData = [18]\<rparr>
      else \<lparr>Success = False, ReturnData = [1, 2]\<rparr>)"

lemma reads_node_answers: "answering_node mc (\<lambda>tag. plain_read) (reads_node plain_read)"
proof -
  have q: "jstring (hex0x b) = JStr (hex0x b)" for b by (simp add: jstring_def)
  show ?thesis
    by (auto simp: answering_node_def reads_node_def buildMulticallBody_def multicall_params_def q calls.dec_enc
        rpc_result_def rpc_failure_def plain_read_def intro!: exI [of _ JNull])
qed

lemma parse_multicall_params:
  assumes "plain to" and "plain tag" and "tag \<noteq> []"
  shows "parseEthCallParams (Some (multicall_params to tag data))
       = Some \<lparr>CallParams = sample_parsed to (hex0x data), BlockTag = tag, HasStateOverrides = False\<rparr>"
proof -
  have "unquote (hex0x data) = Some (hex0x data)" by (rule unquote_plain) simp
  then show ?thesis
    using assms
    by (simp add: parseEthCallParams_def multicall_params_def decode_ethCallParams_def jstring_def
        sample_parsed_def field_values_def json_eval)
qed

lemma half_store_plan:
  "\<exists>plan s1. PlanMulticall (\<lambda>b. b) (sample_tiers 10) (\<lambda>k. 0) ''1'' ''eth_call'' reads_params (Some (JNum ''7''))
      half_store = (Done plan, s1)
    \<and> plan_calls plan = sample_reads \<and> missIndices plan = [1]"
proof -
  have "wf_calls sample_reads" by (rule wf_calls_small) (auto simp: sample_reads_def wf_call_def)
  then have dec: "decodeAggregate3Calls (encodeAggregate3 sample_reads) = Done sample_reads" by (rule calls.dec_enc)
  have pl: "plain (hex0x (replicate 20 0xca))" "plain ''latest''" by simp (simp add: json_eval)
  have ps: "parseEthCallParams reads_params
      = Some \<lparr>CallParams = sample_parsed (hex0x (replicate 20 0xca)) (hex0x (encodeAggregate3 sample_reads)),
           BlockTag = ''latest'', HasStateOverrides = False\<rparr>"
    unfolding reads_params_def by (rule parse_multicall_params [OF pl]) simp
  have "hex0x b \<noteq> []" for b by (simp add: hex0x_def)
  then have dm: "decodeMulticall ''eth_call'' reads_params = Done sample_reads"
    by (simp add: decodeMulticall_def ps decodeMulticallParsed_def sample_parsed_def dec)
  have "\<exists>rs s1. plan_loop (\<lambda>b. b) (sample_tiers 10) (\<lambda>k. 0) ''1'' 0 sample_reads half_store = (rs, [1], s1)"
    by (simp add: sample_reads_def isImmutableSelector_def immutableSelectors_def cached_sub_call_def Get_def
        half_store_def sample_tiers_def unix_milli_def max_int64_def entry_valid_def IsBlockHashValid_def)
  then obtain rs s1 where pl: "plan_loop (\<lambda>b. b) (sample_tiers 10) (\<lambda>k. 0) ''1'' 0 sample_reads half_store = (rs, [1], s1)"
    by blast
  have "CEnabled (cfg half_store)" "length sample_reads = 2" by (simp_all add: half_store_def sample_reads_def)
  then show ?thesis by (simp add: PlanMulticall_def dm ps pl)
qed

lemma sample_reads_distinguished: "distinguished (\<lambda>b. b) (sub_calls ''1'' sample_reads)"
  by (auto simp: distinguished_def collision_free_def sample_reads_def no_nul_def code_def)

lemma half_store_ok:
  "all_entries (sample_tiers 10) (sub_entry_ok (\<lambda>b. b) (sub_calls ''1'' sample_reads) known_read) half_store"
proof -
  have "sub_entry_ok (\<lambda>b. b) (sub_calls ''1'' sample_reads) known_read
      (subCallKey (\<lambda>b. b) ''1'' (replicate 20 0x11) [0x31, 0x3c, 0xe5, 0x67])
      \<lparr>Expiry = max_int64, Body = ReturnBytes (ReturnData (known_read ''1'' (replicate 20 0x11) [0x31, 0x3c, 0xe5, 0x67])),
        ChainID = ''1'', BlockHash = [], BlockNum = 0\<rparr>"
    by (rule sub_entry_ok_result [OF sample_reads_distinguished]) (simp_all add: sample_reads_def known_read_def)
  then show ?thesis
    by (auto simp: all_entries_def holds_def half_store_def fresh_store_def known_read_def sample_tiers_def
        split: if_splits)
qed

lemma reads_params_plain: "plain_params reads_params ''latest'' (replicate 20 0xca) (encodeAggregate3 sample_reads)"
proof -
  have l: "plain ''latest''" by (simp add: json_eval)
  have q: "jstring (hex0x b) = JStr (hex0x b)" for b by (simp add: jstring_def)
  have h: "unquote (hex0x b) = Some (''0x'' @ hex_encode b)" for b using unquote_plain [OF plain_hex0x] by (simp add: hex0x_def)
  have "names_address (''0x'' @ hex_encode (replicate 20 0xca)) (replicate 20 0xca)" by (simp add: names_address_def)
  then have "\<exists>l1 l2 to x. unquote l1 = Some to \<and> names_address to (replicate 20 0xca) \<and> unquote l2 = Some (''0x'' @ x)
      \<and> hex_decode x = Some d \<and> jstring (hex0x (replicate 20 0xca)) = JStr l1 \<and> jstring (hex0x d) = JStr l2" for d
    using q by (intro exI conjI) (rule h, assumption, rule h, rule hex_decode_encode, rule q, rule q)
  moreover have "jstring ''latest'' = JStr ''latest''" "unquote ''latest'' = Some ''latest''" using l by (simp_all add: jstring_def)
  ultimately show ?thesis unfolding plain_params_def reads_params_def multicall_params_def by fastforce
qed

theorem partial_multicall_exact_witness:
  "\<exists>plan s1 ws rs s2.
      PlanMulticall (\<lambda>b. b) (sample_tiers 10) (\<lambda>k. 0) ''1'' ''eth_call'' reads_params (Some (JNum ''7''))
        half_store = (Done plan, s1)
    \<and> missIndices plan = [1]
    \<and> CompleteMulticall (\<lambda>b. b) (sample_tiers 10) (\<lambda>k. 0) ''1'' plan (reads_node plain_read (ReducedBody plan)) s1
      = (Done (Some (rpc_result (Some (JNum ''7'')) (hex0x (encodeAggregate3Result rs)))), s2)
    \<and> reads_node plain_read (buildMulticallBody (Some (JNum ''7'')) (hex0x (replicate 20 0xca)) ''latest''
        (encodeAggregate3 sample_reads))
      = Some (rpc_result (Some (JNum ''7'')) (hex0x (encodeAggregate3Result ws)))
    \<and> length ws = 2 \<and> length rs = 2"
proof -
  obtain plan s1 where plan: "PlanMulticall (\<lambda>b. b) (sample_tiers 10) (\<lambda>k. 0) ''1'' ''eth_call'' reads_params
      (Some (JNum ''7'')) half_store = (Done plan, s1)" "plan_calls plan = sample_reads" "missIndices plan = [1]"
    using half_store_plan by blast
  have pl: "plain (hex0x (replicate 20 0xca))" "plain ''latest''" by simp (simp add: json_eval)
  have ps: "parseEthCallParams reads_params
      = Some \<lparr>CallParams = sample_parsed (hex0x (replicate 20 0xca)) (hex0x (encodeAggregate3 sample_reads)),
           BlockTag = ''latest'', HasStateOverrides = False\<rparr>"
    unfolding reads_params_def by (rule parse_multicall_params [OF pl]) simp
  have "small_calls (plan_calls plan)" by (simp add: plan(2) small_calls_def sample_reads_def wf_call_def)
  moreover have "list_all (may_pass plain_read) (plan_calls plan)" by (simp add: plan(2) sample_reads_def may_pass_def)
  moreover have "sub_calls ''1'' (plan_calls plan) \<subseteq> sub_calls ''1'' sample_reads" by (simp add: plan(2))
  moreover have "\<forall>c \<in> set (plan_calls plan). isImmutableSelector (CallData c)
      \<longrightarrow> plain_read c = known_read ''1'' (Target c) (CallData c)"
    by (simp add: plain_read_def known_read_def)
  moreover have "length sample_reads = 2" by (simp add: sample_reads_def)
  ultimately show ?thesis
    using partial_multicall_exact [OF lawful_sample sample_reads_distinguished half_store_ok plan(1) ps reads_params_plain
        _ _ reads_node_answers, where ?clock2.0 = "\<lambda>k. 0"] plan
    by (simp add: sample_parsed_def) blast
qed

theorem multicall_served_truthful_witness:
  "\<exists>s1. serveMulticall (\<lambda>b. b) (sample_tiers 10) (\<lambda>k. 0) ''1'' None (take 1 sample_reads) half_store
     = (Done (Some (rpc_result None (hex0x (encodeAggregate3Result [\<lparr>Success = True, ReturnData = [18]\<rparr>])))), s1)"
proof -
  let ?U = "sub_calls ''1'' sample_reads"
  obtain answer s1 where sv: "serveMulticall (\<lambda>b. b) (sample_tiers 10) (\<lambda>k. 0) ''1'' None (take 1 sample_reads) half_store
      = (Done answer, s1)"
    by (simp add: serveMulticall_def sample_reads_def isImmutableSelector_def immutableSelectors_def
        cached_sub_call_def Get_def half_store_def sample_tiers_def unix_milli_def max_int64_def entry_valid_def
        IsBlockHashValid_def)
  have "sub_calls ''1'' (take 1 sample_reads) \<subseteq> ?U" by (simp add: sample_reads_def)
  from multicall_served_truthful [OF lawful_sample half_store_ok this sv]
  have "answer = Some (rpc_result None (hex0x (encodeAggregate3Result [\<lparr>Success = True, ReturnData = [18]\<rparr>])))"
    by (simp add: sample_reads_def known_read_def visible_def)
  then show ?thesis by (simp only: sv) blast
qed

end
