(* ===== verification/Balancer.thy ===== *)
theory Balancer
  imports Head_Register Cache_Store Machines
begin

text \<open>
  The load balancer, \<open>internal/backend/balancer.go\<close>: the choice of a backend for a request, the
  latencies and weights, and the health probes. The rate limiter is third-party code and comes in as
  a record of its operations; so do the operations on \<open>float64\<close>, of which nothing is assumed unless a
  statement says so.
\<close>

section \<open>Parameters\<close>

record 'f float64 =
  fl_of_int :: "int \<Rightarrow> 'f"
  fl_of_u64 :: "u64 \<Rightarrow> 'f"
  fl_add :: "'f \<Rightarrow> 'f \<Rightarrow> 'f"
  fl_mul :: "'f \<Rightarrow> 'f \<Rightarrow> 'f"
  fl_div :: "'f \<Rightarrow> 'f \<Rightarrow> 'f"
  fl_pow :: "'f \<Rightarrow> 'f \<Rightarrow> 'f"
  fl_neg :: "'f \<Rightarrow> 'f"
  fl_le :: "'f \<Rightarrow> 'f \<Rightarrow> bool"
  fl_less :: "'f \<Rightarrow> 'f \<Rightarrow> bool"
  fl_zero :: 'f
  fl_tenth :: 'f
  fl_one :: 'f

text \<open>
  A limiter: \<open>Allow\<close>, \<open>Reserve\<close> (the delay and the reservation) and \<open>Cancel\<close>, at a time.
\<close>

record ('l, 'r) rate_limiter =
  Allow :: "int \<Rightarrow> 'l \<Rightarrow> bool \<times> 'l"
  Reserve :: "int \<Rightarrow> 'l \<Rightarrow> (int \<times> 'r) \<times> 'l"
  Cancel :: "'r \<Rightarrow> 'l \<Rightarrow> 'l"

section \<open>Backends\<close>

text \<open>
  A backend with the fields the balancer reads. Chains listed together in one entry of the configuration
  share a limiter, so a backend names its limiter. Streaks are 32 bits wide.
\<close>

record backend =
  Name :: string
  Chain :: string
  URL :: "string option"
  WSURL :: "string option"
  limiter :: "nat option"
  PerformanceLatencyHistory :: "int list"
  PerformanceAvgLatency :: int
  RequestCount :: "64 word"
  HealthUp :: bool
  HealthFailStreak :: "32 word"
  HealthPassStreak :: "32 word"
  HealthLastErr :: string
  Head :: u64

text \<open>\<open>pool\<close> are the backends of the configuration; a chain lists its own by their position there.\<close>

record 'f balancer =
  pool :: "backend list"
  members :: "string \<Rightarrow> nat list"
  weights :: "string \<Rightarrow> 'f list"
  seed :: u64

definition NewLoadBalancer :: "'f float64 \<Rightarrow> backend list \<Rightarrow> u64 \<Rightarrow> 'f balancer" where
  "NewLoadBalancer F bs s =
     (let mem = (\<lambda>c. filter (\<lambda>i. Chain (bs ! i) = c) [0..<length bs]) in
      \<lparr>pool = map (\<lambda>b. b\<lparr>PerformanceLatencyHistory := [], RequestCount := 0\<rparr>) bs,
       members = mem, weights = (\<lambda>c. replicate (length (mem c)) (fl_one F)), seed = s\<rparr>)"

definition GetBackends :: "'f balancer \<Rightarrow> string \<Rightarrow> backend list" where
  "GetBackends lb c = map ((!) (pool lb)) (members lb c)"

definition GetWeights :: "'f balancer \<Rightarrow> string \<Rightarrow> 'f list" where
  "GetWeights lb c = weights lb c"

section \<open>Random numbers\<close>

definition scramble :: "u64 \<Rightarrow> u64" where
  "scramble x0 =
     (let x1 = Bit_Operations.xor x0 (drop_bit 12 x0);
          x2 = Bit_Operations.xor x1 (push_bit 25 x1);
          x3 = Bit_Operations.xor x2 (drop_bit 27 x2)
      in x3 * 0x2545F4914F6CDD1D)"

definition next_seed :: "u64 \<Rightarrow> u64" where
  "next_seed s = s + 0x9e3779b97f4a7c15"

text \<open>\<open>n\<close> is the length of a slice.\<close>

definition randN :: "nat \<Rightarrow> u64 \<Rightarrow> nat \<times> u64" where
  "randN n s = (if n \<le> 1 then (0, s) else (unat (scramble (next_seed s) mod of_nat n), next_seed s))"

definition randFloat :: "'f float64 \<Rightarrow> u64 \<Rightarrow> 'f \<times> u64" where
  "randFloat F s = (fl_div F (fl_of_u64 F (scramble (next_seed s))) (fl_of_u64 F (- 1)), next_seed s)"

section \<open>Choosing a backend\<close>

definition candidate :: "backend \<Rightarrow> string \<Rightarrow> u64 \<Rightarrow> bool" where
  "candidate b scheme minHead =
     (if \<not> HealthUp b then False
      else if scheme = ''ws'' \<and> WSURL b = None then False
      else if scheme = ''http'' \<and> URL b = None then False
      else if 0 < minHead \<and> 0 < Head b \<and> Head b < minHead then False
      else True)"

text \<open>
  The first loop: the positions of the ready candidates with their weights. \<open>bes\<close> are the backends as
  this loop reads them: probes and other requests change them meanwhile. An index out of the range
  of the weights panics.
\<close>

fun ready_loop ::
  "('l, 'r) rate_limiter \<Rightarrow> (nat \<Rightarrow> int) \<Rightarrow> string \<Rightarrow> u64 \<Rightarrow> 'f list \<Rightarrow> nat \<Rightarrow> backend list \<Rightarrow> (nat \<Rightarrow> 'l)
     \<Rightarrow> (string, (nat \<times> 'f) list) outcome \<times> (nat \<Rightarrow> 'l)" where
  "ready_loop L clock scheme minHead ws i [] lims = (Done [], lims)"
| "ready_loop L clock scheme minHead ws i (b # bs) lims =
     (if \<not> candidate b scheme minHead then ready_loop L clock scheme minHead ws (Suc i) bs lims
      else
        (case (case limiter b of
                 None \<Rightarrow> (True, lims)
               | Some l \<Rightarrow> (case Allow L (clock i) (lims l) of (ok, l') \<Rightarrow> (ok, lims(l := l')))) of
           (False, lims1) \<Rightarrow> ready_loop L clock scheme minHead ws (Suc i) bs lims1
         | (True, lims1) \<Rightarrow>
             if length ws \<le> i then (Panic, lims1)
             else
               (case ready_loop L clock scheme minHead ws (Suc i) bs lims1 of
                  (r, lims2) \<Rightarrow> (obind r (\<lambda>rs. Done ((i, ws ! i) # rs)), lims2))))"

text \<open>
  The second loop, when nothing is ready: the candidate whose limiter asks for the shortest wait. Its
  state is the shortest delay, the candidate's position, and the reservation kept with its limiter.
\<close>

fun reserve_loop ::
  "('l, 'r) rate_limiter \<Rightarrow> (nat \<Rightarrow> int) \<Rightarrow> string \<Rightarrow> u64 \<Rightarrow> nat \<Rightarrow> backend list
     \<Rightarrow> int \<times> nat option \<times> (nat \<times> 'r) option \<Rightarrow> (nat \<Rightarrow> 'l)
     \<Rightarrow> (int \<times> nat option \<times> (nat \<times> 'r) option) \<times> (nat \<Rightarrow> 'l)" where
  "reserve_loop L clock scheme minHead i [] st lims = (st, lims)"
| "reserve_loop L clock scheme minHead i (b # bs) (minDelay, minIdx, keep) lims =
     (if \<not> candidate b scheme minHead
      then reserve_loop L clock scheme minHead (Suc i) bs (minDelay, minIdx, keep) lims
      else
        (case limiter b of
           None \<Rightarrow> ((0, Some i, keep), lims)
         | Some l \<Rightarrow>
           (case Reserve L (clock i) (lims l) of ((d, r), l') \<Rightarrow>
              (let lims1 = lims(l := l') in
               if d < minDelay then
                 reserve_loop L clock scheme minHead (Suc i) bs (d, Some i, Some (l, r))
                   (case keep of None \<Rightarrow> lims1 | Some (k, r') \<Rightarrow> lims1(k := Cancel L r' (lims1 k)))
               else
                 reserve_loop L clock scheme minHead (Suc i) bs (minDelay, minIdx, keep)
                   (lims1(l := Cancel L r (lims1 l)))))))"

text \<open>The weighted choice: the first position whose running sum reaches \<open>r\<close>, else the last.\<close>

fun weighted :: "'f float64 \<Rightarrow> 'f \<Rightarrow> 'f \<Rightarrow> nat \<Rightarrow> (nat \<times> 'f) list \<Rightarrow> nat" where
  "weighted F r cur dflt [] = dflt"
| "weighted F r cur dflt ((idx, w) # rs) =
     (let cur1 = fl_add F cur w in if fl_le F r cur1 then idx else weighted F r cur1 dflt rs)"

definition total_weight :: "'f float64 \<Rightarrow> (nat \<times> 'f) list \<Rightarrow> 'f" where
  "total_weight F rs = foldl (\<lambda>t (i, w). fl_add F t w) (fl_zero F) rs"

definition select_ready :: "'f float64 \<Rightarrow> (nat \<times> 'f) list \<Rightarrow> u64 \<Rightarrow> nat \<times> u64" where
  "select_ready F rs s =
     (if length rs = 1 then (fst (hd rs), s)
      else
        (let total = total_weight F rs in
         if fl_le F total (fl_zero F)
         then (case randN (length rs) s of (k, s') \<Rightarrow> (fst (rs ! k), s'))
         else
           (case randFloat F s of (x, s') \<Rightarrow>
              (weighted F (fl_mul F x total) (fl_zero F) (fst (last rs)) rs, s'))))"

text \<open>
  One attempt for a minimum head, on the members of a chain as the first and the second loop read
  them. \<open>gone\<close> is the error of the caller's context when it is done before the wait is over. The inner
  None is the fallback: no candidate at all.
\<close>

record ('l, 'r) pick_env =
  clock1 :: "nat \<Rightarrow> int"
  clock2 :: "nat \<Rightarrow> int"
  read1 :: "nat \<Rightarrow> backend"
  read2 :: "nat \<Rightarrow> backend"
  gone :: "string option"

definition pick_once ::
  "'f float64 \<Rightarrow> ('l, 'r) rate_limiter \<Rightarrow> ('l, 'r) pick_env \<Rightarrow> string \<Rightarrow> u64 \<Rightarrow> nat \<Rightarrow> 'f list
     \<Rightarrow> u64 \<times> (nat \<Rightarrow> 'l) \<Rightarrow> (string, nat option) outcome \<times> u64 \<times> (nat \<Rightarrow> 'l)" where
  "pick_once F L env scheme minHead n ws st =
     (case st of (s, lims) \<Rightarrow>
        (case ready_loop L (clock1 env) scheme minHead ws 0 (map (read1 env) [0..<n]) lims of
           (Panic, lims1) \<Rightarrow> (Panic, s, lims1)
         | (Fail e, lims1) \<Rightarrow> (Fail e, s, lims1)
         | (Done rs, lims1) \<Rightarrow>
             if rs \<noteq> [] then (case select_ready F rs s of (i, s') \<Rightarrow> (Done (Some i), s', lims1))
             else
               (case reserve_loop L (clock2 env) scheme minHead 0 (map (read2 env) [0..<n])
                       (2 ^ 63 - 1, None, None) lims1 of
                  ((minDelay, minIdx, keep), lims2) \<Rightarrow>
                    (case minIdx of
                       None \<Rightarrow> (Done None, s, lims2)
                     | Some i \<Rightarrow>
                         if 0 < minDelay then
                           (case gone env of
                              Some e \<Rightarrow>
                                (Fail e, s, (case keep of None \<Rightarrow> lims2
                                             | Some (k, r) \<Rightarrow> lims2(k := Cancel L r (lims2 k))))
                            | None \<Rightarrow> (Done (Some i), s, lims2))
                         else (Done (Some i), s, lims2)))))"

text \<open>\<open>%q\<close>, for a name without characters to escape.\<close>

definition quoted :: "string \<Rightarrow> string" where
  "quoted s = [CHR 0x22] @ s @ [CHR 0x22]"

definition no_candidate :: "string \<Rightarrow> string \<Rightarrow> string" where
  "no_candidate scheme c =
     (if scheme = ''ws'' then ''no WebSocket-enabled backends for chain '' @ quoted c
      else if scheme = ''http'' then ''no HTTP-enabled backends for chain '' @ quoted c
      else ''no candidate backend'')"

text \<open>
  \<open>env2\<close> is what the fallback meets: the health, heads and limits of the backends then. The weights are read
  once here and again by the code; which backends can be chosen does not depend on them, only how often. The
  result is a position among the chain's members.
\<close>

definition PickAtLeast ::
  "'f float64 \<Rightarrow> ('l, 'r) rate_limiter \<Rightarrow> ('l, 'r) pick_env \<Rightarrow> ('l, 'r) pick_env \<Rightarrow> string \<Rightarrow> string \<Rightarrow> u64
     \<Rightarrow> 'f balancer \<times> (nat \<Rightarrow> 'l) \<Rightarrow> (string, nat) outcome \<times> 'f balancer \<times> (nat \<Rightarrow> 'l)" where
  "PickAtLeast F L env env2 c scheme minHead lbl =
     (case lbl of (lb, lims) \<Rightarrow>
        (let n = length (members lb c); ws = weights lb c in
         if n = 0 then (Fail (''no backends for chain '' @ quoted c), lb, lims)
         else
           (case pick_once F L env scheme minHead n ws (seed lb, lims) of
              (Panic, s, lims1) \<Rightarrow> (Panic, lb\<lparr>seed := s\<rparr>, lims1)
            | (Fail e, s, lims1) \<Rightarrow> (Fail e, lb\<lparr>seed := s\<rparr>, lims1)
            | (Done (Some i), s, lims1) \<Rightarrow> (Done i, lb\<lparr>seed := s\<rparr>, lims1)
            | (Done None, s, lims1) \<Rightarrow>
                if minHead = 0 then (Fail (no_candidate scheme c), lb\<lparr>seed := s\<rparr>, lims1)
                else
                  (case pick_once F L env2 scheme 0 n ws (s, lims1) of
                     (Panic, s2, lims2) \<Rightarrow> (Panic, lb\<lparr>seed := s2\<rparr>, lims2)
                   | (Fail e, s2, lims2) \<Rightarrow> (Fail e, lb\<lparr>seed := s2\<rparr>, lims2)
                   | (Done (Some i), s2, lims2) \<Rightarrow> (Done i, lb\<lparr>seed := s2\<rparr>, lims2)
                   | (Done None, s2, lims2) \<Rightarrow> (Fail (no_candidate scheme c), lb\<lparr>seed := s2\<rparr>, lims2)))))"

definition Pick ::
  "'f float64 \<Rightarrow> ('l, 'r) rate_limiter \<Rightarrow> ('l, 'r) pick_env \<Rightarrow> string \<Rightarrow> string
     \<Rightarrow> 'f balancer \<times> (nat \<Rightarrow> 'l) \<Rightarrow> (string, nat) outcome \<times> 'f balancer \<times> (nat \<Rightarrow> 'l)" where
  "Pick F L env c scheme lbl = PickAtLeast F L env env c scheme 0 lbl"

section \<open>Latencies and weights\<close>

record 'f PerformanceConfig =
  PTimeout :: int
  Samples :: int
  Gamma :: 'f
  MaxIdleConns :: int
  MaxIdleConnsPerHost :: int
  IdleConnTimeout :: int
  DisableKeepAlives :: bool
  EnableHTTP2 :: bool
  MaxConcurrentStreams :: int
  PEnableCompression :: bool
  CompressionLevel :: int

text \<open>Division of 64-bit integers truncates toward zero.\<close>

definition go_div :: "int \<Rightarrow> int \<Rightarrow> int" where
  "go_div a b = (if 0 \<le> a then a div b else - (- a div b))"

text \<open>The history keeps the last \<open>Samples\<close> latencies; slicing an empty one panics (None).\<close>

definition push_latency :: "int \<Rightarrow> int \<Rightarrow> int list \<Rightarrow> int list option" where
  "push_latency samples latency h =
     (if samples \<le> int (length h) then (case h of [] \<Rightarrow> None | _ # t \<Rightarrow> Some (t @ [latency]))
      else Some (h @ [latency]))"

definition average_latency :: "int list \<Rightarrow> int" where
  "average_latency h = go_div (foldl (\<lambda>t l. wrap64 (t + l)) 0 h) (int (length h))"

definition fastest_latency :: "backend list \<Rightarrow> int" where
  "fastest_latency bes =
     foldl (\<lambda>f b. if HealthUp b \<and> 0 < PerformanceAvgLatency b \<and> PerformanceAvgLatency b < f
                  then PerformanceAvgLatency b else f) (2 ^ 63 - 1) bes"

definition weight_of :: "'f float64 \<Rightarrow> 'f \<Rightarrow> int \<Rightarrow> backend \<Rightarrow> 'f" where
  "weight_of F gamma fastest b =
     (if \<not> HealthUp b \<or> PerformanceAvgLatency b \<le> 0 then fl_one F
      else
        (let ratio = fl_div F (fl_of_int F (PerformanceAvgLatency b)) (fl_of_int F fastest);
             w = fl_pow F ratio (fl_neg F gamma)
         in if fl_less F w (fl_tenth F) then fl_tenth F else w))"

text \<open>The weights of a chain are as many as its backends, so that no write is out of range.\<close>

definition weigh :: "'f float64 \<Rightarrow> string \<Rightarrow> 'f PerformanceConfig \<Rightarrow> 'f balancer \<Rightarrow> 'f balancer" where
  "weigh F c perf lb =
     (let bes = GetBackends lb c; ws = weights lb c; fastest = fastest_latency bes in
      if bes = [] then lb
      else if fastest = 2 ^ 63 - 1
      then lb\<lparr>weights := (weights lb)(c := replicate (length ws) (fl_one F))\<rparr>
      else lb\<lparr>weights := (weights lb)(c := map (weight_of F (Gamma perf) fastest) bes @ drop (length bes) ws)\<rparr>)"

definition set_backend :: "nat \<Rightarrow> backend \<Rightarrow> 'f balancer \<Rightarrow> 'f balancer" where
  "set_backend i b lb = lb\<lparr>pool := (pool lb)[i := b]\<rparr>"

definition UpdateLatency ::
  "'f float64 \<Rightarrow> nat \<Rightarrow> int \<Rightarrow> 'f PerformanceConfig \<Rightarrow> 'f balancer \<Rightarrow> 'f balancer option" where
  "UpdateLatency F i latency perf lb =
     (let b = pool lb ! i in
      map_option
        (\<lambda>h. weigh F (Chain b) perf
               (set_backend i
                  (b\<lparr>PerformanceLatencyHistory := h, PerformanceAvgLatency := average_latency h,
                     RequestCount := RequestCount b + 1\<rparr>) lb))
        (push_latency (Samples perf) latency (PerformanceLatencyHistory b)))"

section \<open>Health\<close>

record HealthConfig =
  HEnabled :: bool
  TTLCheck :: int
  HTimeout :: int
  FailsToDown :: int
  PassesToUp :: int

definition markDown :: "string \<Rightarrow> int \<Rightarrow> backend \<Rightarrow> backend" where
  "markDown reason failsToDown b =
     (let streak = HealthFailStreak b + 1 in
      b\<lparr>HealthFailStreak := streak, HealthPassStreak := 0, HealthLastErr := reason,
        HealthUp := (if sint (of_int failsToDown :: 32 word) \<le> sint streak then False else HealthUp b)\<rparr>)"

definition markUp :: "int \<Rightarrow> backend \<Rightarrow> backend" where
  "markUp passesToUp b =
     (let streak = HealthPassStreak b + 1 in
      b\<lparr>HealthPassStreak := streak, HealthFailStreak := 0,
        HealthUp := (if sint (of_int passesToUp :: 32 word) \<le> sint streak then True else HealthUp b)\<rparr>)"

text \<open>What a probe meets: no request or no response, or a status with its text, the body and the time.\<close>

datatype probe_result = ProbeError string | Probed nat string raw int

text \<open>
  One probe of a backend by a balancer, with the cache if there is one. None is a panic: the probe calls
  \<open>b.URL.String()\<close> on a backend that may have no URL.
\<close>

definition probe ::
  "'f float64 \<Rightarrow> ('m, 'd) tiers \<Rightarrow> HealthConfig \<Rightarrow> 'f PerformanceConfig \<Rightarrow> nat \<Rightarrow> probe_result
     \<Rightarrow> 'f balancer \<times> ('m, 'd) store option \<Rightarrow> ('f balancer \<times> ('m, 'd) store option) option" where
  "probe F ops hc pc i res lbs =
     (case lbs of (lb, cache) \<Rightarrow>
        if URL (pool lb ! i) = None then None
        else
        (case res of
           ProbeError e \<Rightarrow> Some (set_backend i (markDown e (FailsToDown hc) (pool lb ! i)) lb, cache)
         | Probed status reason body d \<Rightarrow>
             if status < 200 \<or> 300 \<le> status
             then Some (set_backend i (markDown reason (FailsToDown hc) (pool lb ! i)) lb, cache)
             else
               (case UpdateLatency F i d pc lb of
                  None \<Rightarrow> None
                | Some lb1 \<Rightarrow>
                    (let b = pool lb1 ! i;
                         b1 = (case HeadFromResponse body of
                                 None \<Rightarrow> b
                               | Some h \<Rightarrow> b\<lparr>Head := apply_head (ObserveHead h) (Head b)\<rparr>);
                         cache1 = map_option (CheckReorgFromHealthResponse ops body (Chain b)) cache
                     in Some (set_backend i (markUp (PassesToUp hc) b1) lb1, cache1)))))"

section \<open>The choice\<close>

text \<open>A limiter with a burst of one grants every single reservation after a finite wait.\<close>

definition finite_waits :: "('l, 'r) rate_limiter \<Rightarrow> bool" where
  "finite_waits L \<longleftrightarrow> (\<forall>t l d r l'. Reserve L t l = ((d, r), l') \<longrightarrow> d < 2 ^ 63 - 1)"

definition in_range :: "(backend \<Rightarrow> bool) \<Rightarrow> nat \<Rightarrow> backend list \<Rightarrow> nat \<Rightarrow> bool" where
  "in_range P i bes k \<longleftrightarrow> i \<le> k \<and> k < i + length bes \<and> P (bes ! (k - i))"

lemma in_range_Cons: "in_range P (Suc i) bs k \<Longrightarrow> in_range P i (b # bs) k"
  by (auto simp: in_range_def nth_Cons' Suc_le_eq)

lemma in_range_head: "P b \<Longrightarrow> in_range P i (b # bs) i"
  by (simp add: in_range_def)

lemma ready_loop_sound:
  assumes "ready_loop L clock scheme minHead ws i bes lims = (r, lims')"
  shows "(i + length bes \<le> length ws \<longrightarrow> r \<noteq> Panic) \<and> (\<forall>e. r \<noteq> Fail e)
    \<and> (\<forall>rs. r = Done rs \<longrightarrow> (\<forall>k \<in> fst ` set rs. in_range (\<lambda>b. candidate b scheme minHead) i bes k))"
  using assms
proof (induction bes arbitrary: i lims r lims')
  case Nil
  then show ?case by auto
next
  case (Cons b bs)
  show ?case
  proof (cases "candidate b scheme minHead")
    case False
    then have "ready_loop L clock scheme minHead ws (Suc i) bs lims = (r, lims')" using Cons.prems by simp
    from Cons.IH [OF this] show ?thesis using in_range_Cons by auto
  next
    case True
    obtain ok lims1 where a: "(case limiter b of None \<Rightarrow> (True, lims)
        | Some l \<Rightarrow> (case Allow L (clock i) (lims l) of (ok, l') \<Rightarrow> (ok, lims(l := l')))) = (ok, lims1)"
      by fastforce
    obtain q lims2 where q: "ready_loop L clock scheme minHead ws (Suc i) bs lims1 = (q, lims2)" by fastforce
    note IH = Cons.IH [OF q]
    consider "\<not> ok" "r = q" | "ok" "length ws \<le> i" "r = Panic"
      | "ok" "\<not> length ws \<le> i" "r = obind q (\<lambda>rs. Done ((i, ws ! i) # rs))"
      using Cons.prems True a q by (cases ok) (auto split: if_splits)
    then show ?thesis
    proof cases
      case 1
      then show ?thesis using IH in_range_Cons by auto
    next
      case 2
      then show ?thesis by simp
    next
      case 3
      have head: "in_range (\<lambda>b. candidate b scheme minHead) i (b # bs) i" using True by (rule in_range_head)
      show ?thesis
      proof (cases q)
        case (Done x)
        then show ?thesis using IH 3 head in_range_Cons by simp
      qed (use IH 3 in simp_all)
    qed
  qed
qed

lemma reserve_loop_sound:
  assumes "reserve_loop L clock scheme minHead i bes (minDelay, minIdx, keep) lims = ((d, x, k), lims')"
  shows "(x = minIdx \<or> (\<exists>j. x = Some j \<and> in_range (\<lambda>b. candidate b scheme minHead) i bes j))
    \<and> (minIdx \<noteq> None \<longrightarrow> x \<noteq> None)
    \<and> (finite_waits L \<longrightarrow> minDelay = 2 ^ 63 - 1 \<longrightarrow> x = None \<longrightarrow>
        (\<forall>b \<in> set bes. \<not> candidate b scheme minHead))"
  using assms
proof (induction bes arbitrary: i minDelay minIdx keep lims)
  case Nil
  then show ?case by auto
next
  case (Cons b bs)
  show ?case
  proof (cases "candidate b scheme minHead")
    case False
    then have "reserve_loop L clock scheme minHead (Suc i) bs (minDelay, minIdx, keep) lims = ((d, x, k), lims')"
      using Cons.prems by simp
    from Cons.IH [OF this] False show ?thesis using in_range_Cons by auto
  next
    case cand: True
    have head: "in_range (\<lambda>b. candidate b scheme minHead) i (b # bs) i" using cand by (rule in_range_head)
    show ?thesis
    proof (cases "limiter b")
      case None
      then have "x = Some i" using Cons.prems cand by simp
      then show ?thesis using head by simp
    next
      case (Some l)
      obtain e r l' where rv: "Reserve L (clock i) (lims l) = ((e, r), l')" by (metis prod.collapse)
      show ?thesis
      proof (cases "e < minDelay")
        case True
        then obtain lims1 where "reserve_loop L clock scheme minHead (Suc i) bs (e, Some i, Some (l, r)) lims1 = ((d, x, k), lims')"
          using Cons.prems cand Some rv by (simp add: Let_def)
        note IH = Cons.IH [OF this]
        then have "x \<noteq> None" by blast
        moreover from IH have "x = Some i \<or> (\<exists>j. x = Some j \<and> in_range (\<lambda>b. candidate b scheme minHead) (Suc i) bs j)"
          by blast
        ultimately show ?thesis using in_range_Cons head by auto
      next
        case False
        then obtain lims1 where "reserve_loop L clock scheme minHead (Suc i) bs (minDelay, minIdx, keep) lims1 = ((d, x, k), lims')"
          using Cons.prems cand Some rv by (simp add: Let_def)
        note IH = Cons.IH [OF this]
        have "\<not> (finite_waits L \<and> minDelay = 2 ^ 63 - 1)"
          using False rv unfolding finite_waits_def by blast
        then show ?thesis using IH in_range_Cons by blast
      qed
    qed
  qed
qed

lemma weighted_member: "weighted F r cur dflt rs \<in> insert dflt (fst ` set rs)"
  by (induction F r cur dflt rs rule: weighted.induct) (auto simp: Let_def)

lemma randN_less: "0 < n \<Longrightarrow> n < 2 ^ 64 \<Longrightarrow> fst (randN n s) < n"
proof -
  assume n: "0 < n" "n < 2 ^ 64"
  have "unat (x mod of_nat n) < n" for x :: u64
    using n by (simp add: unat_mod unat_of_nat_u64)
  then show ?thesis using n by (simp add: randN_def)
qed

lemma select_ready_member:
  assumes "rs \<noteq> []" and "length rs < 2 ^ 64"
  shows "fst (select_ready F rs s) \<in> fst ` set rs"
proof -
  have "fst (rs ! k) \<in> fst ` set rs" if "k < length rs" for k using that by simp
  moreover have "fst (randN (length rs) s) < length rs" using randN_less assms by simp
  moreover have "weighted F r cur (fst (last rs)) rs \<in> fst ` set rs" for r cur
    using weighted_member [of F r cur "fst (last rs)" rs] assms(1) by auto
  ultimately show ?thesis
    using assms(1) by (auto simp: select_ready_def Let_def hd_in_set split: prod.split)
qed

lemma ready_loop_length:
  "ready_loop L clock scheme minHead ws i bes lims = (Done rs, lims') \<Longrightarrow> length rs \<le> length bes"
proof (induction bes arbitrary: i lims rs lims')
  case Nil
  then show ?case by simp
next
  case (Cons b bs)
  then show ?case
    by (auto split: if_splits prod.splits bool.splits option.splits elim!: obind_DoneE)
      (fastforce dest: Cons.IH)+
qed

text \<open>What one attempt picks, and when it picks nothing.\<close>

definition seen :: "('l, 'r) pick_env \<Rightarrow> nat \<Rightarrow> string \<Rightarrow> u64 \<Rightarrow> bool" where
  "seen env i scheme minHead \<longleftrightarrow>
     candidate (read1 env i) scheme minHead \<or> candidate (read2 env i) scheme minHead"

lemma in_range_map: "in_range P 0 (map f [0..<n]) k \<longleftrightarrow> k < n \<and> P (f k)"
  by (auto simp: in_range_def)

lemma pick_once_sound:
  assumes "pick_once F L env scheme minHead n ws st = (r, st')" and "n < 2 ^ 64"
  shows "(n \<le> length ws \<longrightarrow> r \<noteq> Panic) \<and> (\<forall>e. r = Fail e \<longrightarrow> gone env = Some e)
    \<and> (\<forall>i. r = Done (Some i) \<longrightarrow> i < n \<and> seen env i scheme minHead)
    \<and> (r = Done None \<longrightarrow> finite_waits L \<longrightarrow> (\<forall>j < n. \<not> candidate (read2 env j) scheme minHead))"
proof -
  obtain s lims where st: "st = (s, lims)" by fastforce
  obtain q lims1 where q: "ready_loop L (clock1 env) scheme minHead ws 0 (map (read1 env) [0..<n]) lims = (q, lims1)"
    by fastforce
  note R = ready_loop_sound [OF q]
  show ?thesis
  proof (cases q)
    case Panic
    then have "r = Panic" using assms(1) q by (auto simp: pick_once_def st)
    then show ?thesis using R Panic by simp
  next
    case (Fail e)
    then show ?thesis using R by simp
  next
    case (Done rs)
    show ?thesis
    proof (cases "rs = []")
      case False
      have sub: "fst ` set rs \<subseteq> {..<n}" and cands: "\<forall>k \<in> fst ` set rs. candidate (read1 env k) scheme minHead"
        using R Done by (auto simp: in_range_map)
      have "length rs < 2 ^ 64"
      proof -
        have "length rs \<le> n" using ready_loop_length [OF q [unfolded Done]] by simp
        then show ?thesis using assms(2) by simp
      qed
      from select_ready_member [OF False this, of F s] sub cands
      have "fst (select_ready F rs s) < n \<and> candidate (read1 env (fst (select_ready F rs s))) scheme minHead" by auto
      moreover have "r = Done (Some (fst (select_ready F rs s)))"
        using assms(1) q Done False by (auto simp: pick_once_def st split: prod.splits)
      ultimately show ?thesis by (simp add: seen_def)
    next
      case True
      obtain d x k lims2 where rl: "reserve_loop L (clock2 env) scheme minHead 0 (map (read2 env) [0..<n])
          (2 ^ 63 - 1, None, None) lims1 = ((d, x, k), lims2)" by (metis prod_cases3 surj_pair)
      note V = reserve_loop_sound [OF rl]
      show ?thesis
      proof (cases x)
        case None
        then have "r = Done None" using assms(1) q Done True rl by (auto simp: pick_once_def st)
        then show ?thesis using V None by auto
      next
        case (Some i)
        then have "i < n \<and> candidate (read2 env i) scheme minHead" using V by (auto simp: in_range_map)
        moreover have "r = Done (Some i) \<or> (\<exists>e. r = Fail e \<and> gone env = Some e)"
          using assms(1) q Done True rl Some by (auto simp: pick_once_def st split: if_splits option.splits)
        ultimately show ?thesis by (auto simp: seen_def)
      qed
    qed
  qed
qed

lemma PickAtLeast_cases:
  assumes "PickAtLeast F L env env2 c scheme minHead (lb, lims) = (r, lb', lims')"
  obtains (empty) "members lb c = []" "r = Fail (''no backends for chain '' @ quoted c)"
  | (first) q st where "members lb c \<noteq> []"
      "pick_once F L env scheme minHead (length (members lb c)) (weights lb c) (seed lb, lims) = (q, st)"
      "q \<noteq> Done None" "r = (case q of Panic \<Rightarrow> Panic | Fail e \<Rightarrow> Fail e | Done x \<Rightarrow> Done (the x))"
  | (none) st where "members lb c \<noteq> []" "minHead = 0"
      "pick_once F L env scheme minHead (length (members lb c)) (weights lb c) (seed lb, lims) = (Done None, st)"
      "r = Fail (no_candidate scheme c)"
  | (fallback) st q st2 where "members lb c \<noteq> []" "minHead \<noteq> 0"
      "pick_once F L env scheme minHead (length (members lb c)) (weights lb c) (seed lb, lims) = (Done None, st)"
      "pick_once F L env2 scheme 0 (length (members lb c)) (weights lb c) st = (q, st2)"
      "r = (case q of Panic \<Rightarrow> Panic | Fail e \<Rightarrow> Fail e
           | Done x \<Rightarrow> (case x of None \<Rightarrow> Fail (no_candidate scheme c) | Some i \<Rightarrow> Done i))"
proof (cases "members lb c = []")
  case True
  then show ?thesis using assms empty by (simp add: PickAtLeast_def)
next
  case ne: False
  obtain q s lims1 where q: "pick_once F L env scheme minHead (length (members lb c)) (weights lb c) (seed lb, lims)
      = (q, s, lims1)" by (metis prod_cases3)
  show ?thesis
  proof (cases "q = Done None")
    case False
    then have "r = (case q of Panic \<Rightarrow> Panic | Fail e \<Rightarrow> Fail e | Done x \<Rightarrow> Done (the x))"
      using assms ne q by (auto simp: PickAtLeast_def Let_def split: outcome.splits option.splits)
    then show ?thesis using first ne q False by blast
  next
    case True
    obtain q2 s2 lims2 where q2: "pick_once F L env2 scheme 0 (length (members lb c)) (weights lb c) (s, lims1)
      = (q2, s2, lims2)" by (metis prod_cases3)
    show ?thesis
    proof (cases "minHead = 0")
      case True
      have "r = Fail (no_candidate scheme c)"
        using assms ne q \<open>q = Done None\<close> True by (simp add: PickAtLeast_def)
      then show ?thesis using none ne True q \<open>q = Done None\<close> by blast
    next
      case False
      have "r = (case q2 of Panic \<Rightarrow> Panic | Fail e \<Rightarrow> Fail e
           | Done x \<Rightarrow> (case x of None \<Rightarrow> Fail (no_candidate scheme c) | Some i \<Rightarrow> Done i))"
        using assms ne q q2 True False
        by (auto simp: PickAtLeast_def Let_def split: outcome.splits option.splits)
      then show ?thesis using fallback ne False q q2 True by blast
    qed
  qed
qed

text \<open>
  C16. The backend chosen for a request is one of the chain's own, and was healthy, served the scheme and
  did not trail the block the request needs when the choice read it. Only when the choice found no
  backend of that kind may it be one that trails: healthy, of the scheme.
\<close>

theorem PickAtLeast_candidate:
  assumes "PickAtLeast F L env env2 c scheme minHead (lb, lims) = (Done i, lb', lims')"
    and "length (members lb c) < 2 ^ 64" and "finite_waits L"
  shows "i < length (members lb c)
    \<and> (seen env i scheme minHead
       \<or> minHead \<noteq> 0 \<and> seen env2 i scheme 0
         \<and> (\<forall>j < length (members lb c). \<not> candidate (read2 env j) scheme minHead))"
  using assms(1)
proof (cases rule: PickAtLeast_cases)
  case (first q st)
  then obtain x where "q = Done (Some x)" "x = i" by (cases q) (auto split: option.splits)
  then show ?thesis using pick_once_sound [OF first(2) assms(2)] by simp
next
  case (fallback st q st2)
  then have "q = Done (Some i)" by (cases q) (auto split: option.splits)
  then show ?thesis
    using pick_once_sound [OF fallback(3) assms(2)] pick_once_sound [OF fallback(4) assms(2)] fallback(2) assms(3)
    by simp
qed simp_all

text \<open>
  C28. The choice fails only for a reason: the chain has no backend, the caller left during the wait for a
  rate limit, or no backend of the chain was healthy and of the scheme when the last loop read it. A
  head that every backend trails is no reason.
\<close>

theorem PickAtLeast_fails:
  assumes "PickAtLeast F L env env2 c scheme minHead (lb, lims) = (r, lb', lims')"
    and "\<And>i. r \<noteq> Done i"
    and "length (members lb c) < 2 ^ 64" and "finite_waits L"
    and "length (weights lb c) = length (members lb c)"
  shows "members lb c = [] \<or> (\<exists>e. r = Fail e \<and> (gone env = Some e \<or> gone env2 = Some e))
    \<or> (\<forall>j < length (members lb c). \<not> candidate (read2 (if minHead = 0 then env else env2) j) scheme 0)"
  using assms(1)
proof (cases rule: PickAtLeast_cases)
  case empty
  then show ?thesis by simp
next
  case (first q st)
  then show ?thesis using pick_once_sound [OF first(2) assms(3)] assms(2,5) by (cases q) auto
next
  case (none st)
  then show ?thesis using pick_once_sound [OF none(3) assms(3)] assms(4) by auto
next
  case (fallback st q st2)
  note P = pick_once_sound [OF fallback(4) assms(3)]
  show ?thesis
  proof (cases q)
    case Panic
    then show ?thesis using P assms(5) by simp
  next
    case (Fail e)
    then show ?thesis using P fallback(5) by simp
  next
    case (Done x)
    then show ?thesis using P fallback(2,5) assms(2,4) by (cases x) auto
  qed
qed

section \<open>Health\<close>

lemma sint_small:
  "n < 2 ^ 31 \<Longrightarrow> sint (of_nat n :: 32 word) = int n"
  "0 \<le> k \<Longrightarrow> k < 2 ^ 31 \<Longrightarrow> sint (of_int k :: 32 word) = k"
  by (simp_all add: signed_of_nat signed_of_int signed_take_bit_int_eq_self)

lemma push_latency_Some:
  assumes "1 \<le> samples"
  shows "\<exists>h'. push_latency samples l h = Some h' \<and> (int (length h) \<le> samples \<longrightarrow> int (length h') \<le> samples)"
  using assms by (cases h) (auto simp: push_latency_def)

lemma weigh_pool [simp]: "pool (weigh F c perf lb) = pool lb" "members (weigh F c perf lb) = members lb"
  by (simp_all add: weigh_def Let_def)

lemma set_backend_simps [simp]:
  "pool (set_backend i b lb) = (pool lb)[i := b]" "members (set_backend i b lb) = members lb"
  "weights (set_backend i b lb) = weights lb"
  by (simp_all add: set_backend_def)

text \<open>A probe counts as passed when the response has a status of success.\<close>

definition passed :: "probe_result \<Rightarrow> bool" where
  "passed res = (case res of ProbeError e \<Rightarrow> False | Probed status reason body d \<Rightarrow> 200 \<le> status \<and> status < 300)"

text \<open>The health fields of a backend, with its URL.\<close>

definition health :: "backend \<Rightarrow> (bool \<times> 32 word \<times> 32 word) \<times> string option" where
  "health b = ((HealthUp b, HealthFailStreak b, HealthPassStreak b), URL b)"

lemma health_mark:
  "health (markUp n b) = (((if sint (of_int n :: 32 word) \<le> sint (HealthPassStreak b + 1) then True else HealthUp b),
     0, HealthPassStreak b + 1), URL b)"
  "health (markDown e n b) = (((if sint (of_int n :: 32 word) \<le> sint (HealthFailStreak b + 1) then False else HealthUp b),
     HealthFailStreak b + 1, 0), URL b)"
  by (simp_all add: health_def markUp_def markDown_def Let_def)

lemma health_cong:
  "health b = health b' \<Longrightarrow> health (markUp n b) = health (markUp n b')"
  "health b = health b' \<Longrightarrow> health (markDown e n b) = health (markDown e' n b')"
  unfolding health_mark by (simp_all add: health_def)

lemma UpdateLatency_health:
  assumes "1 \<le> Samples perf" and "i < length (pool lb)"
  shows "\<exists>lb1. UpdateLatency F i d perf lb = Some lb1 \<and> length (pool lb1) = length (pool lb)
    \<and> health (pool lb1 ! i) = health (pool lb ! i)"
  using push_latency_Some [OF assms(1), of d "PerformanceLatencyHistory (pool lb ! i)"] assms(2)
  by (auto simp: UpdateLatency_def Let_def health_def)

lemma probe_health:
  assumes "1 \<le> Samples perf" and "i < length (pool lb)" and "URL (pool lb ! i) \<noteq> None"
  shows "\<exists>lb' cache'. probe F ops hc perf i res (lb, cache) = Some (lb', cache')
    \<and> length (pool lb') = length (pool lb)
    \<and> health (pool lb' ! i) = (if passed res then health (markUp (PassesToUp hc) (pool lb ! i))
                               else health (markDown [] (FailsToDown hc) (pool lb ! i)))"
proof (cases "passed res")
  case False
  then obtain e where "probe F ops hc perf i res (lb, cache)
      = Some (set_backend i (markDown e (FailsToDown hc) (pool lb ! i)) lb, cache)"
    using assms(3) by (cases res) (auto simp: probe_def passed_def)
  then show ?thesis
    using False assms(2) health_cong(2) [of "pool lb ! i" "pool lb ! i" e "FailsToDown hc" "[]"] by simp
next
  case True
  then obtain status reason body d where r: "res = Probed status reason body d" "200 \<le> status" "status < 300"
    by (cases res) (auto simp: passed_def)
  obtain lb1 where lb1: "UpdateLatency F i d perf lb = Some lb1" "length (pool lb1) = length (pool lb)"
      "health (pool lb1 ! i) = health (pool lb ! i)"
    using UpdateLatency_health [OF assms(1,2)] by blast
  let ?b1 = "case HeadFromResponse body of None \<Rightarrow> pool lb1 ! i
      | Some h \<Rightarrow> (pool lb1 ! i)\<lparr>Head := apply_head (ObserveHead h) (Head (pool lb1 ! i))\<rparr>"
  have "health ?b1 = health (pool lb ! i)"
    using lb1(3) by (auto simp: health_def split: option.split)
  then have "health (markUp (PassesToUp hc) ?b1) = health (markUp (PassesToUp hc) (pool lb ! i))"
    by (rule health_cong(1))
  then show ?thesis using r lb1(1,2) True assms(2,3) by (simp add: probe_def Let_def)
qed

text \<open>
  What the probes mean, without counters: the outcomes are looked at from the latest back; the backend is
  up once the last \<open>m\<close> outcomes are passes, down once the last \<open>n\<close> are failures, and otherwise as it
  was one outcome earlier.
\<close>

fun up_after :: "nat \<Rightarrow> nat \<Rightarrow> bool \<Rightarrow> bool list \<Rightarrow> bool" where
  "up_after m n up [] = up"
| "up_after m n up (p # ps) =
     (if m \<le> length (p # ps) \<and> list_all (\<lambda>p. p) (take m (p # ps)) then True
      else if n \<le> length (p # ps) \<and> list_all Not (take n (p # ps)) then False
      else up_after m n up ps)"

definition run_probes ::
  "'f float64 \<Rightarrow> ('m, 'd) tiers \<Rightarrow> HealthConfig \<Rightarrow> 'f PerformanceConfig \<Rightarrow> nat \<Rightarrow> probe_result list
     \<Rightarrow> 'f balancer \<times> ('m, 'd) store option \<Rightarrow> ('f balancer \<times> ('m, 'd) store option) option" where
  "run_probes F ops hc perf i prs lbs =
     foldl (\<lambda>s res. Option.bind s (probe F ops hc perf i res)) (Some lbs) prs"

lemma streak_window:
  "m \<le> length xs \<and> list_all P (take m xs) \<longleftrightarrow> m \<le> length (takeWhile P xs)"
proof (induction xs arbitrary: m)
  case Nil
  then show ?case by auto
next
  case (Cons x xs)
  then show ?case by (cases m) auto
qed

lemma run_probes_health:
  assumes "1 \<le> Samples perf" and "i < length (pool lb)"
    and "HealthFailStreak (pool lb ! i) = 0" and "HealthPassStreak (pool lb ! i) = 0"
    and "0 < FailsToDown hc" and "FailsToDown hc < 2 ^ 31" and "0 < PassesToUp hc" and "PassesToUp hc < 2 ^ 31"
    and "length prs < 2 ^ 31" and "URL (pool lb ! i) \<noteq> None"
  shows "\<exists>lb' cache'. run_probes F ops hc perf i prs (lb, cache) = Some (lb', cache')
    \<and> length (pool lb') = length (pool lb)
    \<and> health (pool lb' ! i)
        = ((up_after (nat (PassesToUp hc)) (nat (FailsToDown hc)) (HealthUp (pool lb ! i)) (rev (map passed prs)),
            of_nat (length (takeWhile Not (rev (map passed prs)))), of_nat (length (takeWhile (\<lambda>p. p) (rev (map passed prs))))),
           URL (pool lb ! i))"
  using assms(9)
proof (induction prs rule: rev_induct)
  case Nil
  then show ?case using assms(3,4) by (simp add: run_probes_def health_def)
next
  case (snoc res prs)
  let ?os = "rev (map passed prs)"
  obtain lb1 cache1 where run: "run_probes F ops hc perf i prs (lb, cache) = Some (lb1, cache1)"
      "length (pool lb1) = length (pool lb)"
      "health (pool lb1 ! i)
        = ((up_after (nat (PassesToUp hc)) (nat (FailsToDown hc)) (HealthUp (pool lb ! i)) ?os,
            of_nat (length (takeWhile Not ?os)), of_nat (length (takeWhile (\<lambda>p. p) ?os))), URL (pool lb ! i))"
    using snoc.IH snoc.prems by auto
  have h1: "HealthUp (pool lb1 ! i) = up_after (nat (PassesToUp hc)) (nat (FailsToDown hc)) (HealthUp (pool lb ! i)) ?os"
      "HealthFailStreak (pool lb1 ! i) = of_nat (length (takeWhile Not ?os))"
      "HealthPassStreak (pool lb1 ! i) = of_nat (length (takeWhile (\<lambda>p. p) ?os))"
      "URL (pool lb1 ! i) = URL (pool lb ! i)"
    using run(3) by (simp_all add: health_def)
  have "i < length (pool lb1)" "URL (pool lb1 ! i) \<noteq> None" using run(2) assms(2,10) h1(4) by simp_all
  from probe_health [OF assms(1) this, of F ops hc res cache1] obtain lb2 cache2 where
    p: "probe F ops hc perf i res (lb1, cache1) = Some (lb2, cache2)" "length (pool lb2) = length (pool lb1)"
      "health (pool lb2 ! i) = (if passed res then health (markUp (PassesToUp hc) (pool lb1 ! i))
                               else health (markDown [] (FailsToDown hc) (pool lb1 ! i)))" by blast
  have step: "run_probes F ops hc perf i (prs @ [res]) (lb, cache) = Some (lb2, cache2)"
    using run(1) p(1) by (simp add: run_probes_def)
  have w: "sint (of_nat (length (takeWhile P ?os)) + 1 :: 32 word) = int (length (takeWhile P ?os)) + 1" for P
  proof -
    have "length (takeWhile P ?os) < 2 ^ 31 - 1"
      using snoc.prems length_takeWhile_le [of P ?os] by simp
    then have "sint (of_nat (Suc (length (takeWhile P ?os))) :: 32 word) = int (Suc (length (takeWhile P ?os)))"
      by (intro sint_small(1)) simp
    then show ?thesis by (simp add: ac_simps)
  qed
  have t: "sint (of_int (PassesToUp hc) :: 32 word) = PassesToUp hc" "sint (of_int (FailsToDown hc) :: 32 word) = FailsToDown hc"
    using assms(5-8) by (simp_all add: sint_small(2))
  have "health (pool lb2 ! i)
      = ((up_after (nat (PassesToUp hc)) (nat (FailsToDown hc)) (HealthUp (pool lb ! i)) (passed res # ?os),
          of_nat (length (takeWhile Not (passed res # ?os))), of_nat (length (takeWhile (\<lambda>p. p) (passed res # ?os)))),
         URL (pool lb ! i))"
  proof (cases "passed res")
    case True
    then show ?thesis
      using assms(5,7) unfolding p(3) health_mark h1 t up_after.simps streak_window
      by (simp add: w nat_le_iff)
  next
    case False
    then show ?thesis
      using assms(5,7) unfolding p(3) health_mark h1 t up_after.simps streak_window
      by (simp add: w nat_le_iff)
  qed
  then show ?case using step p(2) run(2) by simp
qed

text \<open>
  C17. The health of a backend follows its probes with hysteresis: after any series of probes it is up or
  down as the latest window of \<open>PassesToUp\<close> passes or \<open>FailsToDown\<close> failures in a row decides, and as it
  started when there was none. A failure among passes, or a pass among failures, starts the count
  again. Probes of a backend with a URL never panic.
\<close>

theorem probe_hysteresis:
  assumes "1 \<le> Samples perf" and "i < length (pool lb)"
    and "HealthFailStreak (pool lb ! i) = 0" and "HealthPassStreak (pool lb ! i) = 0"
    and "0 < FailsToDown hc" and "FailsToDown hc < 2 ^ 31" and "0 < PassesToUp hc" and "PassesToUp hc < 2 ^ 31"
    and "length prs < 2 ^ 31" and "URL (pool lb ! i) \<noteq> None"
  shows "\<exists>lb' cache'. run_probes F ops hc perf i prs (lb, cache) = Some (lb', cache')
    \<and> HealthUp (pool lb' ! i)
        = up_after (nat (PassesToUp hc)) (nat (FailsToDown hc)) (HealthUp (pool lb ! i)) (rev (map passed prs))"
  using run_probes_health [OF assms, of F ops cache] by (auto simp: health_def)

section \<open>Latencies\<close>

definition record_latencies :: "int \<Rightarrow> int list \<Rightarrow> int list option" where
  "record_latencies samples ls = foldl (\<lambda>h l. Option.bind h (push_latency samples l)) (Some []) ls"

lemma record_latencies_window:
  assumes "1 \<le> samples"
  shows "record_latencies samples ls = Some (drop (length ls - nat samples) ls)"
proof (induction ls rule: rev_induct)
  case Nil
  then show ?case by (simp add: record_latencies_def)
next
  case (snoc l ls)
  let ?h = "drop (length ls - nat samples) ls"
  have r: "record_latencies samples (ls @ [l]) = push_latency samples l ?h"
    using snoc.IH by (simp add: record_latencies_def)
  show ?case
  proof (cases "nat samples \<le> length ls")
    case True
    then have len: "length ?h = nat samples" by simp
    then obtain x t where h: "?h = x # t" using assms by (cases ?h) auto
    have "t = drop (Suc (length ls - nat samples)) ls" using h by (metis drop_Suc list.sel(3) tl_drop)
    moreover have "Suc (length ls - nat samples) = length (ls @ [l]) - nat samples"
      and "Suc (length ls - nat samples) \<le> length ls" using True assms by auto
    ultimately show ?thesis using r len h assms by (simp add: push_latency_def)
  next
    case False
    then have "int (length ls) < samples" by (simp add: nat_le_iff)
    then show ?thesis using r False by (simp add: push_latency_def)
  qed
qed

lemma sum_wraps_not:
  assumes "\<forall>l \<in> set ls. 0 \<le> l" and "0 \<le> t" and "t + sum_list ls < 2 ^ 63"
  shows "foldl (\<lambda>t l. wrap64 (t + l)) t ls = t + sum_list ls"
  using assms
proof (induction ls arbitrary: t)
  case Nil
  then show ?case by simp
next
  case (Cons l ls)
  have "0 \<le> sum_list ls" using Cons.prems(1) by (intro sum_list_nonneg) simp
  then have "wrap64 (t + l) = t + l" using Cons.prems by (intro wrap64_id) simp_all
  then show ?case using Cons by simp
qed

lemma sum_list_between:
  assumes "\<forall>l \<in> set ls. lo \<le> l \<and> l \<le> hi"
  shows "lo * int (length ls) \<le> sum_list ls \<and> sum_list ls \<le> hi * int (length ls)"
  using assms by (induction ls) (auto simp: algebra_simps)

text \<open>
  The latency a backend is weighed by is the average of its last \<open>Samples\<close> responses: the history
  holds exactly those, and their average lies between the fastest and the slowest of them.
\<close>

theorem latency_window:
  assumes "1 \<le> samples" and "ls \<noteq> []" and "\<forall>l \<in> set ls. 0 \<le> l" and "sum_list ls < 2 ^ 63"
  shows "\<exists>h. record_latencies samples ls = Some h \<and> h = drop (length ls - nat samples) ls
    \<and> Min (set h) \<le> average_latency h \<and> average_latency h \<le> Max (set h)"
proof -
  let ?h = "drop (length ls - nat samples) ls"
  have "length ls - nat samples < length ls" using assms(1,2) by (intro diff_less) simp_all
  then have ne: "?h \<noteq> []" by simp
  have pos: "\<forall>l \<in> set ?h. 0 \<le> l" using assms(3) set_drop_subset by fastforce
  have "sum_list (take (length ls - nat samples) ls) + sum_list ?h = sum_list ls"
    by (metis append_take_drop_id sum_list_append)
  moreover have "0 \<le> sum_list (take (length ls - nat samples) ls)"
    using assms(3) by (intro sum_list_nonneg) (auto dest: in_set_takeD)
  ultimately have "sum_list ?h < 2 ^ 63" using assms(4) by linarith
  then have sum: "foldl (\<lambda>t l. wrap64 (t + l)) 0 ?h = sum_list ?h" using sum_wraps_not [OF pos, of 0] by simp
  have "0 \<le> sum_list ?h" using pos by (intro sum_list_nonneg) simp
  then have avg: "average_latency ?h = sum_list ?h div int (length ?h)"
    by (simp add: average_latency_def sum go_div_def)
  have b: "Min (set ?h) * int (length ?h) \<le> sum_list ?h \<and> sum_list ?h \<le> Max (set ?h) * int (length ?h)"
    by (rule sum_list_between) simp
  have n: "0 < int (length ?h)" using ne by simp
  have "Min (set ?h) \<le> sum_list ?h div int (length ?h)"
    using zdiv_mono1 [OF conjunct1 [OF b] n] n by (metis nonzero_mult_div_cancel_right order_less_irrefl)
  moreover have "sum_list ?h div int (length ?h) \<le> Max (set ?h)"
    using zdiv_mono1 [OF conjunct2 [OF b] n] n by (metis nonzero_mult_div_cancel_right order_less_irrefl)
  ultimately show ?thesis using record_latencies_window [OF assms(1)] avg by auto
qed

section \<open>The balancer as a machine\<close>

inductive balancer_step ::
  "'f float64 \<Rightarrow> ('l, 'r) rate_limiter \<Rightarrow> ('m, 'd) tiers \<Rightarrow> HealthConfig \<Rightarrow> 'f PerformanceConfig
     \<Rightarrow> 'f balancer \<times> ('m, 'd) store option \<Rightarrow> 'f balancer \<times> ('m, 'd) store option \<Rightarrow> bool"
  for F L ops hc perf where
  pick: "PickAtLeast F L env env2 c scheme minHead (lb, lims) = (r, lb', lims') \<Longrightarrow>
    balancer_step F L ops hc perf (lb, cache) (lb', cache)"
| latency: "i < length (pool lb) \<Longrightarrow> UpdateLatency F i d perf lb = Some lb' \<Longrightarrow>
    balancer_step F L ops hc perf (lb, cache) (lb', cache)"
| head: "i < length (pool lb) \<Longrightarrow>
    balancer_step F L ops hc perf (lb, cache)
      (set_backend i ((pool lb ! i)\<lparr>Head := apply_head op (Head (pool lb ! i))\<rparr>) lb, cache)"
| probe: "i < length (pool lb) \<Longrightarrow> probe F ops hc perf i res (lb, cache) = Some lbs \<Longrightarrow>
    balancer_step F L ops hc perf (lb, cache) lbs"

definition sane_floats :: "'f float64 \<Rightarrow> bool" where
  "sane_floats F \<longleftrightarrow> \<not> fl_less F (fl_tenth F) (fl_tenth F) \<and> \<not> fl_less F (fl_one F) (fl_tenth F)"

definition balancer_ok :: "'f float64 \<Rightarrow> 'f PerformanceConfig \<Rightarrow> 'f balancer \<Rightarrow> bool" where
  "balancer_ok F perf lb \<longleftrightarrow>
     (\<forall>c. length (weights lb c) = length (members lb c) \<and> set (members lb c) \<subseteq> {..<length (pool lb)}
          \<and> (\<forall>w \<in> set (weights lb c). \<not> fl_less F w (fl_tenth F)))
     \<and> (\<forall>b \<in> set (pool lb). int (length (PerformanceLatencyHistory b)) \<le> Samples perf)"

lemma weight_of_floor: "sane_floats F \<Longrightarrow> \<not> fl_less F (weight_of F g f b) (fl_tenth F)"
  by (simp add: weight_of_def sane_floats_def Let_def)

lemma weigh_ok:
  assumes "sane_floats F" and "balancer_ok F perf lb"
  shows "balancer_ok F perf (weigh F c perf lb)"
proof -
  have "length (GetBackends lb c) = length (weights lb c)" using assms(2) by (simp add: balancer_ok_def GetBackends_def)
  moreover have "\<not> fl_less F (fl_one F) (fl_tenth F)" using assms(1) by (simp add: sane_floats_def)
  ultimately show ?thesis
    using assms(2) weight_of_floor [OF assms(1)] by (auto simp: weigh_def Let_def balancer_ok_def)
qed

lemma set_backend_ok:
  assumes "balancer_ok F perf lb" and "int (length (PerformanceLatencyHistory b)) \<le> Samples perf"
  shows "balancer_ok F perf (set_backend i b lb)"
  using assms set_update_subset_insert [of "pool lb" i b] by (auto simp: balancer_ok_def)

lemma seed_ok: "balancer_ok F perf (lb\<lparr>seed := s\<rparr>) = balancer_ok F perf lb"
  by (simp add: balancer_ok_def)

lemma UpdateLatency_ok:
  assumes "sane_floats F" and "1 \<le> Samples perf" and "balancer_ok F perf lb" and "i < length (pool lb)"
  shows "\<exists>lb'. UpdateLatency F i d perf lb = Some lb' \<and> balancer_ok F perf lb' \<and> length (pool lb') = length (pool lb)"
proof -
  have "int (length (PerformanceLatencyHistory (pool lb ! i))) \<le> Samples perf"
    using assms(3,4) by (simp add: balancer_ok_def)
  then obtain h where h: "push_latency (Samples perf) d (PerformanceLatencyHistory (pool lb ! i)) = Some h"
      "int (length h) \<le> Samples perf"
    using push_latency_Some [OF assms(2), of d "PerformanceLatencyHistory (pool lb ! i)"] by blast
  then show ?thesis
    using weigh_ok [OF assms(1) set_backend_ok [OF assms(3)]] by (simp add: UpdateLatency_def Let_def)
qed

lemma PickAtLeast_state:
  assumes "PickAtLeast F L env env2 c scheme minHead (lb, lims) = (r, lb', lims')"
  shows "\<exists>s. lb' = lb\<lparr>seed := s\<rparr>"
proof -
  show ?thesis
  proof (cases "members lb c = []")
    case True
    then have "lb' = lb\<lparr>seed := seed lb\<rparr>" using assms by (simp add: PickAtLeast_def)
    then show ?thesis ..
  next
    case False
    then show ?thesis
      using assms
      by (auto simp: PickAtLeast_def Let_def split: if_splits prod.splits outcome.splits option.splits)
  qed
qed

lemma balancer_step_ok:
  assumes "sane_floats F" and "1 \<le> Samples perf" and "balancer_ok F perf (fst s)"
    and "balancer_step F L ops hc perf s s'"
  shows "balancer_ok F perf (fst s')"
  using assms(4)
proof (cases rule: balancer_step.cases)
  case (pick env env2 c scheme minHead lb lims r lb' lims' cache)
  then show ?thesis using PickAtLeast_state [OF pick(3)] assms(3) by (auto simp: seed_ok)
next
  case (latency i lb d lb' cache)
  then show ?thesis using UpdateLatency_ok [OF assms(1,2), of lb i d] assms(3) by auto
next
  case (head i lb cache op)
  then show ?thesis using assms(3) by (auto intro!: set_backend_ok) (simp add: balancer_ok_def)
next
  case (probe i lb res cache)
  have hist: "int (length (PerformanceLatencyHistory (pool l ! i))) \<le> Samples perf"
    if "balancer_ok F perf l" "length (pool l) = length (pool lb)" for l :: "'a balancer"
    using that probe(2) by (simp add: balancer_ok_def)
  have ok: "balancer_ok F perf lb" using assms(3) probe(1) by simp
  have down: "balancer_ok F perf (set_backend i (markDown e (FailsToDown hc) (pool lb ! i)) lb)" for e
    using ok hist [OF ok] by (intro set_backend_ok) (simp_all add: markDown_def Let_def)
  show ?thesis
  proof (cases "passed res")
    case False
    then show ?thesis using probe(3) down by (cases res) (auto simp: probe_def passed_def split: if_splits)
  next
    case True
    then obtain status reason body d where r: "res = Probed status reason body d" "200 \<le> status" "status < 300"
      by (cases res) (auto simp: passed_def)
    obtain lb1 where lb1: "UpdateLatency F i d perf lb = Some lb1" "balancer_ok F perf lb1" "length (pool lb1) = length (pool lb)"
      using UpdateLatency_ok [OF assms(1,2) ok probe(2)] by blast
    have "balancer_ok F perf (set_backend i (markUp (PassesToUp hc) b) lb1)"
      if "PerformanceLatencyHistory b = PerformanceLatencyHistory (pool lb1 ! i)" for b
      using hist [OF lb1(2,3)] lb1(2) that by (intro set_backend_ok) (simp_all add: markUp_def Let_def)
    then show ?thesis using probe(3) r lb1(1) by (auto simp: probe_def Let_def split: option.splits if_splits)
  qed
qed

lemma NewLoadBalancer_ok:
  assumes "sane_floats F" and "1 \<le> Samples perf"
  shows "balancer_ok F perf (NewLoadBalancer F bs s)"
  using assms by (auto simp: balancer_ok_def NewLoadBalancer_def Let_def sane_floats_def)

interpretation balancing: invariant_machine "(NewLoadBalancer F bs s, cache)" "balancer_step F L ops hc perf"
  "\<lambda>st. sane_floats F \<and> 1 \<le> Samples perf \<longrightarrow> balancer_ok F perf (fst st)"
  for F bs s cache L ops hc perf
proof
  show "sane_floats F \<and> 1 \<le> Samples perf \<longrightarrow> balancer_ok F perf (fst (NewLoadBalancer F bs s, cache))"
    by (simp add: NewLoadBalancer_ok)
  show "sane_floats F \<and> 1 \<le> Samples perf \<longrightarrow> balancer_ok F perf (fst s')"
    if "sane_floats F \<and> 1 \<le> Samples perf \<longrightarrow> balancer_ok F perf (fst st)" "balancer_step F L ops hc perf st s'"
    for st s' using that balancer_step_ok by blast
qed

text \<open>
  However requests, heads and probes interleave, each chain keeps exactly one weight per backend, no
  weight falls below 0.1 (so that every backend stays in use), no latency history outgrows the
  configured number of samples, and recording a latency never panics.
\<close>

theorem balancer_invariant:
  assumes "(balancer_step F L ops hc perf)\<^sup>*\<^sup>* (NewLoadBalancer F bs s, cache) (lb, cache')"
    and "sane_floats F" and "1 \<le> Samples perf"
  shows "length (weights lb c) = length (members lb c)
    \<and> (\<forall>w \<in> set (weights lb c). \<not> fl_less F w (fl_tenth F))
    \<and> (\<forall>b \<in> set (pool lb). int (length (PerformanceLatencyHistory b)) \<le> Samples perf)
    \<and> (\<forall>i \<in> set (members lb c). UpdateLatency F i d perf lb \<noteq> None)"
proof -
  have ok: "balancer_ok F perf lb" using balancing.reachable [OF assms(1)] assms(2,3) by simp
  have "UpdateLatency F i d perf lb \<noteq> None" if "i \<in> set (members lb c)" for i
  proof -
    have "i < length (pool lb)" using ok that by (auto simp: balancer_ok_def)
    then show ?thesis using UpdateLatency_ok [OF assms(2,3) ok, of i d] by auto
  qed
  then show ?thesis using ok by (simp add: balancer_ok_def)
qed

section \<open>Samples\<close>

text \<open>Fixed-point numbers in tenths, a limiter that counts tokens, and two nodes of one chain.\<close>

definition sample_floats :: "int float64" where
  "sample_floats =
     \<lparr>fl_of_int = (\<lambda>n. 10 * n), fl_of_u64 = (\<lambda>x. 10 * uint x), fl_add = (+), fl_mul = (\<lambda>a b. a * b div 10),
      fl_div = (\<lambda>a b. a * 10 div b), fl_pow = (\<lambda>a b. a), fl_neg = uminus, fl_le = (\<le>), fl_less = (<),
      fl_zero = 0, fl_tenth = 1, fl_one = 10\<rparr>"

definition sample_limiter :: "(nat, unit) rate_limiter" where
  "sample_limiter =
     \<lparr>Allow = (\<lambda>t k. (0 < k, k - 1)), Reserve = (\<lambda>t k. ((if 0 < k then 0 else 100, ()), k - 1)),
      Cancel = (\<lambda>r k. k + 1)\<rparr>"

definition sample_backend :: "string \<Rightarrow> u64 \<Rightarrow> backend" where
  "sample_backend n h =
     \<lparr>Name = n, Chain = ''eth'', URL = Some ''http://node'', WSURL = None, limiter = Some 0,
      PerformanceLatencyHistory = [], PerformanceAvgLatency = 0, RequestCount = 0, HealthUp = True,
      HealthFailStreak = 0, HealthPassStreak = 0, HealthLastErr = [], Head = h\<rparr>"

definition sample_balancer :: "int balancer" where
  "sample_balancer = NewLoadBalancer sample_floats [sample_backend ''a'' 3, sample_backend ''b'' 7] 1"

definition sample_env :: "string option \<Rightarrow> (nat, unit) pick_env" where
  "sample_env e =
     \<lparr>clock1 = int, clock2 = int, read1 = (!) (pool sample_balancer), read2 = (!) (pool sample_balancer), gone = e\<rparr>"

definition sample_perf :: "int PerformanceConfig" where
  "sample_perf = \<lparr>PTimeout = 2000000000, Samples = 2, Gamma = 9, MaxIdleConns = 8192, MaxIdleConnsPerHost = 2048,
      IdleConnTimeout = 90000000000, DisableKeepAlives = False, EnableHTTP2 = True, MaxConcurrentStreams = 250,
      PEnableCompression = True, CompressionLevel = 6\<rparr>"

definition sample_health :: HealthConfig where
  "sample_health = \<lparr>HEnabled = True, TTLCheck = 1000000000, HTimeout = 1500000000, FailsToDown = 2, PassesToUp = 2\<rparr>"

lemma sample_sane: "sane_floats sample_floats"
  by (simp add: sane_floats_def sample_floats_def)

lemma sample_finite: "finite_waits sample_limiter"
  by (auto simp: finite_waits_def sample_limiter_def)

lemma sample_pool [simp]:
  "members sample_balancer ''eth'' = [0, 1]" "weights sample_balancer ''eth'' = [10, 10]"
  "pool sample_balancer = [sample_backend ''a'' 3, sample_backend ''b'' 7]"
  by (simp_all add: sample_balancer_def NewLoadBalancer_def sample_backend_def sample_floats_def Let_def upt_rec)

lemma sample_candidate [simp]: "candidate (sample_backend n h) ''http'' k \<longleftrightarrow> \<not> (0 < k \<and> 0 < h \<and> h < k)"
  by (simp add: candidate_def sample_backend_def)

lemma sample_reads [simp]:
  "read1 (sample_env e) = (!) (pool sample_balancer)" "read2 (sample_env e) = (!) (pool sample_balancer)"
  "gone (sample_env e) = e"
  by (simp_all add: sample_env_def)

lemma sample_limited [simp]:
  "limiter (sample_backend n h) = Some 0" "Allow sample_limiter t k = (0 < k, k - 1)"
  "Reserve sample_limiter t k = ((if 0 < k then 0 else 100, ()), k - 1)" "Cancel sample_limiter r k = k + 1"
  by (simp_all add: sample_backend_def sample_limiter_def)

lemma sample_pick:
  "PickAtLeast sample_floats sample_limiter (sample_env None) (sample_env None) ''eth'' ''http'' 5 (sample_balancer, (\<lambda>_. 1))
     = (Done 1, sample_balancer, (\<lambda>_. 1)(0 := 0))"
  by (simp add: PickAtLeast_def pick_once_def select_ready_def Let_def upt_rec)

lemma PickAtLeast_candidate_witness:
  "PickAtLeast sample_floats sample_limiter (sample_env None) (sample_env None) ''eth'' ''http'' 5 (sample_balancer, (\<lambda>_. 1))
     = (Done 1, sample_balancer, (\<lambda>_. 1)(0 := 0))
   \<and> (1::nat) < length (members sample_balancer ''eth'') \<and> seen (sample_env None) 1 ''http'' 5"
  using PickAtLeast_candidate [OF sample_pick _ sample_finite] sample_pick by (simp add: seen_def)

lemma sample_pick_leaves:
  "PickAtLeast sample_floats sample_limiter (sample_env (Some ''context canceled'')) (sample_env None) ''eth'' ''http'' 5
     (sample_balancer, (\<lambda>_. 0)) = (Fail ''context canceled'', sample_balancer, (\<lambda>_. 0)(0 := 1))"
  by (simp add: PickAtLeast_def pick_once_def select_ready_def Let_def upt_rec)

lemma PickAtLeast_fails_witness:
  "(\<exists>e. gone (sample_env (Some ''context canceled'')) = Some e \<or> gone (sample_env None) = Some e)"
  using PickAtLeast_fails [OF sample_pick_leaves _ _ sample_finite] by simp

lemma probe_hysteresis_witness:
  "\<exists>lb' cache'. run_probes sample_floats (sample_tiers 10) sample_health sample_perf 0
       [ProbeError ''timeout'', Probed 200 ''200 OK'' None 5, Probed 503 ''503'' None 7, ProbeError ''refused'']
       (sample_balancer, None) = Some (lb', cache') \<and> \<not> HealthUp (pool lb' ! 0)"
  using probe_hysteresis [of sample_perf 0 sample_balancer sample_health
      "[ProbeError ''timeout'', Probed 200 ''200 OK'' None 5, Probed 503 ''503'' None 7, ProbeError ''refused'']"
      sample_floats "sample_tiers 10" None]
  by (simp add: sample_perf_def sample_health_def sample_backend_def passed_def)

lemma latency_window_witness:
  "\<exists>h. record_latencies 2 [30, 10, 20] = Some h \<and> h = [10, 20] \<and> average_latency h \<le> 20"
  using latency_window [of 2 "[30, 10, 20]"] by simp

lemma balancer_invariant_witness:
  "\<exists>lb. UpdateLatency sample_floats 0 30 sample_perf sample_balancer = Some lb
    \<and> UpdateLatency sample_floats 1 20 sample_perf lb \<noteq> None
    \<and> (\<forall>w \<in> set (weights lb ''eth''). \<not> fl_less sample_floats w (fl_tenth sample_floats))"
proof -
  let ?step = "balancer_step sample_floats sample_limiter (sample_tiers 10) sample_health sample_perf"
  obtain lb where lb: "UpdateLatency sample_floats 0 30 sample_perf sample_balancer = Some lb" "members lb = members sample_balancer"
    by (auto simp: UpdateLatency_def push_latency_def sample_backend_def sample_perf_def Let_def)
  have "?step (sample_balancer, None) (lb, None)" using balancer_step.latency [OF _ lb(1)] by simp
  then have reach: "?step\<^sup>*\<^sup>* (NewLoadBalancer sample_floats [sample_backend ''a'' 3, sample_backend ''b'' 7] 1, None) (lb, None)"
    unfolding sample_balancer_def by (rule r_into_rtranclp)
  from balancer_invariant [OF reach sample_sane, of "''eth''" 20] lb show ?thesis by (simp add: sample_perf_def)
qed

end
