(* ===== verification/Router_Batch.thy ===== *)
theory Router_Batch
  imports Cache_Truth Head_Register "HOL-Library.Multiset"
begin

text \<open>
  The parts of \<open>internal/router/router.go\<close> that handle messages and headers: decoding of requests, the
  order of the responses to a batch, the merge with the responses from the cache, what of a batch is
  kept, and the replies the router writes itself.
\<close>

section \<open>Requests\<close>

type_synonym rpcReq = BatchRequest

definition decode_rpcReq :: "json \<Rightarrow> rpcReq option" where
  "decode_rpcReq v =
     (case as_struct (Some v) of
        None \<Rightarrow> None
      | Some ms \<Rightarrow>
        (case (string_field ''jsonrpc'' ms, string_field ''method'' ms) of
           (Some ver, Some mth) \<Rightarrow>
             Some \<lparr>JSONRPC = ver, ID = raw_field ''id'' ms, Method = mth, Params = raw_field ''params'' ms\<rparr>
         | _ \<Rightarrow> None))"

definition decode_rpcReqs :: "raw \<Rightarrow> rpcReq list option" where
  "decode_rpcReqs body = Option.bind (as_slice body) (\<lambda>vs. those (map decode_rpcReq vs))"

section \<open>The order of the responses\<close>

text \<open>The text of an identifier; an absent one counts as null.\<close>

definition normalizeID :: "raw \<Rightarrow> string" where
  "normalizeID i = (case i of None \<Rightarrow> ''null'' | Some j \<Rightarrow> print_json j)"

text \<open>The positions of the identifiers of the requests, unless two requests have the same.\<close>

fun id_positions :: "nat \<Rightarrow> rpcReq list \<Rightarrow> (string \<rightharpoonup> nat) \<Rightarrow> (string \<rightharpoonup> nat) option" where
  "id_positions i [] pos = Some pos"
| "id_positions i (r # rs) pos =
     (if pos (normalizeID (ID r)) \<noteq> None then None
      else id_positions (Suc i) rs (pos(normalizeID (ID r) \<mapsto> i)))"

text \<open>The responses put to the positions of their identifiers; None when that is not possible.\<close>

fun place_responses :: "(string \<rightharpoonup> nat) \<Rightarrow> raw list \<Rightarrow> json list \<Rightarrow> raw list option" where
  "place_responses pos ordered [] = Some ordered"
| "place_responses pos ordered (resp # rest) =
     (case as_struct (Some resp) of
        None \<Rightarrow> None
      | Some ms \<Rightarrow>
        (case pos (normalizeID (raw_field ''id'' ms)) of
           None \<Rightarrow> None
         | Some i \<Rightarrow>
           if ordered ! i \<noteq> None then None
           else place_responses pos (ordered[i := Some resp]) rest))"

definition orderBatchResponses :: "json list \<Rightarrow> rpcReq list \<Rightarrow> raw list" where
  "orderBatchResponses responses reqs =
     (if length responses \<noteq> length reqs then map Some responses
      else
        (case id_positions 0 reqs Map.empty of
           None \<Rightarrow> map Some responses
         | Some pos \<Rightarrow>
           (case place_responses pos (replicate (length reqs) None) responses of
              None \<Rightarrow> map Some responses
            | Some ordered \<Rightarrow> ordered)))"

section \<open>The cache and a batch\<close>

text \<open>
  \<open>cachedResponses\<close>: what the cache has for each request, None (nil) where it has nothing; the bodies of
  the store are responses, so that none of them is nil.
\<close>

fun batch_lookup ::
  "(bytes \<Rightarrow> bytes) \<Rightarrow> (string \<Rightarrow> string) \<Rightarrow> ('m, 'd) tiers \<Rightarrow> (nat \<Rightarrow> int) \<Rightarrow> string \<Rightarrow> nat \<Rightarrow> rpcReq list
     \<Rightarrow> ('m, 'd) store \<Rightarrow> (unit, raw list) outcome \<times> ('m, 'd) store" where
  "batch_lookup H fnum ops clock chain i [] s = (Done [], s)"
| "batch_lookup H fnum ops clock chain i (r # rs) s =
     (case (if 0 < TTL (Method r) (Params r) (cfg s)
            then Get ops (clock i) (lookup_key H fnum chain (Method r) (Params r)) s else (None, s)) of
        (found, s1) \<Rightarrow>
          (case (case found of None \<Rightarrow> Done None | Some body \<Rightarrow> RewriteResponseID (as_response body) (ID r)) of
             Panic \<Rightarrow> (Panic, s1)
           | Fail u \<Rightarrow> (Fail u, s1)
           | Done c \<Rightarrow>
             (case batch_lookup H fnum ops clock chain (Suc i) rs s1 of
                (res, s2) \<Rightarrow> (obind res (\<lambda>cs. Done (c # cs)), s2))))"

definition uncachedIndices :: "raw list \<Rightarrow> nat list" where
  "uncachedIndices cached = filter (\<lambda>i. cached ! i = None) [0..<length cached]"

definition uncached_reqs :: "rpcReq list \<Rightarrow> raw list \<Rightarrow> rpcReq list" where
  "uncached_reqs reqs cached = map ((!) reqs) (uncachedIndices cached)"

text \<open>The merge: the responses of the node go to the positions the cache left free.\<close>

fun merge_uncached :: "raw list \<Rightarrow> (nat \<times> raw) list \<Rightarrow> raw list" where
  "merge_uncached merged [] = merged"
| "merge_uncached merged ((i, resp) # rest) = merge_uncached (merged[i := resp]) rest"

definition merge_batch :: "raw list \<Rightarrow> raw list \<Rightarrow> raw list" where
  "merge_batch cached responses = merge_uncached cached (zip (uncachedIndices cached) responses)"

text \<open>What is kept of a batch: the head of the node, the tip of the chain, and the answers.\<close>

fun store_batch ::
  "(bytes \<Rightarrow> bytes) \<Rightarrow> (string \<Rightarrow> string) \<Rightarrow> ('m, 'd) tiers \<Rightarrow> (nat \<Rightarrow> int) \<Rightarrow> string
     \<Rightarrow> rpcReq list \<Rightarrow> raw list \<Rightarrow> nat \<Rightarrow> raw list \<Rightarrow> ('m, 'd) store \<times> u64 \<Rightarrow> ('m, 'd) store \<times> u64" where
  "store_batch H fnum ops clock chain originals cached i [] sh = sh"
| "store_batch H fnum ops clock chain originals cached i (resp # rest) (s, h) =
     store_batch H fnum ops clock chain originals cached (Suc i) rest
       (if i < length cached \<and> cached ! i \<noteq> None then (s, h)
        else
          (case ExtractBlockInfo resp of (n, bh) \<Rightarrow>
             (let s1 = (if 0 < n then UpdateLatestBlock ops chain n bh resp s else s);
                  h1 = (if 0 < n then apply_head (ObserveHead n) h else h)
              in if i < length originals then
                   (case AnswerTTL (Method (originals ! i)) (Params (originals ! i)) resp (cfg s1) of
                      (ttl, rn, rh) \<Rightarrow>
                        if 0 < ttl
                        then (Put ops (clock (2 * i)) (clock (2 * i + 1))
                                (lookup_key H fnum chain (Method (originals ! i)) (Params (originals ! i)))
                                (Response resp) ttl chain rn rh s1, h1)
                        else (s1, h1))
                 else (s1, h1))))"

section \<open>Headers\<close>

text \<open>A \<open>http.Header\<close>, its keys in canonical form.\<close>

type_synonym headers = "(string \<times> string list) list"

definition header_get :: "string \<Rightarrow> headers \<Rightarrow> string" where
  "header_get k h = (case map_of h k of Some (v # vs) \<Rightarrow> v | _ \<Rightarrow> [])"

definition header_set :: "string \<Rightarrow> string \<Rightarrow> headers \<Rightarrow> headers" where
  "header_set k v h = AList.update k [v] h"

definition header_add :: "string \<Rightarrow> string \<Rightarrow> headers \<Rightarrow> headers" where
  "header_add k v h = AList.update k ((case map_of h k of None \<Rightarrow> [] | Some vs \<Rightarrow> vs) @ [v]) h"

definition lower :: "string \<Rightarrow> string" where
  "lower s = map (\<lambda>c. if 65 \<le> code c \<and> code c \<le> 90 then char_of (code c + 32) else c) s"

definition hop_by_hop :: "string list" where
  "hop_by_hop =
     [''connection'', ''keep-alive'', ''proxy-authenticate'', ''proxy-authorization'', ''te'', ''trailers'',
      ''transfer-encoding'', ''upgrade'']"

definition copy_headers :: "string list \<Rightarrow> headers \<Rightarrow> headers \<Rightarrow> headers" where
  "copy_headers dropped src dst =
     foldl (\<lambda>d (k, vv). if lower k \<in> set dropped then d else foldl (\<lambda>d v. header_add k v d) d vv) dst src"

definition writeHopSafeHeaders :: "headers \<Rightarrow> headers \<Rightarrow> headers" where
  "writeHopSafeHeaders dst src = copy_headers (hop_by_hop @ [''content-length'', ''content-encoding'']) src dst"

definition isRetryableStatus :: "nat \<Rightarrow> bool" where
  "isRetryableStatus c \<longleftrightarrow> c = 429 \<or> c = 408 \<or> 500 \<le> c \<and> c \<noteq> 501 \<and> c \<noteq> 505"

section \<open>Upstream\<close>

text \<open>
  What comes of sending a request: an error, or the status with the headers and the body (None for
  bytes that are not JSON). The client of a backend is a function of the URL, the headers and the body.
\<close>

datatype exchange = Failed string | Replied nat headers raw

definition upstream_headers :: "headers \<Rightarrow> headers" where
  "upstream_headers inHdr =
     (let ct = header_get ''Content-Type'' inHdr; auth = header_get ''Authorization'' inHdr in
      [(''Content-Type'', [if ct = [] then ''application/json'' else ct])]
      @ (if auth = [] then [] else [(''Authorization'', [auth])])
      @ [(''Accept-Encoding'', [''identity''])])"

definition sendTo ::
  "(string \<Rightarrow> headers \<Rightarrow> raw \<Rightarrow> exchange) \<Rightarrow> string \<Rightarrow> headers \<Rightarrow> raw \<Rightarrow> exchange" where
  "sendTo client url inHdr body =
     (case client url (upstream_headers inHdr) body of
        Failed e \<Rightarrow> Failed e
      | Replied status h data \<Rightarrow> Replied status (copy_headers hop_by_hop h []) data)"

text \<open>\<open>json.Marshal\<close> of a response of the batch processor.\<close>

definition marshal_response :: "BatchResponse \<Rightarrow> json" where
  "marshal_response r =
     JObj ([(''jsonrpc'', jstring (rJSONRPC r)), (''id'', marshal_raw (rID r))]
           @ (case Result r of None \<Rightarrow> [] | Some v \<Rightarrow> [(''result'', html_escape v)])
           @ (case Error r of None \<Rightarrow> [] | Some v \<Rightarrow> [(''error'', html_escape v)]))"

definition json_reply :: "json \<Rightarrow> exchange" where
  "json_reply v = Replied 200 [(''Content-Type'', [''application/json''])] (Some v)"

text \<open>
  Through the batch processor: \<open>refuses k\<close> when \<open>AddRequest\<close> returns an error for the \<open>k\<close>-th request,
  \<open>received k\<close> what its channel gives before the context is done.
\<close>

record batch_io =
  refuses :: "nat \<Rightarrow> bool"
  received :: "nat \<Rightarrow> BatchResponse option"

definition processBatchRequest :: "batch_io \<Rightarrow> exchange \<Rightarrow> bool \<Rightarrow> nat \<Rightarrow> exchange" where
  "processBatchRequest io direct isBatch n =
     (if isBatch then
        (if \<exists>k \<in> set [0..<n]. refuses io k then direct
         else
           (case those (map (received io) [0..<n]) of
              None \<Rightarrow> Failed ''batch request timeout''
            | Some responses \<Rightarrow>
                if responses \<noteq> [] \<and> list_all (\<lambda>r. InternalErr r \<noteq> None) responses
                then Failed (''all '' @ itoa (length responses) @ '' batch responses failed: ''
                             @ the (InternalErr (hd responses)))
                else json_reply (JArr (map marshal_response responses))))
      else
        (if refuses io 0 then direct
         else
           (case received io 0 of
              None \<Rightarrow> Failed ''batch request timeout''
            | Some r \<Rightarrow>
              (case InternalErr r of
                 Some e \<Rightarrow> Failed (''batch response error: '' @ e)
               | None \<Rightarrow> json_reply (marshal_response r)))))"

section \<open>Replies\<close>

text \<open>A body is a JSON value, bytes passed on as they are (\<open>Content None\<close>), or a text of the server.\<close>

datatype payload = Content raw | Text string

record http_response =
  status_code :: nat
  resp_headers :: headers
  payload :: payload

definition http_error :: "string \<Rightarrow> nat \<Rightarrow> http_response" where
  "http_error msg c =
     \<lparr>status_code = c,
      resp_headers = [(''Content-Type'', [''text/plain; charset=utf-8'']), (''X-Content-Type-Options'', [''nosniff''])],
      payload = Text (msg @ [CHR 0x0A])\<rparr>"

definition json_response :: "nat \<Rightarrow> headers \<Rightarrow> raw \<Rightarrow> http_response" where
  "json_response c h v =
     \<lparr>status_code = c, resp_headers = (''Content-Type'', [''application/json'']) # h, payload = Content v\<rparr>"

text \<open>The keys of a map are sorted.\<close>

definition error_envelope :: "raw \<Rightarrow> int \<Rightarrow> string \<Rightarrow> json" where
  "error_envelope i c msg =
     JObj [(''error'', rpc_error c msg), (''id'', marshal_raw i), (''jsonrpc'', jstring ''2.0'')]"

definition batch_errors :: "nat \<Rightarrow> rpcReq list \<Rightarrow> string \<Rightarrow> http_response" where
  "batch_errors c originals msg =
     json_response c [] (Some (JArr (map (\<lambda>r. error_envelope (ID r) (- 32603) msg) originals)))"

section \<open>Each request its own response\<close>

definition rpc_id :: "rpcReq \<Rightarrow> string" where
  "rpc_id r = normalizeID (ID r)"

definition response_id :: "json \<Rightarrow> string option" where
  "response_id v = map_option (\<lambda>ms. normalizeID (raw_field ''id'' ms)) (as_struct (Some v))"

text \<open>A response rewritten for a request names it, whatever other members it has.\<close>

lemma fold_name_id: "fold_name s = ''ID'' \<Longrightarrow> \<exists>a b. s = [a, b] \<and> a \<in> {CHR ''i'', CHR ''I''} \<and> b \<in> {CHR ''d'', CHR ''D''}"
proof -
  have up: "upcase c = char_of (n - 32) \<Longrightarrow> c \<in> {char_of n, char_of (n - 32)}" if n: "97 \<le> n" "n \<le> 122" for c and n :: nat
  proof (cases "97 \<le> code c \<and> code c \<le> 122")
    case True
    assume "upcase c = char_of (n - 32)"
    then have "char_of (code c - 32) = char_of (n - 32)" using True by (simp add: upcase_def)
    then have "code (char_of (code c - 32)) = code (char_of (n - 32))" by (rule arg_cong)
    moreover have "code c - 32 < 256" "n - 32 < 256" using True n by linarith+
    ultimately have "code c - 32 = n - 32" by (simp only: code_char_of)
    then have "code c = n" using True n by linarith
    then show ?thesis using char_of_code [of c] by simp
  qed (simp add: upcase_def)
  have chars: "char_of (105 :: nat) = CHR ''i''" "char_of (73 :: nat) = CHR ''I''" "char_of (100 :: nat) = CHR ''d''" "char_of (68 :: nat) = CHR ''D''"
    by (simp_all add: char_of_eq_iff)
  have up: "upcase c = CHR ''I'' \<Longrightarrow> c \<in> {CHR ''i'', CHR ''I''}" "upcase c = CHR ''D'' \<Longrightarrow> c \<in> {CHR ''d'', CHR ''D''}" for c
    using up [of 105 c] up [of 100 c] by (simp_all add: chars)
  have one: "fold_name t = ''D'' \<Longrightarrow> \<exists>b. t = [b] \<and> b \<in> {CHR ''d'', CHR ''D''}" for t
    using up(2) by (cases t rule: fold_name.cases) (auto split: if_splits elim: fold_name.elims)
  assume "fold_name s = ''ID''"
  then show ?thesis
    using up(1) one by (cases s rule: fold_name.cases) (fastforce split: if_splits)+
qed

lemma key_is_id:
  assumes "key_is ''id'' (quote k)"
  shows "k \<le> ''id''"
proof -
  have "fold_name ''id'' = ''ID''" by (simp add: upcase_def code_def char_of_eq_iff)
  then obtain s where s: "unquote (quote k) = Some s" "fold_name s = ''ID''"
    using assms by (auto simp: key_is_def split: option.splits)
  obtain a b where ab: "s = [a, b]" "a \<in> {CHR ''i'', CHR ''I''}" "b \<in> {CHR ''d'', CHR ''D''}"
    using fold_name_id [OF s(2)] by blast
  have p: "plain_char a" "plain_char b" using ab by (auto simp: plain_char_def code_def)
  obtain k1 where k1: "k = a # k1" "unquote (quote k1) = Some [b]"
    using unquote_quote_Cons [OF s(1) [unfolded ab(1)] p(1)] by blast
  obtain k2 where "k1 = b # k2" "unquote (quote k2) = Some []"
    using unquote_quote_Cons [OF k1(2) p(2)] by blast
  then have "k = [a, b]" using k1(1) unquote_quote_Nil by simp
  then show ?thesis using ab by (auto simp: less_eq_char_def)
qed

lemma sorted_last_le:
  assumes "sorted (map f xs)" and "x \<in> set xs"
  shows "f x \<le> f (last xs)"
  using assms by (induction xs) auto

lemma put_member_field:
  assumes "fs = map (\<lambda>(k, v). (k, g v)) (put_member ''id'' x ms)" and "sorted_members fs = JObj out"
  shows "raw_field ''id'' out = Some (g x)"
proof -
  let ?P = "\<lambda>x :: string \<times> json. key_is ''id'' (quote (fst x))"
  let ?xs = "filter ?P (sort_key fst fs)"
  have out: "field_values ''id'' out = map snd ?xs"
    using assms(2) by (auto simp: sorted_members_def field_values_def filter_map comp_def case_prod_beta)
  have "fold_name ''id'' = fold_name ''id''" ..
  then have id: "key_is ''id'' (quote ''id'')" by (simp add: key_is_def plain_char_def code_def)
  have mem: "(''id'', g x) \<in> set ?xs" using id assms(1) by (auto simp: put_member_def)
  have uniq: "v = g x" if "(''id'', v) \<in> set ?xs" for v using that assms(1) by (auto simp: put_member_def)
  have ne: "?xs \<noteq> []" using mem by (metis empty_iff list.set(1))
  have "sorted (map fst ?xs)" by (rule sorted_filter) simp
  then have "''id'' \<le> fst (last ?xs)" using sorted_last_le [OF _ mem, of fst] by simp
  moreover have "fst (last ?xs) \<le> ''id''"
    using last_in_set [OF ne] key_is_id by (auto simp: case_prod_beta)
  ultimately have "fst (last ?xs) = ''id''" by simp
  then have "snd (last ?xs) = g x" using uniq last_in_set [OF ne] by (metis prod.collapse)
  moreover have "raw_field ''id'' out = Some (snd (last ?xs))"
    using ne unfolding raw_field_def out by (cases ?xs rule: rev_cases) simp_all
  ultimately show ?thesis by simp
qed

lemma rewritten_id:
  assumes "RewriteResponseID (Some (JObj ms)) i = Done (Some w)"
  shows "response_id w = Some (normalizeID (Some (marshal_raw i)))"
proof -
  let ?x = "case i of None \<Rightarrow> JNull | Some j \<Rightarrow> j"
  obtain out where w: "w = JObj out"
    using assms by (auto simp: RewriteResponseID_def Let_def sorted_members_def)
  have "raw_field ''id'' out = Some (html_escape ?x)"
    using assms w by (intro put_member_field [OF refl]) (simp add: RewriteResponseID_def Let_def)
  then show ?thesis by (cases i) (simp_all add: response_id_def as_struct_def w marshal_raw_def)
qed

lemma place_Cons:
  "place_responses pos ordered (v # vs) =
     (case Option.bind (response_id v) pos of
        None \<Rightarrow> None
      | Some i \<Rightarrow> if ordered ! i \<noteq> None then None else place_responses pos (ordered[i := Some v]) vs)"
  by (simp add: response_id_def split: option.split)

declare place_responses.simps(2) [simp del]

text \<open>The positions of the identifiers, without the loop.\<close>

lemma id_positions_Cons:
  "id_positions i (r # rs) pos = (if pos (rpc_id r) \<noteq> None then None else id_positions (Suc i) rs (pos(rpc_id r \<mapsto> i)))"
  by (simp add: rpc_id_def)

declare id_positions.simps(2) [simp del]

lemma id_positions_from:
  assumes "id_positions i reqs pos = Some pos'" and "pos' k = Some j"
  shows "pos k = Some j \<or> (\<exists>m < length reqs. j = i + m \<and> rpc_id (reqs ! m) = k)"
  using assms
proof (induction reqs arbitrary: i pos)
  case Nil
  then show ?case by simp
next
  case (Cons r rs)
  then have "id_positions (Suc i) rs (pos(rpc_id r \<mapsto> i)) = Some pos'"
    by (simp add: id_positions_Cons split: if_splits)
  from Cons.IH [OF this Cons.prems(2)] show ?case
  proof
    assume "(pos(rpc_id r \<mapsto> i)) k = Some j"
    then show ?thesis by (cases "k = rpc_id r") auto
  next
    assume "\<exists>m < length rs. j = Suc i + m \<and> rpc_id (rs ! m) = k"
    then show ?thesis by (metis add_Suc_shift length_Cons nth_Cons_Suc Suc_less_eq)
  qed
qed

lemma id_positions_to:
  assumes "id_positions i reqs pos = Some pos'"
  shows "(pos k = Some j \<longrightarrow> pos' k = Some j) \<and> (m < length reqs \<longrightarrow> pos' (rpc_id (reqs ! m)) = Some (i + m))"
  using assms
proof (induction reqs arbitrary: i pos m k j)
  case Nil
  then show ?case by simp
next
  case (Cons r rs)
  then have n: "pos (rpc_id r) = None" and r: "id_positions (Suc i) rs (pos(rpc_id r \<mapsto> i)) = Some pos'"
    by (simp_all add: id_positions_Cons split: if_splits)
  have "pos' k = Some j" if "pos k = Some j"
  proof -
    have "k \<noteq> rpc_id r" using that n by auto
    then show ?thesis using Cons.IH [OF r, of k j] that by simp
  qed
  moreover have "pos' (rpc_id ((r # rs) ! m)) = Some (i + m)" if "m < length (r # rs)"
  proof (cases m)
    case 0
    then show ?thesis using Cons.IH [OF r, of "rpc_id r" i] by simp
  next
    case (Suc m')
    then show ?thesis using Cons.IH [OF r, where m = m'] that by simp
  qed
  ultimately show ?case by blast
qed

lemma id_positions_exists:
  assumes "distinct (map rpc_id reqs)" and "\<forall>r \<in> set reqs. pos (rpc_id r) = None"
  shows "\<exists>pos'. id_positions i reqs pos = Some pos'"
  using assms
proof (induction reqs arbitrary: i pos)
  case Nil
  then show ?case by simp
next
  case (Cons r rs)
  have "(pos(rpc_id r \<mapsto> i)) (rpc_id x) = None" if x: "x \<in> set rs" for x
  proof -
    have "rpc_id r \<notin> rpc_id ` set rs" using Cons.prems(1) by simp
    then have "rpc_id x \<noteq> rpc_id r" using x by (metis image_eqI)
    then show ?thesis using Cons.prems(2) x by simp
  qed
  then show ?case using Cons by (simp add: id_positions_Cons)
qed

lemma id_positions_bound:
  assumes "id_positions 0 reqs Map.empty = Some pos" and "pos k = Some i"
  shows "i < length reqs \<and> rpc_id (reqs ! i) = k"
  using id_positions_from [OF assms] by auto

lemma id_positions_at:
  assumes "distinct (map rpc_id reqs)" and "i < length reqs"
  shows "\<exists>pos. id_positions 0 reqs Map.empty = Some pos \<and> pos (rpc_id (reqs ! i)) = Some i"
proof -
  obtain pos where pos: "id_positions 0 reqs Map.empty = Some pos"
    using id_positions_exists [OF assms(1), of Map.empty 0] by auto
  then show ?thesis using id_positions_to [OF pos, of _ _ i] assms(2) by auto
qed

text \<open>No response is lost, and none comes up twice, whatever the identifiers are.\<close>

lemma place_mset:
  assumes "place_responses pos ordered vs = Some out"
    and "\<forall>k i. pos k = Some i \<longrightarrow> i < length ordered"
  shows "length out = length ordered \<and> mset out + replicate_mset (length vs) None = mset ordered + mset (map Some vs)"
  using assms
proof (induction vs arbitrary: ordered)
  case Nil
  then show ?case by simp
next
  case (Cons v vs)
  then obtain i where i: "Option.bind (response_id v) pos = Some i" "ordered ! i = None"
      "place_responses pos (ordered[i := Some v]) vs = Some out"
    by (auto simp: place_Cons split: option.splits if_splits)
  have len: "i < length ordered" using i(1) Cons.prems(2) by (auto simp: bind_eq_Some_conv)
  have "mset (ordered[i := Some v]) + {#None#} = mset ordered + {#Some v#}"
    using len i(2) nth_mem_mset [OF len] by (simp add: mset_update)
  then show ?case using Cons.IH [OF i(3)] Cons.prems(2) by (simp add: ac_simps)
qed

lemma order_mset:
  "mset (orderBatchResponses vs reqs) = mset (map Some vs)"
proof -
  have "mset out = mset (map Some vs)"
    if "id_positions 0 reqs Map.empty = Some pos" "place_responses pos (replicate (length reqs) None) vs = Some out"
      "length vs = length reqs" for pos out
    using place_mset [OF that(2)] id_positions_bound [OF that(1)] that(3) by simp
  then show ?thesis by (auto simp: orderBatchResponses_def split: option.split)
qed

lemma place_aligned:
  assumes "place_responses pos ordered vs = Some out" and "j < length out" and "out ! j = Some v"
  shows "ordered ! j = Some v \<or> v \<in> set vs \<and> Option.bind (response_id v) pos = Some j"
  using assms
proof (induction vs arbitrary: ordered)
  case Nil
  then show ?case by simp
next
  case (Cons w vs)
  then obtain i where i: "Option.bind (response_id w) pos = Some i" "ordered ! i = None"
      "place_responses pos (ordered[i := Some w]) vs = Some out"
    by (auto simp: place_Cons split: option.splits if_splits)
  from Cons.IH [OF i(3) Cons.prems(2,3)] show ?case
    using i by (cases "i < length ordered"; cases "j = i") (auto simp: list_update_beyond)
qed

lemma place_succeeds:
  assumes "\<forall>v \<in> set vs. \<exists>i < length ordered. Option.bind (response_id v) pos = Some i \<and> ordered ! i = None"
    and "distinct (map response_id vs)" and "inj_on pos (dom pos)"
  shows "\<exists>out. place_responses pos ordered vs = Some out"
  using assms
proof (induction vs arbitrary: ordered)
  case Nil
  then show ?case by simp
next
  case (Cons w vs)
  then obtain i where i: "i < length ordered" "Option.bind (response_id w) pos = Some i" "ordered ! i = None" by auto
  have "\<exists>j < length (ordered[i := Some w]). Option.bind (response_id v) pos = Some j \<and> ordered[i := Some w] ! j = None"
    if v: "v \<in> set vs" for v
  proof -
    obtain j where j: "j < length ordered" "Option.bind (response_id v) pos = Some j" "ordered ! j = None"
      using Cons.prems(1) v by auto
    have "response_id w \<notin> response_id ` set vs" using Cons.prems(2) by simp
    then have "response_id v \<noteq> response_id w" using v by (metis image_eqI)
    then have "j \<noteq> i"
      using j(2) i(2) Cons.prems(3) unfolding bind_eq_Some_conv inj_on_def by (metis domI)
    then show ?thesis using j by auto
  qed
  then have "\<exists>out. place_responses pos (ordered[i := Some w]) vs = Some out"
    using Cons.IH Cons.prems(2,3) by simp
  then show ?case using i by (simp add: place_Cons)
qed

text \<open>The responses match the requests: their identifiers are those of the requests, in some order.\<close>

definition matching :: "json list \<Rightarrow> rpcReq list \<Rightarrow> bool" where
  "matching vs reqs \<longleftrightarrow> distinct (map rpc_id reqs) \<and> mset (map response_id vs) = mset (map (\<lambda>r. Some (rpc_id r)) reqs)"

lemma matching_length: "matching vs reqs \<Longrightarrow> length vs = length reqs"
  unfolding matching_def by (metis mset_eq_length length_map)

lemma order_aligned:
  assumes "matching vs reqs" and "j < length reqs"
  shows "\<exists>v \<in> set vs. orderBatchResponses vs reqs ! j = Some v \<and> response_id v = Some (rpc_id (reqs ! j))"
proof -
  have d: "distinct (map rpc_id reqs)" and m: "mset (map response_id vs) = mset (map (\<lambda>r. Some (rpc_id r)) reqs)"
    using assms(1) by (simp_all add: matching_def)
  have len: "length vs = length reqs" using assms(1) by (rule matching_length)
  obtain pos where pos: "id_positions 0 reqs Map.empty = Some pos" using id_positions_at [OF d assms(2)] by blast
  have at: "pos (rpc_id (reqs ! i)) = Some i" if "i < length reqs" for i
    using id_positions_at [OF d that] pos by simp
  have inj: "inj_on pos (dom pos)"
    using id_positions_bound [OF pos] by (auto simp: inj_on_def) metis
  have ids: "set (map response_id vs) = set (map (\<lambda>r. Some (rpc_id r)) reqs)" using m by (rule mset_eq_setD)
  have dv: "distinct (map response_id vs)"
  proof -
    have "distinct (map (\<lambda>r. Some (rpc_id r)) reqs)" using d by (simp add: distinct_map inj_on_def)
    then show ?thesis using m by (metis mset_eq_imp_distinct_iff)
  qed
  have ok: "\<exists>i < length (replicate (length reqs) None). Option.bind (response_id v) pos = Some i
      \<and> replicate (length reqs) None ! i = None" if "v \<in> set vs" for v
  proof -
    have "response_id v \<in> set (map (\<lambda>r. Some (rpc_id r)) reqs)" using ids that by (metis image_eqI image_set)
    then obtain i where "i < length reqs" "response_id v = Some (rpc_id (reqs ! i))" by (auto simp: in_set_conv_nth)
    then show ?thesis using at by auto
  qed
  obtain out where out: "place_responses pos (replicate (length reqs) None) vs = Some out"
    using place_succeeds [of vs "replicate (length reqs) None" pos] ok dv inj by blast
  then have o: "orderBatchResponses vs reqs = out" using len pos by (simp add: orderBatchResponses_def)
  have "out ! j \<in> set_mset (mset (map Some vs))"
    using order_mset [of vs reqs] o place_mset [OF out] id_positions_bound [OF pos] assms(2)
    by (metis length_replicate nth_mem set_mset_mset)
  then obtain v where v: "v \<in> set vs" "out ! j = Some v" by auto
  have "length out = length reqs" using place_mset [OF out] id_positions_bound [OF pos] by simp
  then have "Option.bind (response_id v) pos = Some j"
    using place_aligned [OF out _ v(2)] assms(2) by simp
  then have "response_id v = Some (rpc_id (reqs ! j))"
    using id_positions_bound [OF pos] by (auto simp: bind_eq_Some_conv)
  then show ?thesis using v o by blast
qed

section \<open>The batch, its answers and the cache\<close>

lemma merge_uncached_length [simp]: "length (merge_uncached merged prs) = length merged"
  by (induction merged prs rule: merge_uncached.induct) simp_all

lemma merge_uncached_other: "k \<notin> fst ` set prs \<Longrightarrow> merge_uncached merged prs ! k = merged ! k"
  by (induction merged prs rule: merge_uncached.induct) auto

lemma merge_uncached_at:
  assumes "distinct (map fst prs)" and "j < length prs" and "fst (prs ! j) < length merged"
  shows "merge_uncached merged prs ! fst (prs ! j) = snd (prs ! j)"
  using assms
proof (induction merged prs arbitrary: j rule: merge_uncached.induct)
  case (1 merged)
  then show ?case by simp
next
  case (2 merged i resp rest)
  show ?case
  proof (cases j)
    case 0
    then show ?thesis using 2 by (simp add: merge_uncached_other)
  next
    case (Suc j')
    then show ?thesis using 2 by simp
  qed
qed

lemma uncachedIndices_simps [simp]:
  "distinct (uncachedIndices cached)" "set (uncachedIndices cached) = {i. i < length cached \<and> cached ! i = None}"
  by (auto simp: uncachedIndices_def)

lemma merge_batch_nth:
  assumes "length responses = length (uncachedIndices cached)" and "i < length cached"
  shows "(cached ! i \<noteq> None \<longrightarrow> merge_batch cached responses ! i = cached ! i)
    \<and> (cached ! i = None \<longrightarrow> (\<exists>j < length responses. uncachedIndices cached ! j = i
          \<and> merge_batch cached responses ! i = responses ! j))"
proof -
  let ?prs = "zip (uncachedIndices cached) responses"
  have fst: "map fst ?prs = uncachedIndices cached" using assms(1) by simp
  have "merge_uncached cached ?prs ! i = cached ! i" if "cached ! i \<noteq> None"
  proof -
    have "i \<notin> set (map fst ?prs)" unfolding fst using that by simp
    then show ?thesis by (intro merge_uncached_other) simp
  qed
  moreover have "\<exists>j < length responses. uncachedIndices cached ! j = i \<and> merge_uncached cached ?prs ! i = responses ! j"
    if "cached ! i = None"
  proof -
    have "i \<in> set (uncachedIndices cached)" using that assms(2) by simp
    then obtain j where j: "j < length responses" "uncachedIndices cached ! j = i"
      unfolding in_set_conv_nth assms(1) by blast
    have "merge_uncached cached ?prs ! fst (?prs ! j) = snd (?prs ! j)"
      using j assms by (intro merge_uncached_at) (simp_all add: fst)
    then show ?thesis using j assms(1) by auto
  qed
  ultimately show ?thesis by (simp add: merge_batch_def)
qed

text \<open>
  What counts as an answer to a request on a chain, its identifier apart: what a node may reply, a result or
  an error. Answers are objects, and an answer stays one under another identifier. The requests one store
  ever sees share a key only if they have the same answers. The entries of a truthful store are answers that
  may be kept (no error, not null) to the requests of their key.
\<close>

type_synonym answers = "string \<Rightarrow> rpcReq \<Rightarrow> json \<Rightarrow> bool"

definition answer_relation :: "answers \<Rightarrow> bool" where
  "answer_relation good \<longleftrightarrow>
     (\<forall>c r v. good c r v \<longrightarrow> (\<exists>ms. v = JObj ms))
     \<and> (\<forall>c r v i w. good c r v \<and> RewriteResponseID (Some v) i = Done (Some w) \<longrightarrow> good c r w)"

definition keys_tell ::
  "(bytes \<Rightarrow> bytes) \<Rightarrow> (string \<Rightarrow> string) \<Rightarrow> answers \<Rightarrow> (string \<times> rpcReq) set \<Rightarrow> bool" where
  "keys_tell H fnum good U \<longleftrightarrow>
     (\<forall>(c, r) \<in> U. \<forall>(c', r') \<in> U.
        lookup_key H fnum c (Method r) (Params r) = lookup_key H fnum c' (Method r') (Params r')
        \<longrightarrow> good c r = good c' r')"

definition answer_entry ::
  "(bytes \<Rightarrow> bytes) \<Rightarrow> (string \<Rightarrow> string) \<Rightarrow> answers \<Rightarrow> (string \<times> rpcReq) set \<Rightarrow> string \<Rightarrow> entry \<Rightarrow> bool" where
  "answer_entry H fnum good U k e \<longleftrightarrow>
     (\<forall>(c, r) \<in> U. k = lookup_key H fnum c (Method r) (Params r)
        \<longrightarrow> (\<exists>v. Body e = Response (Some v) \<and> Cacheable (Some v) \<and> good c r v))"

definition truthful ::
  "(bytes \<Rightarrow> bytes) \<Rightarrow> (string \<Rightarrow> string) \<Rightarrow> ('m, 'd) tiers \<Rightarrow> answers \<Rightarrow> (string \<times> rpcReq) set
     \<Rightarrow> ('m, 'd) store \<Rightarrow> bool" where
  "truthful H fnum ops good U s \<longleftrightarrow> all_entries ops (answer_entry H fnum good U) s"

text \<open>
  The answer to a request: there is one, it answers this request, and it carries its identifier. A plain
  identifier is one that the encoder does not rewrite: null, a number, or a string without the characters
  it escapes.
\<close>

definition accepted :: "answers \<Rightarrow> string \<Rightarrow> rpcReq \<Rightarrow> raw \<Rightarrow> bool" where
  "accepted good c r resp \<longleftrightarrow> (\<exists>v. resp = Some v \<and> good c r v \<and> response_id v = Some (rpc_id r))"

definition plain_id :: "rpcReq \<Rightarrow> bool" where
  "plain_id r \<longleftrightarrow> (\<forall>j. ID r = Some j \<longrightarrow> html_escape j = j)"

lemma AnswerTTL_Cacheable: "AnswerTTL mth p resp c = (ttl, n, h) \<Longrightarrow> 0 < ttl \<Longrightarrow> Cacheable resp"
  by (auto simp: AnswerTTL_def split: if_splits)

lemma rewrite_answer:
  assumes "answer_relation good" and "good c r v" and "plain_id r"
  shows "\<exists>w. RewriteResponseID (Some v) (ID r) = Done (Some w) \<and> accepted good c r (Some w)"
proof -
  obtain ms where v: "v = JObj ms" using assms unfolding answer_relation_def by blast
  then obtain w where w: "RewriteResponseID (Some v) (ID r) = Done (Some w)" by (simp add: RewriteResponseID_def Let_def)
  have "good c r w" using assms(1,2) w unfolding answer_relation_def by blast
  moreover have "normalizeID (Some (marshal_raw (ID r))) = rpc_id r"
    using assms(3) by (cases "ID r") (simp_all add: plain_id_def marshal_raw_def rpc_id_def normalizeID_def)
  ultimately show ?thesis using rewritten_id w v by (simp add: accepted_def)
qed

lemma served_answer:
  assumes "truthful H fnum ops good U s" and "(c, r) \<in> U"
    and "served ops now (lookup_key H fnum c (Method r) (Params r)) s b"
  shows "\<exists>v. b = Response (Some v) \<and> good c r v"
  using assms by (fastforce simp: truthful_def all_entries_def answer_entry_def served_def)

lemma batch_lookup_sound:
  assumes "lawful ops" and "answer_relation good" and "truthful H fnum ops good U s"
    and "\<forall>r \<in> set reqs. (chain, r) \<in> U \<and> plain_id r"
  shows "\<exists>cached s'. batch_lookup H fnum ops clock chain i reqs s = (Done cached, s') \<and> only_forgets ops s s'
    \<and> length cached = length reqs
    \<and> (\<forall>k < length reqs. cached ! k \<noteq> None \<longrightarrow> accepted good chain (reqs ! k) (cached ! k))"
  using assms(3,4)
proof (induction reqs arbitrary: i s)
  case Nil
  then show ?case by simp
next
  case (Cons r rs)
  obtain found s1 where g: "(if 0 < TTL (Method r) (Params r) (cfg s)
      then Get ops (clock i) (lookup_key H fnum chain (Method r) (Params r)) s else (None, s)) = (found, s1)"
    by fastforce
  have f1: "only_forgets ops s s1"
    using g Get_sound [OF assms(1)] by (auto split: if_splits)
  have hit: "\<exists>v. b = Response (Some v) \<and> good chain r v" if "found = Some b" for b
    using g that Get_sound [OF assms(1)] served_answer [OF Cons.prems(1)] Cons.prems(2)
    by (fastforce split: if_splits)
  obtain c where c: "(case found of None \<Rightarrow> Done None | Some b \<Rightarrow> RewriteResponseID (as_response b) (ID r)) = Done c"
      "c \<noteq> None \<longrightarrow> accepted good chain r c"
  proof (cases found)
    case None
    then show ?thesis using that by simp
  next
    case (Some b)
    then obtain v where v: "b = Response (Some v)" "good chain r v" using hit by blast
    then show ?thesis using that rewrite_answer [OF assms(2) v(2)] Cons.prems(2) Some by (auto simp: as_response_def)
  qed
  have "truthful H fnum ops good U s1"
    using Cons.prems(1) only_forgets_all [OF f1] by (simp add: truthful_def)
  then obtain cs s' where r: "batch_lookup H fnum ops clock chain (Suc i) rs s1 = (Done cs, s')" "only_forgets ops s1 s'"
      "length cs = length rs" "\<forall>k < length rs. cs ! k \<noteq> None \<longrightarrow> accepted good chain (rs ! k) (cs ! k)"
    using Cons.IH Cons.prems(2) by (metis list.set_intros(2))
  have "batch_lookup H fnum ops clock chain i (r # rs) s = (Done (c # cs), s')"
    using g c(1) r(1) by simp
  moreover have "\<forall>k < length (r # rs). (c # cs) ! k \<noteq> None \<longrightarrow> accepted good chain ((r # rs) ! k) ((c # cs) ! k)"
    using c(2) r(4) by (auto simp: nth_Cons split: nat.split)
  ultimately show ?case using only_forgets_trans [OF f1 r(2)] r(3) by auto
qed

lemma store_batch_truthful:
  assumes "lawful ops" and "keys_tell H fnum good U" and "truthful H fnum ops good U s"
    and "\<forall>m < length resps. i + m < length originals \<and> \<not> (i + m < length cached \<and> cached ! (i + m) \<noteq> None)
          \<longrightarrow> (chain, originals ! (i + m)) \<in> U \<and> accepted good chain (originals ! (i + m)) (resps ! m)"
  shows "truthful H fnum ops good U (fst (store_batch H fnum ops clock chain originals cached i resps (s, h)))"
  using assms(3,4)
proof (induction resps arbitrary: i s h)
  case Nil
  then show ?case by simp
next
  case (Cons resp rest)
  have shift: "\<forall>m < length rest. Suc i + m < length originals \<and> \<not> (Suc i + m < length cached \<and> cached ! (Suc i + m) \<noteq> None)
          \<longrightarrow> (chain, originals ! (Suc i + m)) \<in> U \<and> accepted good chain (originals ! (Suc i + m)) (rest ! m)"
    using Cons.prems(2) by (metis Suc_less_eq add_Suc_shift length_Cons nth_Cons_Suc)
  note IH = Cons.IH [OF _ shift]
  obtain n bh where n: "ExtractBlockInfo resp = (n, bh)" by fastforce
  let ?s1 = "if 0 < n then UpdateLatestBlock ops chain n bh resp s else s"
  let ?r = "originals ! i"
  have s1: "truthful H fnum ops good U ?s1"
    using Cons.prems(1) UpdateLatestBlock_all [OF assms(1)] by (simp add: truthful_def)
  have put: "truthful H fnum ops good U (Put ops t t' (lookup_key H fnum chain (Method ?r) (Params ?r)) (Response resp) ttl chain rn rh ?s1)"
    if i: "i < length originals" "\<not> (i < length cached \<and> cached ! i \<noteq> None)"
      and ttl: "AnswerTTL (Method ?r) (Params ?r) resp c0 = (ttl, rn, rh)" "0 < ttl" for t t' ttl rn rh c0
  proof -
    obtain v where v: "(chain, ?r) \<in> U" "resp = Some v" "good chain ?r v" "Cacheable (Some v)"
      using spec [OF Cons.prems(2), of 0] i AnswerTTL_Cacheable [OF ttl] by (auto simp: accepted_def)
    have "answer_entry H fnum good U (lookup_key H fnum chain (Method ?r) (Params ?r)) (put_entry c tr t (Response resp) ttl chain rn rh)" for c tr
      using assms(2) v unfolding answer_entry_def keys_tell_def by (fastforce simp: put_entry_def Let_def)
    then show ?thesis using s1 Put_all [OF assms(1)] by (simp add: truthful_def)
  qed
  show ?case
  proof (cases "i < length cached \<and> cached ! i \<noteq> None")
    case True
    then show ?thesis using IH [OF Cons.prems(1)] by simp
  next
    case False
    then show ?thesis using IH [OF s1] IH [OF put] n by (auto simp: Let_def split: prod.split)
  qed
qed

text \<open>
  The node answers a batch: one response per request, each the answer to its request under its identifier,
  in any order when the identifiers tell the requests apart, in the order of the requests otherwise.
\<close>

abbreviation answer_each :: "answers \<Rightarrow> string \<Rightarrow> json list \<Rightarrow> rpcReq list \<Rightarrow> bool" where
  "answer_each good chain vs reqs \<equiv> list_all2 (\<lambda>v r. accepted good chain r (Some v)) vs reqs"

definition answering :: "answers \<Rightarrow> string \<Rightarrow> json list \<Rightarrow> rpcReq list \<Rightarrow> bool" where
  "answering good chain vs reqs \<longleftrightarrow>
     answer_each good chain vs reqs
     \<or> distinct (map rpc_id reqs) \<and> (\<exists>ws. mset ws = mset vs \<and> answer_each good chain ws reqs)"

lemma answer_each_matching:
  assumes "answer_each good chain ws reqs" and "mset ws = mset vs" and "distinct (map rpc_id reqs)"
  shows "matching vs reqs"
proof -
  have "map response_id ws = map (\<lambda>r. Some (rpc_id r)) reqs"
    using assms(1) by (induction rule: list_all2_induct) (simp_all add: accepted_def)
  moreover have "mset (map response_id vs) = mset (map response_id ws)" by (simp add: assms(2))
  ultimately show ?thesis using assms(3) by (simp add: matching_def)
qed

lemma answering_length: "answering good chain vs reqs \<Longrightarrow> length vs = length reqs"
  unfolding answering_def using list_all2_lengthD mset_eq_length by metis

lemma order_unplaced:
  assumes "\<not> distinct (map rpc_id reqs)"
  shows "orderBatchResponses vs reqs = map Some vs"
proof (cases "id_positions 0 reqs Map.empty")
  case (Some pos)
  have "distinct (map rpc_id reqs)"
    unfolding distinct_conv_nth using id_positions_to [OF Some] by (auto simp: id_positions_to) (metis add_0 option.inject)
  then show ?thesis using assms by simp
qed (simp add: orderBatchResponses_def)

lemma ordered_answers:
  assumes "answering good chain vs reqs" and "j < length reqs"
  shows "\<exists>v. orderBatchResponses vs reqs ! j = Some v \<and> accepted good chain (reqs ! j) (Some v)"
proof (cases "distinct (map rpc_id reqs)")
  case True
  obtain ws where ws: "mset ws = mset vs" "answer_each good chain ws reqs"
    using assms(1) unfolding answering_def by blast
  obtain v where v: "v \<in> set vs" "orderBatchResponses vs reqs ! j = Some v" "response_id v = Some (rpc_id (reqs ! j))"
    using order_aligned [OF answer_each_matching [OF ws(2,1) True] assms(2)] by blast
  have "v \<in> set ws" using v(1) ws(1) by (metis set_mset_mset)
  then obtain k where k: "k < length ws" "ws ! k = v" by (auto simp: in_set_conv_nth)
  then have a: "k < length reqs" "accepted good chain (reqs ! k) (Some v)"
    using ws(2) list_all2_nthD list_all2_lengthD by fastforce+
  then have "rpc_id (reqs ! k) = rpc_id (reqs ! j)" using v(3) by (simp add: accepted_def)
  then have "k = j" using True a(1) assms(2) by (metis length_map nth_eq_iff_index_eq nth_map)
  then show ?thesis using a v by blast
next
  case False
  then have each: "answer_each good chain vs reqs" using assms(1) unfolding answering_def by blast
  then have "accepted good chain (reqs ! j) (Some (vs ! j))" "j < length vs"
    using list_all2_nthD2 [OF each assms(2)] list_all2_lengthD [OF each] assms(2) by simp_all
  then show ?thesis using order_unplaced [OF False] by simp
qed

lemma order_length: "length (orderBatchResponses vs reqs) = length vs"
  using mset_eq_length [OF order_mset [of vs reqs]] by simp

lemma merged_answers:
  assumes "length cached = length reqs"
    and "\<forall>k < length reqs. cached ! k \<noteq> None \<longrightarrow> accepted good chain (reqs ! k) (cached ! k)"
    and "answering good chain vs (uncached_reqs reqs cached)" and "i < length reqs"
    and "merged = merge_batch cached (orderBatchResponses vs (uncached_reqs reqs cached))"
  shows "accepted good chain (reqs ! i) (merged ! i)"
proof -
  let ?u = "uncachedIndices cached" and ?o = "orderBatchResponses vs (uncached_reqs reqs cached)"
  have len: "length ?o = length ?u" using answering_length [OF assms(3)] by (simp add: order_length uncached_reqs_def)
  note at = merge_batch_nth [OF len, of i]
  show ?thesis
  proof (cases "cached ! i")
    case (Some c)
    then show ?thesis using at assms(1,2,4,5) by auto
  next
    case None
    then obtain j where j: "j < length ?u" "?u ! j = i" "merged ! i = ?o ! j" using at assms(1,4,5) len by auto
    then have r: "j < length (uncached_reqs reqs cached)" "uncached_reqs reqs cached ! j = reqs ! i"
      by (simp_all add: uncached_reqs_def)
    from ordered_answers [OF assms(3) r(1)] show ?thesis using r(2) j(3) by auto
  qed
qed

lemma merged_keeps:
  assumes "length vs = length (uncachedIndices cached)"
  shows "Some ` set vs \<subseteq> set (merge_batch cached (orderBatchResponses vs reqs))"
proof -
  let ?u = "uncachedIndices cached" and ?o = "orderBatchResponses vs reqs"
  let ?m = "merge_batch cached ?o"
  have len: "length ?o = length ?u" using assms by (simp add: order_length)
  have "x \<in> set ?m" if x: "x \<in> set ?o" for x
  proof -
    obtain j where j: "j < length ?u" "?o ! j = x" using x len by (auto simp: in_set_conv_nth)
    have u: "?u ! j < length cached" "cached ! (?u ! j) = None" using nth_mem [OF j(1)] by simp_all
    from merge_batch_nth [OF len u(1)] obtain k where "k < length ?u" "?u ! k = ?u ! j" "?m ! (?u ! j) = ?o ! k"
      using u(2) len by auto
    then have "?m ! (?u ! j) = x" using j nth_eq_iff_index_eq [OF uncachedIndices_simps(1)] by metis
    moreover have "length ?m = length cached" by (simp add: merge_batch_def)
    ultimately show ?thesis using u(1) by (metis nth_mem)
  qed
  moreover have "set ?o = Some ` set vs" using mset_eq_setD [OF order_mset [of vs reqs]] by simp
  ultimately show ?thesis by blast
qed

text \<open>
  C11. A batch is answered request by request: with a node that answers each of the requests it is sent under
  its identifier, in any order when the identifiers are distinct and in the order of the requests otherwise,
  every request of a batch gets, at its own position and under its own identifier, an answer to it, kept in
  the cache or sent by the node (a result or an error); nothing the node sent is lost; and what is then kept
  in the cache under the key of each request is an answer to it, so that the cache stays truthful. The lookup
  never panics. Identifiers are null, numbers or strings that the encoder does not rewrite.
\<close>

theorem batch_answered:
  assumes "lawful ops" and "answer_relation good" and "keys_tell H fnum good U"
    and "truthful H fnum ops good U s" and "\<forall>r \<in> set reqs. (chain, r) \<in> U \<and> plain_id r"
    and "cached = (case fst (batch_lookup H fnum ops clock chain 0 reqs s) of Done cs \<Rightarrow> cs | _ \<Rightarrow> [])"
    and "answering good chain vs (uncached_reqs reqs cached)"
    and "merged = merge_batch cached (orderBatchResponses vs (uncached_reqs reqs cached))"
    and "truthful H fnum ops good U s2"
  shows "fst (batch_lookup H fnum ops clock chain 0 reqs s) = Done cached
    \<and> length merged = length reqs
    \<and> (\<forall>i < length reqs. \<exists>v. merged ! i = Some v \<and> good chain (reqs ! i) v \<and> response_id v = Some (rpc_id (reqs ! i)))
    \<and> Some ` set vs \<subseteq> set merged
    \<and> truthful H fnum ops good U (fst (store_batch H fnum ops clock' chain reqs cached 0 merged (s2, h)))"
proof -
  obtain s' where l: "batch_lookup H fnum ops clock chain 0 reqs s = (Done cached, s')" "length cached = length reqs"
      "\<forall>k < length reqs. cached ! k \<noteq> None \<longrightarrow> accepted good chain (reqs ! k) (cached ! k)"
    using batch_lookup_sound [OF assms(1,2,4,5), of clock 0] assms(6) by fastforce
  have len: "length merged = length reqs" using l(2) assms(8) by (simp add: merge_batch_def)
  have ans: "accepted good chain (reqs ! i) (merged ! i)" if "i < length reqs" for i
    by (rule merged_answers [OF l(2,3) assms(7) that assms(8)])
  then have "truthful H fnum ops good U (fst (store_batch H fnum ops clock' chain reqs cached 0 merged (s2, h)))"
    using assms(5) len by (intro store_batch_truthful [OF assms(1,3,9)]) auto
  moreover have "Some ` set vs \<subseteq> set merged"
    unfolding assms(8) using answering_length [OF assms(7)] by (intro merged_keeps) (simp add: uncached_reqs_def)
  ultimately show ?thesis using l(1) ans len by (simp add: accepted_def)
qed

text \<open>
  C37. When the node answers a batch with another number of responses than there are requests, the
  responses are taken by position, whatever their identifiers: a lone answer to the second request is
  returned in the place of the first, and kept in the cache as the answer to the first.
\<close>

theorem short_reply_misplaced:
  assumes "lawful ops" and "CEnabled (cfg s)" and "mem s = Some m"
    and "response_id b = Some (rpc_id r2)" and "rpc_id r1 \<noteq> rpc_id r2"
    and "AnswerTTL (Method r1) (Params r1) (Some b) (cfg s) = (ttl, n, bh)" and "0 < ttl"
    and "fst (ExtractBlockInfo (Some b)) = 0"
    and "e = put_entry (cfg s) (track s) (clock 0) (Response (Some b)) ttl chain n bh"
    and "entry_valid s e" and "unix_milli now \<le> Expiry e"
  shows "merge_batch [None, None] (orderBatchResponses [b] [r1, r2]) = [Some b, None]
    \<and> fst (Get ops now (lookup_key H fnum chain (Method r1) (Params r1))
             (fst (store_batch H fnum ops clock chain [r1, r2] [None, None] 0
                     (merge_batch [None, None] (orderBatchResponses [b] [r1, r2])) (s, h))))
        = Some (Response (Some b))"
proof -
  have m: "merge_batch [None, None] (orderBatchResponses [b] [r1, r2]) = [Some b, None]"
    by (simp add: merge_batch_def orderBatchResponses_def uncachedIndices_def upt_rec)
  have none: "ExtractBlockInfo None = (0, [])" "AnswerTTL mth p None c = (0, 0, [])" for mth p c
    by (simp_all add: ExtractBlockInfo_def AnswerTTL_def Cacheable_def)
  obtain x where "ExtractBlockInfo (Some b) = (0, x)" using assms(8) by (cases "ExtractBlockInfo (Some b)") auto
  then have "fst (store_batch H fnum ops clock chain [r1, r2] [None, None] 0 [Some b, None] (s, h))
      = Put ops (clock 0) (clock 1) (lookup_key H fnum chain (Method r1) (Params r1)) (Response (Some b)) ttl chain n bh s"
    using assms(6,7) by (simp add: none)
  then show ?thesis using Put_served [OF assms(1-3,7,9-11)] m by simp
qed

section \<open>Samples\<close>

definition balance_request :: "string \<Rightarrow> rpcReq" where
  "balance_request i =
     \<lparr>JSONRPC = ''2.0'', ID = Some (JNum i), Method = ''eth_getBalance'', Params = Some pinned_balance\<rparr>"

definition gas_request :: rpcReq where
  "gas_request = \<lparr>JSONRPC = ''2.0'', ID = Some (JStr ''a''), Method = ''eth_gasPrice'', Params = None\<rparr>"

definition gas_answer :: json where
  "gas_answer = JObj [(''id'', JStr ''a''), (''result'', JStr ''0x9'')]"

text \<open>The answer of the node to each method, under any identifiers in turn.\<close>

inductive restamped :: "json \<Rightarrow> json \<Rightarrow> bool" for v where
  itself: "restamped v v"
| again: "restamped v w \<Longrightarrow> RewriteResponseID (Some w) i = Done (Some w') \<Longrightarrow> restamped v w'"

definition sample_answers :: answers where
  "sample_answers c r v \<longleftrightarrow>
     restamped (if Method r = ''eth_getBalance'' then balance_answer else gas_answer) v"

lemma restamped_object: "restamped v w \<Longrightarrow> v = JObj ms \<Longrightarrow> \<exists>ms. w = JObj ms"
  by (induction rule: restamped.induct) (auto simp: RewriteResponseID_def Let_def sorted_members_def)

lemma sample_answers_relation: "answer_relation sample_answers"
  unfolding answer_relation_def sample_answers_def
  using restamped_object restamped.again by (fastforce simp: balance_answer_def gas_answer_def)

text \<open>What is asked in the samples: the gas price, and the balance by two clients.\<close>

definition sample_asked :: "(string \<times> rpcReq) set" where
  "sample_asked = {(''1'', gas_request), (''1'', balance_request ''1''), (''1'', balance_request ''2'')}"

lemma sample_plain: "(c, r) \<in> sample_asked \<Longrightarrow> plain_id r"
  by (auto simp: sample_asked_def plain_id_def gas_request_def balance_request_def code_def line_sep_def)

lemma sample_keys_tell: "keys_tell (\<lambda>b. b) (\<lambda>l. l) sample_answers sample_asked"
  by (auto simp: keys_tell_def sample_asked_def sample_answers_def fun_eq_iff lookup_key_def CanonicalKey_def gas_request_def balance_request_def
      pinned_balance_def quantity_def hex_encode_inj request_preimage_def string_bytes_def code_def)

lemma balance_accepted: "accepted sample_answers ''1'' (balance_request ''1'') (Some balance_answer)"
  by (simp add: accepted_def sample_answers_def balance_request_def restamped.itself response_id_def rpc_id_def
      balance_answer_def json_eval)

text \<open>A store that knows the balance, and a batch of two requests of which one is new to it.\<close>

definition balance_key :: string where
  "balance_key = lookup_key (\<lambda>b. b) (\<lambda>l. l) ''1'' ''eth_getBalance'' (Some pinned_balance)"

definition balance_store :: "((string \<times> entry) list, string \<Rightarrow> entry option) store" where
  "balance_store =
     Put (sample_tiers 10) 0 0 balance_key (Response (Some balance_answer)) 86400000000000 ''1'' 0 [] fresh_store"

definition two_requests :: "rpcReq list" where
  "two_requests = [gas_request, balance_request ''2'']"

lemma balance_store_truthful:
  "truthful (\<lambda>b. b) (\<lambda>l. l) (sample_tiers 10) sample_answers sample_asked balance_store"
proof -
  have "all_entries (sample_tiers 10) P fresh_store" for P
    by (simp add: all_entries_def holds_def fresh_store_def sample_tiers_def)
  moreover have "sample_answers ''1'' (balance_request i) balance_answer" for i
    by (simp add: sample_answers_def balance_request_def restamped.itself)
  moreover have "Cacheable (Some balance_answer)"
    using AnswerTTL_Cacheable [OF AnswerTTL_balance] by simp
  moreover have "balance_key \<noteq> lookup_key (\<lambda>b. b) (\<lambda>l. l) ''1'' (Method gas_request) (Params gas_request)"
    by (simp add: balance_key_def lookup_key_def CanonicalKey_def gas_request_def pinned_balance_def quantity_def
        hex_encode_inj request_preimage_def string_bytes_def code_def)
  ultimately show ?thesis
    unfolding truthful_def balance_store_def
    by (intro Put_all [OF lawful_sample]) (auto simp: answer_entry_def put_entry_def sample_asked_def Let_def)
qed

lemma balance_store_lookup:
  "\<exists>v. fst (batch_lookup (\<lambda>b. b) (\<lambda>l. l) (sample_tiers 10) (\<lambda>k. 3000000) ''1'' 0 two_requests balance_store)
     = Done [None, Some v]"
proof -
  have "fst (Get (sample_tiers 10) 3000000 balance_key balance_store) = Some (Response (Some balance_answer))"
    unfolding balance_store_def
    by (rule Put_served [OF lawful_sample _ _ _ refl])
      (simp_all add: put_entry_def Let_def entry_valid_def IsBlockHashValid_def empty_tracker_def unix_milli_def fresh_store_def)
  then obtain s1 where g: "Get (sample_tiers 10) 3000000 balance_key balance_store = (Some (Response (Some balance_answer)), s1)"
    by (cases "Get (sample_tiers 10) 3000000 balance_key balance_store") simp
  have "cfg balance_store = sample_cache_cfg" by (simp add: balance_store_def Put_def Let_def)
  moreover have "0 < TTL ''eth_getBalance'' (Some pinned_balance) sample_cache_cfg"
    by (simp add: TTL_def sample_cache_cfg_def)
  moreover have "TTL ''eth_gasPrice'' None c = 0" for c by (simp add: TTL_def)
  ultimately show ?thesis
    using g by (simp add: two_requests_def gas_request_def balance_request_def balance_key_def as_response_def
        RewriteResponseID_def balance_answer_def Let_def)
qed

theorem batch_answered_witness:
  "\<exists>cached merged. fst (batch_lookup (\<lambda>b. b) (\<lambda>l. l) (sample_tiers 10) (\<lambda>k. 3000000) ''1'' 0 two_requests balance_store) = Done cached
    \<and> cached ! 0 = None \<and> cached ! 1 \<noteq> None
    \<and> merged = merge_batch cached (orderBatchResponses [gas_answer] (uncached_reqs two_requests cached))
    \<and> map (\<lambda>m. Option.bind m response_id) merged = [Some (rpc_id gas_request), Some (rpc_id (balance_request ''2''))]"
proof -
  obtain v where l: "fst (batch_lookup (\<lambda>b. b) (\<lambda>l. l) (sample_tiers 10) (\<lambda>k. 3000000) ''1'' 0 two_requests balance_store)
      = Done [None, Some v]" using balance_store_lookup by blast
  let ?m = "merge_batch [None, Some v] (orderBatchResponses [gas_answer] [gas_request])"
  have u: "uncached_reqs two_requests [None, Some v] = [gas_request]"
    by (simp add: uncached_reqs_def uncachedIndices_def two_requests_def upt_rec)
  have "answering sample_answers ''1'' [gas_answer] [gas_request]"
    by (simp add: answering_def response_id_def rpc_id_def gas_answer_def gas_request_def json_eval
        accepted_def sample_answers_def restamped.itself)
  then have vs: "answering sample_answers ''1'' [gas_answer] (uncached_reqs two_requests [None, Some v])" by (simp add: u)
  have asked: "\<forall>r \<in> set two_requests. (''1'', r) \<in> sample_asked \<and> plain_id r"
    using sample_plain by (auto simp: two_requests_def sample_asked_def)
  have cached: "[None, Some v] = (case fst (batch_lookup (\<lambda>b. b) (\<lambda>l. l) (sample_tiers 10) (\<lambda>k. 3000000) ''1'' 0 two_requests balance_store)
      of Done cs \<Rightarrow> cs | _ \<Rightarrow> [])" by (simp add: l)
  from batch_answered [OF lawful_sample sample_answers_relation sample_keys_tell balance_store_truthful asked cached vs refl balance_store_truthful]
  have "length ?m = length two_requests \<and> (\<forall>i < length two_requests. \<exists>v. ?m ! i = Some v
      \<and> sample_answers ''1'' (two_requests ! i) v \<and> response_id v = Some (rpc_id (two_requests ! i)))"
    by (simp add: u)
  then have "length ?m = 2 \<and> Option.bind (?m ! 0) response_id = Some (rpc_id gas_request)
      \<and> Option.bind (?m ! 1) response_id = Some (rpc_id (balance_request ''2''))"
    by (fastforce simp: two_requests_def)
  then have "map (\<lambda>m. Option.bind m response_id) ?m = [Some (rpc_id gas_request), Some (rpc_id (balance_request ''2''))]"
    by (intro nth_equalityI) (auto simp: less_2_cases_iff)
  then show ?thesis using l u by (intro exI [of _ "[None, Some v]"] exI [of _ ?m]) simp
qed

theorem short_reply_misplaced_witness:
  "merge_batch [None, None] (orderBatchResponses [balance_answer] [balance_request ''2'', balance_request ''1''])
     = [Some balance_answer, None]"
proof -
  have id: "response_id balance_answer = Some (rpc_id (balance_request ''1''))"
    by (simp add: response_id_def rpc_id_def balance_answer_def balance_request_def json_eval)
  have block: "fst (ExtractBlockInfo (Some balance_answer)) = 0"
    by (simp add: ExtractBlockInfo_def balance_answer_def json_eval)
  have ttl: "AnswerTTL (Method (balance_request ''2'')) (Params (balance_request ''2'')) (Some balance_answer) (cfg fresh_store)
      = (86400000000000, 0, [])" using AnswerTTL_balance by (simp add: balance_request_def)
  show ?thesis
    by (rule conjunct1 [OF short_reply_misplaced [OF lawful_sample _ _ id _ ttl _ block refl, of "[]" "\<lambda>k. 0" "''1''" 3000000]])
      (simp_all add: put_entry_def Let_def entry_valid_def IsBlockHashValid_def empty_tracker_def unix_milli_def
        fresh_store_def sample_cache_cfg_def balance_request_def rpc_id_def normalizeID_def)
qed

end
