(* ===== verification/Cache_Answers.thy ===== *)
theory Cache_Answers
  imports Router_Batch
begin

text \<open>
  The operations of \<open>Cache_Serve\<close> keep a truthful store truthful: reads only forget, sub-calls are kept
  under other keys than requests, and \<open>Store\<close> keeps an answer under the key of its request.
\<close>

section \<open>Reading\<close>

lemma truthful_forgets: "only_forgets ops s s' \<Longrightarrow> truthful H fnum ops good U s \<Longrightarrow> truthful H fnum ops good U s'"
  unfolding truthful_def by (rule only_forgets_all)

lemma answer_entry_sub [simp]:
  "answer_entry H fnum good U (subCallKey H c t d) e" "answer_entry H fnum good U (subCallNegKey H c t d) e"
  using lookup_key_neq_sub by (auto simp: answer_entry_def dest: sym)

lemma negativeCached_forgets:
  "lawful ops \<Longrightarrow> negativeCached H ops now chain t d s = (f, s') \<Longrightarrow> only_forgets ops s s'"
  using Get_sound by (fastforce simp: negativeCached_def split: if_splits prod.splits)

lemma cached_sub_call_forgets:
  assumes "lawful ops" and "cached_sub_call H ops clock chain i c s = (f, s')"
  shows "only_forgets ops s s'"
proof -
  obtain b s1 where g: "Get ops (clock (2 * i)) (subCallKey H chain (Target c) (CallData c)) s = (b, s1)" by fastforce
  then have 1: "only_forgets ops s s1" using Get_sound [OF assms(1)] by blast
  show ?thesis
  proof (cases b)
    case (Some body)
    then show ?thesis using assms(2) g 1 by (simp add: cached_sub_call_def)
  next
    case None
    obtain n s2 where n: "negativeCached H ops (clock (2 * i + 1)) chain (Target c) (CallData c) s1 = (n, s2)" by fastforce
    have "s' = s2" using assms(2) g n None by (cases n) (auto simp: cached_sub_call_def)
    then show ?thesis using only_forgets_trans [OF 1 negativeCached_forgets [OF assms(1) n]] by simp
  qed
qed

lemma serve_calls_forgets:
  assumes "lawful ops" and "serve_calls H ops clock chain i calls s = (r, s')"
  shows "only_forgets ops s s'"
  using assms(2)
proof (induction calls arbitrary: i s r s')
  case Nil
  then show ?case by simp
next
  case (Cons c cs)
  show ?case
  proof (cases "isImmutableSelector (CallData c)")
    case False
    then show ?thesis using Cons.prems by simp
  next
    case True
    obtain f s1 where f: "cached_sub_call H ops clock chain i c s = (f, s1)" by fastforce
    obtain q s2 where q: "serve_calls H ops clock chain (Suc i) cs s1 = (q, s2)" by fastforce
    have "s' = s1 \<or> s' = s2" using Cons.prems True f q by (auto split: option.splits)
    then show ?thesis
      using cached_sub_call_forgets [OF assms(1) f] only_forgets_trans Cons.IH [OF q] by blast
  qed
qed

lemma plan_loop_forgets:
  assumes "lawful ops" and "plan_loop H ops clock chain i calls s = (rs, miss, s')"
  shows "only_forgets ops s s'"
  using assms(2)
proof (induction calls arbitrary: i s rs miss s')
  case Nil
  then show ?case by simp
next
  case (Cons c cs)
  obtain f s1 where f: "(if isImmutableSelector (CallData c) then cached_sub_call H ops clock chain i c s else (None, s)) = (f, s1)"
    by fastforce
  have 1: "only_forgets ops s s1" using f cached_sub_call_forgets [OF assms(1)] by (auto split: if_splits)
  obtain rs2 miss2 s2 where q: "plan_loop H ops clock chain (Suc i) cs s1 = (rs2, miss2, s2)" by (metis prod_cases3)
  have "s' = s2" using Cons.prems f q by (auto split: option.splits)
  then show ?case using only_forgets_trans [OF 1 Cons.IH [OF q]] by simp
qed

lemma serveMulticall_forgets:
  assumes "lawful ops" and "serveMulticall H ops clock chain i calls s = (r, s')"
  shows "only_forgets ops s s'"
  using assms serve_calls_forgets [OF assms(1)]
  by (auto simp: serveMulticall_def split: prod.splits option.splits)

lemma Lookup_forgets:
  assumes "lawful ops" and "Lookup H fnum ops clock chain mth params i s = (r, s')"
  shows "only_forgets ops s s'"
proof -
  have two: "only_forgets ops s s2"
    if "Get ops t k s = (b, s1)" "negativeCached H ops t' chain x y s1 = (f, s2)" for t k b s1 t' x y f s2
    using Get_sound [OF assms(1) that(1)] negativeCached_forgets [OF assms(1) that(2)] only_forgets_trans by blast
  have one: "only_forgets ops s s1" if "Get ops t k s = (b, s1)" for t k b s1
    using Get_sound [OF assms(1) that] by blast
  show ?thesis
    using assms(2) serveMulticall_forgets [OF assms(1)] one two
    by (auto simp: Lookup_def Let_def split: if_splits outcome.splits option.splits prod.splits bool.splits)
qed

lemma PlanMulticall_forgets:
  assumes "lawful ops" and "PlanMulticall H ops clock chain mth params i s = (r, s')"
  shows "only_forgets ops s s'"
  using assms(2) plan_loop_forgets [OF assms(1)]
  by (auto simp: PlanMulticall_def split: if_splits outcome.splits option.splits prod.splits)

text \<open>
  A request is answered whole unless it is an eth_call whose answer may be put together from sub-calls: a
  multicall, or a call of an immutable function.
\<close>

definition answered_whole :: "rpcReq \<Rightarrow> bool" where
  "answered_whole r \<longleftrightarrow>
     decodeMulticall (Method r) (Params r) = Fail () \<and> decodeImmutableCall (Method r) (Params r) = None"

lemma answered_whole_other [simp]: "Method r \<noteq> ''eth_call'' \<Longrightarrow> answered_whole r"
  by (simp add: answered_whole_def decodeMulticall_def decodeImmutableCall_def split: option.split)

lemma Lookup_whole:
  assumes "answered_whole r" and "Lookup H fnum ops clk chain (Method r) (Params r) i s = (Done v, s')"
  shows "\<exists>body s1. Get ops (clk 0) (lookup_key H fnum chain (Method r) (Params r)) s = (Some body, s1)
    \<and> RewriteResponseID (as_response body) i = Done v"
  using assms
  by (auto simp: Lookup_def Let_def answered_whole_def decodeMulticall_def decodeImmutableCall_def decodeImmutableCallFrom_def
      split: if_splits option.splits prod.splits)

lemma PlanMulticall_whole:
  "answered_whole r \<Longrightarrow> PlanMulticall H ops clk chain (Method r) (Params r) i s = (Fail (), s)"
  by (simp add: PlanMulticall_def answered_whole_def)

section \<open>Writing\<close>

lemma cache_results_answers:
  assumes "lawful ops" and "truthful H fnum ops good U s"
  shows "truthful H fnum ops good U (cache_results H ops clock chain i crs s)"
  using assms(2)
proof (induction crs arbitrary: i s)
  case Nil
  then show ?case by simp
next
  case (Cons cr crs)
  obtain c r where cr: "cr = (c, r)" by fastforce
  have "truthful H fnum ops good U (PutImmortal ops (subCallKey H chain (Target c) (CallData c)) b chain s)"
    and "truthful H fnum ops good U (putNegative H ops t chain (Target c) (CallData c) s)" for b t
    using Cons.prems PutImmortal_all [OF assms(1)] putNegative_all [OF assms(1)] by (simp_all add: truthful_def)
  then show ?case using Cons.IH Cons.prems by (simp add: cr)
qed

lemma CompleteMulticall_answers:
  assumes "lawful ops" and "truthful H fnum ops good U s"
    and "CompleteMulticall H ops clock chain plan body s = (r, s')"
  shows "truthful H fnum ops good U s'"
  using assms(2,3) cache_results_answers [OF assms(1,2)]
  by (auto simp: CompleteMulticall_def Let_def split: option.splits if_splits outcome.splits)

lemma StoreResponse_answers:
  assumes "lawful ops" and "truthful H fnum ops good U s" and "keys_tell H fnum good U" and "(chain, rq) \<in> U"
    and "accepted good chain rq body"
    and "StoreResponse H fnum ops clock chain (Method rq) (Params rq) body s = Done s'"
  shows "truthful H fnum ops good U s'"
proof -
  have sub: "truthful H fnum ops good U s2" if "cacheMulticallSubcalls H ops clock chain calls body s = Done s2" for calls s2
    using that assms(2) cache_results_answers [OF assms(1,2)]
    by (auto simp: cacheMulticallSubcalls_def split: option.splits if_splits outcome.splits)
  have imm: "truthful H fnum ops good U (cacheImmutableCall H ops t chain x y body s)" for t x y
    using assms(2) PutImmortal_all [OF assms(1)] putNegative_all [OF assms(1)]
    by (auto simp: cacheImmutableCall_def truthful_def split: option.splits)
  have put: "truthful H fnum ops good U
      (Put ops t t' (lookup_key H fnum chain (Method rq) (Params rq)) (Response body) ttl chain n h s)"
    if ttl: "AnswerTTL (Method rq) (Params rq) body c = (ttl, n, h)" "0 < ttl" for t t' ttl n h c
  proof -
    obtain v where v: "body = Some v" "good chain rq v" "Cacheable (Some v)"
      using AnswerTTL_Cacheable [OF ttl] assms(5) by (auto simp: accepted_def)
    have "answer_entry H fnum good U (lookup_key H fnum chain (Method rq) (Params rq))
        (put_entry c' tr t (Response body) ttl chain n h)" for c' tr
      using assms(3,4) v unfolding answer_entry_def keys_tell_def by (fastforce simp: put_entry_def Let_def)
    then show ?thesis using assms(2) Put_all [OF assms(1)] by (simp add: truthful_def)
  qed
  show ?thesis
    using assms(2,6) sub imm put
    by (auto simp: StoreResponse_def split: if_splits outcome.splits option.splits prod.splits)
qed

end
