(* ===== verification/Router.thy ===== *)
theory Router
  imports Cache_Answers Balancer
begin

text \<open>
  The handler of \<open>internal/router/router.go\<close>: a request is answered from the cache, or sent to a backend
  of the balancer's choice, with retries, and the answer is kept. What a handler meets outside the
  program (the clients of the backends, the batch processor, what other requests do to the state while
  this one waits for the network) is given per attempt.
\<close>

section \<open>The program's state and surroundings\<close>

record ('m, 'd, 'f, 'l) router_state =
  cstore :: "('m, 'd) store"
  lb :: "'f balancer"
  limiters :: "nat \<Rightarrow> 'l"
  TotalReq :: u64

record ('m, 'd, 'f, 'l, 'r) world =
  hash_of :: "bytes \<Rightarrow> bytes"
  fnum_of :: "string \<Rightarrow> string"
  tiers_ops :: "('m, 'd) tiers"
  floats :: "'f float64"
  limits :: "('l, 'r) rate_limiter"
  MaxAttempts :: nat
  BatchEnabled :: bool
  perf :: "'f PerformanceConfig"

record ('m, 'd, 'f, 'l, 'r) surroundings =
  picks :: "('l, 'r) pick_env \<times> ('l, 'r) pick_env"
  client :: "string \<Rightarrow> headers \<Rightarrow> raw \<Rightarrow> exchange"
  batching :: batch_io
  elapsed :: int
  clock_of :: "nat \<Rightarrow> int"
  meanwhile :: "('m, 'd, 'f, 'l) router_state \<Rightarrow> ('m, 'd, 'f, 'l) router_state"

text \<open>
  A request on its way: the batch as it came with what the cache had for it, or a single request with
  its plan when it is a multicall answered in part.
\<close>

datatype job =
    Batch "rpcReq list" "raw list"
  | Single rpcReq "MulticallPlan option"

definition job_reqs :: "job \<Rightarrow> rpcReq list" where
  "job_reqs j = (case j of Batch reqs cached \<Rightarrow> uncached_reqs reqs cached | Single r plan \<Rightarrow> [r])"

definition is_batch :: "job \<Rightarrow> bool" where
  "is_batch j = (case j of Batch reqs cached \<Rightarrow> True | Single r plan \<Rightarrow> False)"

definition has_plan :: "job \<Rightarrow> bool" where
  "has_plan j = (case j of Single r (Some plan) \<Rightarrow> True | _ \<Rightarrow> False)"

text \<open>The body to send; \<open>body\<close> is the one of the client.\<close>

definition job_body :: "raw \<Rightarrow> job \<Rightarrow> raw" where
  "job_body body j =
     (case j of
        Batch reqs cached \<Rightarrow> Some (JArr (map marshal_request (uncached_reqs reqs cached)))
      | Single r (Some plan) \<Rightarrow> Some (ReducedBody plan)
      | Single r None \<Rightarrow> body)"

definition job_head :: "job \<Rightarrow> u64" where
  "job_head j = foldl (\<lambda>h r. max h (RequiredHead (Method r) (Params r))) 0 (job_reqs j)"

section \<open>One attempt\<close>

text \<open>The variables the loop leaves behind: the backend (by its position in the pool) and its reply.\<close>

record reply =
  bk :: "nat option"
  status :: nat
  hdrs :: headers
  data :: raw

text \<open>A reply with the error, when the last attempt has failed.\<close>

definition gives_up_reply :: "job \<Rightarrow> nat \<Rightarrow> string \<Rightarrow> string \<Rightarrow> string \<Rightarrow> http_response" where
  "gives_up_reply j c batch_msg single_msg e =
     (case j of
        Batch reqs cached \<Rightarrow> batch_errors c reqs (batch_msg @ e)
      | Single r plan \<Rightarrow> http_error (single_msg @ e) c)"

definition set_head :: "nat \<Rightarrow> head_op \<Rightarrow> 'f balancer \<Rightarrow> 'f balancer" where
  "set_head k op l = set_backend k ((pool l ! k)\<lparr>Head := apply_head op (Head (pool l ! k))\<rparr>) l"

text \<open>What is done with a reply of status 200: the tip and the head, and the answers of a batch.\<close>

definition observe_single ::
  "('m, 'd) tiers \<Rightarrow> string \<Rightarrow> nat \<Rightarrow> raw \<Rightarrow> ('m, 'd, 'f, 'l) router_state \<Rightarrow> ('m, 'd, 'f, 'l) router_state" where
  "observe_single ops chain k body st =
     (case ExtractBlockInfo body of (n, h) \<Rightarrow>
        if 0 < n
        then st\<lparr>cstore := UpdateLatestBlock ops chain n h body (cstore st), lb := set_head k (ObserveHead n) (lb st)\<rparr>
        else st)"

definition complete_batch ::
  "('m, 'd, 'f, 'l, 'r) world \<Rightarrow> (nat \<Rightarrow> int) \<Rightarrow> string \<Rightarrow> rpcReq list \<Rightarrow> raw list \<Rightarrow> nat \<Rightarrow> raw
     \<Rightarrow> ('m, 'd, 'f, 'l) router_state \<Rightarrow> raw \<times> ('m, 'd, 'f, 'l) router_state" where
  "complete_batch w clk chain reqs cached k body st =
     (case as_slice body of
        None \<Rightarrow> (body, st)
      | Some vs \<Rightarrow>
        (let ordered = orderBatchResponses vs (uncached_reqs reqs cached);
             merging = cached \<noteq> [] \<and> uncachedIndices cached \<noteq> [];
             merged = (if merging then merge_batch cached ordered else ordered)
         in case store_batch (hash_of w) (fnum_of w) (tiers_ops w) clk chain reqs cached 0 merged
                   (cstore st, Head (pool (lb st) ! k)) of
              (s, h) \<Rightarrow>
                (if merging then Some (JArr (map marshal_raw merged)) else body,
                 st\<lparr>cstore := s, lb := set_backend k ((pool (lb st) ! k)\<lparr>Head := h\<rparr>) (lb st)\<rparr>)))"

text \<open>An attempt crashes, answers the client, is to be made again, or leaves the loop with its reply.\<close>

datatype attempted = Crash | Answer http_response | Again reply | Leave reply

definition receive ::
  "('m, 'd, 'f, 'l, 'r) world \<Rightarrow> ('m, 'd, 'f, 'l, 'r) surroundings \<Rightarrow> string \<Rightarrow> job \<Rightarrow> bool \<Rightarrow> nat \<Rightarrow> exchange
     \<Rightarrow> ('m, 'd, 'f, 'l) router_state \<Rightarrow> attempted \<times> ('m, 'd, 'f, 'l) router_state" where
  "receive w a chain j last_one k x st =
     (case x of
        Failed e \<Rightarrow>
          (if last_one then (Answer (gives_up_reply j 502 ''Internal error: '' ''upstream error: '' e), st)
           else (Again \<lparr>bk = Some k, status = 0, hdrs = [], data = None\<rparr>, st))
      | Replied c h d \<Rightarrow>
          (let r = \<lparr>bk = Some k, status = c, hdrs = h, data = d\<rparr> in
           if c = 200 \<and> \<not> last_one \<and> BlockUnavailable d
           then (Again r, st\<lparr>lb := set_head k (HeadBelow (job_head j)) (lb st)\<rparr>)
           else if isRetryableStatus c then (Again r, st)
           else
             (case UpdateLatency (floats w) k (elapsed a) (perf w) (lb st) of
                None \<Rightarrow> (Crash, st)
              | Some lb' \<Rightarrow>
                (let st' = st\<lparr>lb := lb'\<rparr> in
                 if c \<noteq> 200 then (Leave r, st')
                 else
                   (case j of
                      Single rq plan \<Rightarrow> (Leave r, observe_single (tiers_ops w) chain k d st')
                    | Batch reqs cached \<Rightarrow>
                        (case complete_batch w (clock_of a) chain reqs cached k d st' of
                           (d', st2) \<Rightarrow> (Leave (r\<lparr>data := d'\<rparr>), st2)))))))"

definition attempt_once ::
  "('m, 'd, 'f, 'l, 'r) world \<Rightarrow> ('m, 'd, 'f, 'l, 'r) surroundings \<Rightarrow> string \<Rightarrow> headers \<Rightarrow> raw \<Rightarrow> job \<Rightarrow> bool
     \<Rightarrow> reply \<Rightarrow> ('m, 'd, 'f, 'l) router_state \<Rightarrow> attempted \<times> ('m, 'd, 'f, 'l) router_state" where
  "attempt_once w a chain inHdr body j last_one prev st =
     (case PickAtLeast (floats w) (limits w) (fst (picks a)) (snd (picks a)) chain ''http'' (job_head j)
             (lb st, limiters st) of
        (Panic, lb', lims) \<Rightarrow> (Crash, st\<lparr>lb := lb', limiters := lims\<rparr>)
      | (Fail e, lb', lims) \<Rightarrow>
          (if last_one
           then Answer (gives_up_reply j 503 ''Internal error: no available backends: '' ''no available backends: '' e)
           else Again (prev\<lparr>bk := None\<rparr>),
           st\<lparr>lb := lb', limiters := lims\<rparr>)
      | (Done i, lb', lims) \<Rightarrow>
          (let st1 = st\<lparr>lb := lb', limiters := lims\<rparr>; k = members lb' chain ! i in
           case URL (pool lb' ! k) of
             None \<Rightarrow> (Crash, st1)
           | Some url \<Rightarrow>
               (let direct = sendTo (client a) url inHdr (job_body body j);
                    x = (if BatchEnabled w \<and> \<not> has_plan j
                         then processBatchRequest (batching a) direct (is_batch j) (length (job_reqs j))
                         else direct)
                in receive w a chain j last_one k x (meanwhile a st1))))"

text \<open>The loop, from attempt \<open>n\<close> on with \<open>left\<close> attempts to go.\<close>

fun attempts ::
  "('m, 'd, 'f, 'l, 'r) world \<Rightarrow> (nat \<Rightarrow> ('m, 'd, 'f, 'l, 'r) surroundings) \<Rightarrow> string \<Rightarrow> headers \<Rightarrow> raw \<Rightarrow> job
     \<Rightarrow> nat \<Rightarrow> nat \<Rightarrow> reply \<Rightarrow> ('m, 'd, 'f, 'l) router_state \<Rightarrow> attempted \<times> ('m, 'd, 'f, 'l) router_state" where
  "attempts w env chain inHdr body j n 0 prev st = (Leave prev, st)"
| "attempts w env chain inHdr body j n (Suc left) prev st =
     (case attempt_once w (env n) chain inHdr body j (left = 0) prev st of
        (Again r, st') \<Rightarrow> attempts w env chain inHdr body j (Suc n) left r st'
      | (other, st') \<Rightarrow> (other, st'))"

section \<open>The answer\<close>

definition reassembly_failed :: "raw \<Rightarrow> json" where
  "reassembly_failed i =
     JObj [(''jsonrpc'', jstring ''2.0''), (''id'', marshal_raw i),
           (''error'', rpc_error (- 32603) ''multicall reassembly failed'')]"

text \<open>What is made of the reply: the multicall put together, or the answer to a single request kept.\<close>

definition finish_data ::
  "('m, 'd, 'f, 'l, 'r) world \<Rightarrow> (nat \<Rightarrow> int) \<Rightarrow> string \<Rightarrow> job \<Rightarrow> reply \<Rightarrow> ('m, 'd) store
     \<Rightarrow> (unit, raw) outcome \<times> ('m, 'd) store" where
  "finish_data w clk chain j r s =
     (if status r \<noteq> 200 then (Done (data r), s)
      else
        (case j of
           Batch reqs cached \<Rightarrow> (Done (data r), s)
         | Single rq (Some plan) \<Rightarrow>
             (case CompleteMulticall (hash_of w) (tiers_ops w) clk chain plan (data r) s of
                (Panic, s') \<Rightarrow> (Panic, s')
              | (Done full, s') \<Rightarrow> (Done full, s')
              | (Fail u, s') \<Rightarrow> (Done (Some (reassembly_failed (ID rq))), s'))
         | Single rq None \<Rightarrow>
             (case StoreResponse (hash_of w) (fnum_of w) (tiers_ops w) clk chain (Method rq) (Params rq) (data r) s of
                Panic \<Rightarrow> (Panic, s)
              | Fail u \<Rightarrow> (Done (data r), s)
              | Done s' \<Rightarrow> (Done (data r), s'))))"

definition upstream_reply :: "backend option \<Rightarrow> reply \<Rightarrow> raw \<Rightarrow> http_response" where
  "upstream_reply b r d =
     (let h1 = header_set ''X-Cache'' ''miss'' (writeHopSafeHeaders [] (hdrs r));
          h2 = (case b of
                  None \<Rightarrow> h1
                | Some x \<Rightarrow> header_set ''X-Upstream-Url'' (case URL x of None \<Rightarrow> [] | Some u \<Rightarrow> u)
                    (header_set ''X-Upstream-Chain'' (Chain x) (header_set ''X-Upstream-Provider'' (Name x) h1)))
      in \<lparr>status_code = (if status r = 0 then 500 else status r), resp_headers = h2, payload = Content d\<rparr>)"

text \<open>A job from the loop to the answer; None is a panic, on which the server drops the connection.\<close>

definition run_job ::
  "('m, 'd, 'f, 'l, 'r) world \<Rightarrow> (nat \<Rightarrow> ('m, 'd, 'f, 'l, 'r) surroundings) \<Rightarrow> (nat \<Rightarrow> int) \<Rightarrow> string \<Rightarrow> headers
     \<Rightarrow> raw \<Rightarrow> job \<Rightarrow> ('m, 'd, 'f, 'l) router_state \<Rightarrow> http_response option \<times> ('m, 'd, 'f, 'l) router_state" where
  "run_job w env clk chain inHdr body j st =
     (case attempts w env chain inHdr body j 1 (MaxAttempts w) \<lparr>bk = None, status = 0, hdrs = [], data = None\<rparr> st of
        (Crash, st1) \<Rightarrow> (None, st1)
      | (Answer r, st1) \<Rightarrow> (Some r, st1)
      | (Again r, st1) \<Rightarrow> (None, st1)
      | (Leave r, st1) \<Rightarrow>
          (case finish_data w clk chain j r (cstore st1) of
             (d, s) \<Rightarrow>
               ((case d of
                   Done v \<Rightarrow> Some (upstream_reply (map_option ((!) (pool (lb st1))) (bk r)) r v)
                 | _ \<Rightarrow> None),
                st1\<lparr>cstore := s\<rparr>)))"

section \<open>The handler\<close>

record http_request =
  path :: string
  http_method :: string
  req_headers :: headers
  req_body :: raw

text \<open>\<open>strings.TrimSpace\<close> on ASCII, and the slashes.\<close>

definition chain_of :: "string \<Rightarrow> string" where
  "chain_of p =
     trim_set (\<lambda>c. c = CHR ''/'') (trim_set (\<lambda>c. code c = 32 \<or> 9 \<le> code c \<and> code c \<le> 13) p)"

definition request_error :: "int \<Rightarrow> string \<Rightarrow> http_response" where
  "request_error c msg = json_response 400 [] (Some (error_envelope None c msg))"

definition cache_hit :: "raw \<Rightarrow> http_response" where
  "cache_hit v = json_response 200 [(''X-Cache'', [''hit''])] v"

text \<open>
  A body that is valid JSON starts with a bracket just when it is an array; on any other body both
  branches end in the parse error. \<open>clks k\<close> is the clock of the \<open>k\<close>-th operation of the cache.
\<close>

definition handle_single ::
  "('m, 'd, 'f, 'l, 'r) world \<Rightarrow> (nat \<Rightarrow> ('m, 'd, 'f, 'l, 'r) surroundings) \<Rightarrow> (nat \<Rightarrow> nat \<Rightarrow> int) \<Rightarrow> string \<Rightarrow> headers
     \<Rightarrow> raw \<Rightarrow> rpcReq \<Rightarrow> ('m, 'd, 'f, 'l) router_state \<Rightarrow> http_response option \<times> ('m, 'd, 'f, 'l) router_state" where
  "handle_single w env clks chain inHdr body r st =
     (case Lookup (hash_of w) (fnum_of w) (tiers_ops w) (clks 0) chain (Method r) (Params r) (ID r) (cstore st) of
        (Panic, s) \<Rightarrow> (None, st\<lparr>cstore := s\<rparr>)
      | (Done v, s) \<Rightarrow> (Some (cache_hit v), st\<lparr>cstore := s\<rparr>)
      | (Fail u, s) \<Rightarrow>
          (case PlanMulticall (hash_of w) (tiers_ops w) (clks 1) chain (Method r) (Params r) (ID r) s of
             (Panic, s1) \<Rightarrow> (None, st\<lparr>cstore := s1\<rparr>)
           | (Done plan, s1) \<Rightarrow> run_job w env (clks 2) chain inHdr body (Single r (Some plan)) (st\<lparr>cstore := s1\<rparr>)
           | (Fail u', s1) \<Rightarrow> run_job w env (clks 2) chain inHdr body (Single r None) (st\<lparr>cstore := s1\<rparr>)))"

definition handle_batch ::
  "('m, 'd, 'f, 'l, 'r) world \<Rightarrow> (nat \<Rightarrow> ('m, 'd, 'f, 'l, 'r) surroundings) \<Rightarrow> (nat \<Rightarrow> nat \<Rightarrow> int) \<Rightarrow> string \<Rightarrow> headers
     \<Rightarrow> raw \<Rightarrow> rpcReq list \<Rightarrow> ('m, 'd, 'f, 'l) router_state \<Rightarrow> http_response option \<times> ('m, 'd, 'f, 'l) router_state" where
  "handle_batch w env clks chain inHdr body reqs st =
     (case batch_lookup (hash_of w) (fnum_of w) (tiers_ops w) (clks 0) chain 0 reqs (cstore st) of
        (Done cached, s) \<Rightarrow>
          (if uncached_reqs reqs cached = []
           then (Some (cache_hit (Some (JArr (map marshal_raw cached)))), st\<lparr>cstore := s\<rparr>)
           else run_job w env (clks 2) chain inHdr body (Batch reqs cached) (st\<lparr>cstore := s\<rparr>))
      | (_, s) \<Rightarrow> (None, st\<lparr>cstore := s\<rparr>))"

definition handle_post ::
  "('m, 'd, 'f, 'l, 'r) world \<Rightarrow> (nat \<Rightarrow> ('m, 'd, 'f, 'l, 'r) surroundings) \<Rightarrow> (nat \<Rightarrow> nat \<Rightarrow> int) \<Rightarrow> string \<Rightarrow> headers
     \<Rightarrow> raw \<Rightarrow> ('m, 'd, 'f, 'l) router_state \<Rightarrow> http_response option \<times> ('m, 'd, 'f, 'l) router_state" where
  "handle_post w env clks chain inHdr body st =
     (case body of
        Some (JArr vs) \<Rightarrow>
          (case decode_rpcReqs body of
             None \<Rightarrow> (Some (request_error (- 32700) ''Parse error''), st)
           | Some [] \<Rightarrow> (Some (request_error (- 32600) ''Invalid Request''), st)
           | Some reqs \<Rightarrow> handle_batch w env clks chain inHdr body reqs st)
      | _ \<Rightarrow>
          (case Option.bind body decode_rpcReq of
             None \<Rightarrow> (Some (request_error (- 32700) ''Parse error''), st)
           | Some r \<Rightarrow> handle_single w env clks chain inHdr body r st))"

definition handle ::
  "('m, 'd, 'f, 'l, 'r) world \<Rightarrow> (nat \<Rightarrow> ('m, 'd, 'f, 'l, 'r) surroundings) \<Rightarrow> (nat \<Rightarrow> nat \<Rightarrow> int) \<Rightarrow> http_request
     \<Rightarrow> ('m, 'd, 'f, 'l) router_state \<Rightarrow> http_response option \<times> ('m, 'd, 'f, 'l) router_state" where
  "handle w env clks rq st0 =
     (let st = st0\<lparr>TotalReq := TotalReq st0 + 1\<rparr>; chain = chain_of (path rq) in
      if chain = [] then (Some (http_error ''404 page not found'' 404), st)
      else if http_method rq \<noteq> ''POST'' then (Some (http_error ''method not allowed'' 405), st)
      else handle_post w env clks chain (req_headers rq) (req_body rq) st)"

text \<open>The other endpoint: each chain with a configured backend has a healthy one.\<close>

definition health_endpoint :: "string list \<Rightarrow> 'f balancer \<Rightarrow> nat \<times> string" where
  "health_endpoint configured l =
     (if list_all (\<lambda>c. list_ex HealthUp (GetBackends l c)) configured then (200, ''OK'')
      else (503, ''No healthy backends''))"

end
