(* ===== verification/Router_Truth.thy ===== *)
theory Router_Truth
  imports Router
begin

text \<open>
  What the handler of the router promises: that the cache stays truthful and every response of status
  200 carries answers, and when a failure reaches the client.
\<close>

section \<open>Honest surroundings\<close>

text \<open>
  The nodes answer what they are sent: with status 200 a single request comes back with an answer to it (a
  result or an error) under its identifier, a batch with one answer per request. So does the batch
  processor, which gives to each request, in turn, its answer or an error in its place. Of the reply to a
  reduced multicall nothing is asked here.
\<close>

definition honest :: "answers \<Rightarrow> string \<Rightarrow> raw \<Rightarrow> job \<Rightarrow> ('m, 'd, 'f, 'l, 'r) surroundings \<Rightarrow> bool" where
  "honest good chain body j a \<longleftrightarrow>
     (case j of
        Single r plan \<Rightarrow>
          (\<forall>url h hs d. client a url h (job_body body j) = Replied 200 hs d \<longrightarrow> plan = None \<longrightarrow> accepted good chain r d)
          \<and> (\<forall>x. received (batching a) 0 = Some x \<longrightarrow> InternalErr x = None
               \<longrightarrow> accepted good chain r (Some (marshal_response x)))
      | Batch reqs cached \<Rightarrow>
          (\<forall>url h hs d. client a url h (job_body body j) = Replied 200 hs d
             \<longrightarrow> (\<exists>vs. as_slice d = Some vs \<and> answering good chain vs (uncached_reqs reqs cached)))
          \<and> (\<forall>xs. those (map (received (batching a)) [0..<length (uncached_reqs reqs cached)]) = Some xs
             \<longrightarrow> answer_each good chain (map marshal_response xs) (uncached_reqs reqs cached)))"

text \<open>A job as the handler makes it.\<close>

definition job_ok :: "answers \<Rightarrow> (string \<times> rpcReq) set \<Rightarrow> string \<Rightarrow> job \<Rightarrow> bool" where
  "job_ok good U chain j \<longleftrightarrow>
     (case j of
        Single r plan \<Rightarrow> (chain, r) \<in> U
      | Batch reqs cached \<Rightarrow>
          length cached = length reqs \<and> uncached_reqs reqs cached \<noteq> [] \<and> (\<forall>r \<in> set reqs. (chain, r) \<in> U)
          \<and> (\<forall>k < length reqs. cached ! k \<noteq> None \<longrightarrow> accepted good chain (reqs ! k) (cached ! k)))"

text \<open>
  What the loop leaves with, when its reply has status 200: the answer of each request of a batch, at its
  position.
\<close>

definition batch_data :: "answers \<Rightarrow> string \<Rightarrow> rpcReq list \<Rightarrow> raw \<Rightarrow> bool" where
  "batch_data good chain reqs d \<longleftrightarrow>
     (\<exists>ms. d = Some (JArr (map marshal_raw ms)) \<and> length ms = length reqs
        \<and> (\<forall>i < length reqs. accepted good chain (reqs ! i) (ms ! i)))"

definition data_ok :: "answers \<Rightarrow> string \<Rightarrow> job \<Rightarrow> raw \<Rightarrow> bool" where
  "data_ok good chain j d \<longleftrightarrow>
     (case j of
        Single r None \<Rightarrow> accepted good chain r d
      | Single r (Some plan) \<Rightarrow> True
      | Batch reqs cached \<Rightarrow> batch_data good chain reqs d)"

abbreviation truthful_in ::
  "('m, 'd, 'f, 'l, 'r) world \<Rightarrow> answers \<Rightarrow> (string \<times> rpcReq) set \<Rightarrow> ('m, 'd) store \<Rightarrow> bool" where
  "truthful_in w good U s \<equiv> truthful (hash_of w) (fnum_of w) (tiers_ops w) good U s"

section \<open>One attempt\<close>

lemma sendTo_Replied:
  "sendTo c url h b = Replied n hs d \<Longrightarrow> \<exists>hs'. c url (upstream_headers h) b = Replied n hs' d"
  by (auto simp: sendTo_def split: exchange.splits)

text \<open>What comes back of an exchange, from a node or from the batch processor.\<close>

lemma exchange_honest:
  assumes "honest good chain body j a"
    and "(if en \<and> \<not> has_plan j
          then processBatchRequest (batching a) (sendTo (client a) url h (job_body body j)) (is_batch j) (length (job_reqs j))
          else sendTo (client a) url h (job_body body j)) = Replied 200 hs d"
  shows "case j of
           Single r plan \<Rightarrow> plan = None \<longrightarrow> accepted good chain r d
         | Batch reqs cached \<Rightarrow> \<exists>vs. as_slice d = Some vs \<and> answering good chain vs (uncached_reqs reqs cached)"
proof (cases "sendTo (client a) url h (job_body body j) = Replied 200 hs d")
  case True
  then obtain hs' where "client a url (upstream_headers h) (job_body body j) = Replied 200 hs' d"
    using sendTo_Replied by blast
  then show ?thesis using assms(1) by (auto simp: honest_def split: job.splits)
next
  case False
  then have p: "processBatchRequest (batching a) (sendTo (client a) url h (job_body body j)) (is_batch j) (length (job_reqs j))
      = Replied 200 hs d"
    using assms(2) by (auto split: if_splits)
  show ?thesis
  proof (cases j)
    case (Batch reqs cached)
    obtain xs where xs: "those (map (received (batching a)) [0..<length (uncached_reqs reqs cached)]) = Some xs"
        "d = Some (JArr (map marshal_response xs))"
      using p False Batch
      by (auto simp: processBatchRequest_def is_batch_def job_reqs_def json_reply_def split: if_splits option.splits)
    then show ?thesis using assms(1) Batch by (auto simp: honest_def answering_def)
  next
    case (Single r plan)
    obtain x where "received (batching a) 0 = Some x" "InternalErr x = None" "d = Some (marshal_response x)"
      using p False Single
      by (auto simp: processBatchRequest_def is_batch_def job_reqs_def json_reply_def split: if_splits option.splits)
    then show ?thesis using assms(1) Single by (auto simp: honest_def)
  qed
qed

lemma complete_batch_sound:
  assumes "lawful (tiers_ops w)" and "keys_tell (hash_of w) (fnum_of w) good U" and "job_ok good U chain (Batch reqs cached)"
    and "as_slice d = Some vs" and "answering good chain vs (uncached_reqs reqs cached)"
    and "truthful_in w good U (cstore st)" and "complete_batch w clk chain reqs cached k d st = (d', st')"
  shows "truthful_in w good U (cstore st') \<and> batch_data good chain reqs d'"
proof -
  let ?m = "merge_batch cached (orderBatchResponses vs (uncached_reqs reqs cached))"
  have j: "length cached = length reqs" "uncached_reqs reqs cached \<noteq> []" "\<forall>r \<in> set reqs. (chain, r) \<in> U"
      "\<forall>k < length reqs. cached ! k \<noteq> None \<longrightarrow> accepted good chain (reqs ! k) (cached ! k)"
    using assms(3) by (simp_all add: job_ok_def)
  then have u: "uncachedIndices cached \<noteq> []" "cached \<noteq> []"
    by (auto simp: uncached_reqs_def uncachedIndices_def)
  obtain s h where s: "store_batch (hash_of w) (fnum_of w) (tiers_ops w) clk chain reqs cached 0 ?m
      (cstore st, Head (pool (lb st) ! k)) = (s, h)" by fastforce
  have len: "length ?m = length reqs" using j(1) by (simp add: merge_batch_def)
  have ans: "accepted good chain (reqs ! i) (?m ! i)" if "i < length reqs" for i
    by (rule merged_answers [OF j(1,4) assms(5) that refl])
  have "truthful_in w good U (fst (s, h))"
    unfolding s [symmetric] using ans j(3) len by (intro store_batch_truthful [OF assms(1,2,6)]) auto
  moreover have "d' = Some (JArr (map marshal_raw ?m)) \<and> cstore st' = s"
    using assms(4,7) u s by (auto simp: complete_batch_def Let_def)
  ultimately show ?thesis using ans len by (auto simp: batch_data_def)
qed

lemma observe_single_truthful:
  "lawful ops \<Longrightarrow> truthful H f ops good U (cstore st) \<Longrightarrow> truthful H f ops good U (cstore (observe_single ops chain k d st))"
  using UpdateLatestBlock_all by (auto simp: observe_single_def truthful_def split: prod.split)

lemma receive_sound:
  assumes "lawful (tiers_ops w)" and "keys_tell (hash_of w) (fnum_of w) good U" and "job_ok good U chain j"
    and "\<And>hs d. x = Replied 200 hs d \<Longrightarrow>
          (case j of
             Single r plan \<Rightarrow> plan = None \<longrightarrow> accepted good chain r d
           | Batch reqs cached \<Rightarrow> \<exists>vs. as_slice d = Some vs \<and> answering good chain vs (uncached_reqs reqs cached))"
    and "truthful_in w good U (cstore st)" and "receive w a chain j last_one k x st = (y, st')"
  shows "truthful_in w good U (cstore st')
    \<and> (\<forall>r. y = Leave r \<longrightarrow> status r = 200 \<longrightarrow> data_ok good chain j (data r))
    \<and> (\<forall>r. y = Again r \<longrightarrow> last_one \<longrightarrow> status r \<noteq> 200)"
proof (cases x)
  case (Failed e)
  then show ?thesis using assms(5,6) by (auto simp: receive_def split: if_splits)
next
  case (Replied c h d)
  note node = assms(4) [of h d] Replied
  show ?thesis
  proof (cases "c = 200 \<and> \<not> last_one \<and> BlockUnavailable d \<or> isRetryableStatus c")
    case True
    then show ?thesis using assms(5,6) Replied by (auto simp: receive_def Let_def isRetryableStatus_def split: if_splits)
  next
    case no: False
    show ?thesis
    proof (cases "UpdateLatency (floats w) k (elapsed a) (perf w) (lb st)")
      case None
      then show ?thesis using assms(5,6) Replied no by (auto simp: receive_def Let_def)
    next
      case (Some lb')
      let ?st = "st\<lparr>lb := lb'\<rparr>" and ?r = "\<lparr>bk = Some k, status = c, hdrs = h, data = d\<rparr>"
      show ?thesis
      proof (cases "c = 200")
        case False
        then show ?thesis using assms(5,6) Replied no Some by (auto simp: receive_def Let_def)
      next
        case True
        show ?thesis
        proof (cases j)
          case (Single r plan)
          then have "y = Leave ?r" "st' = observe_single (tiers_ops w) chain k d ?st"
            using assms(6) Replied no Some True by (auto simp: receive_def Let_def)
          moreover have "data_ok good chain j d"
            using node True Single by (cases plan) (auto simp: data_ok_def)
          ultimately show ?thesis using observe_single_truthful [OF assms(1), of _ _ _ _ ?st] assms(5) by auto
        next
          case (Batch reqs cached)
          obtain d' st2 where c: "complete_batch w (clock_of a) chain reqs cached k d ?st = (d', st2)" by fastforce
          obtain vs where "as_slice d = Some vs" "answering good chain vs (uncached_reqs reqs cached)"
            using node True Batch by auto
          note sound = complete_batch_sound [OF assms(1,2) assms(3) [unfolded Batch] this _ c]
          have "y = Leave (?r\<lparr>data := d'\<rparr>)" "st' = st2"
            using assms(6) Replied no Some True Batch c by (auto simp: receive_def Let_def)
          then show ?thesis using sound assms(5) Batch by (auto simp: data_ok_def)
        qed
      qed
    qed
  qed
qed

lemma attempt_once_sound:
  assumes "lawful (tiers_ops w)" and "keys_tell (hash_of w) (fnum_of w) good U" and "job_ok good U chain j"
    and "honest good chain body j a" and "\<And>t. truthful_in w good U (cstore t) \<Longrightarrow> truthful_in w good U (cstore (meanwhile a t))"
    and "truthful_in w good U (cstore st)" and "attempt_once w a chain inHdr body j last_one prev st = (y, st')"
  shows "truthful_in w good U (cstore st')
    \<and> (\<forall>r. y = Leave r \<longrightarrow> status r = 200 \<longrightarrow> data_ok good chain j (data r))
    \<and> (\<forall>r. y = Again r \<longrightarrow> last_one \<longrightarrow> status r \<noteq> 200)"
proof -
  obtain p l lims where pick: "PickAtLeast (floats w) (limits w) (fst (picks a)) (snd (picks a)) chain ''http'' (job_head j)
      (lb st, limiters st) = (p, l, lims)" by (metis prod_cases3)
  let ?st = "st\<lparr>lb := l, limiters := lims\<rparr>"
  show ?thesis
  proof (cases p)
    case Panic
    then show ?thesis using assms(6,7) pick by (auto simp: attempt_once_def)
  next
    case (Fail e)
    then show ?thesis using assms(6,7) pick by (auto simp: attempt_once_def split: if_splits)
  next
    case (Done i)
    let ?k = "members l chain ! i"
    show ?thesis
    proof (cases "URL (pool l ! ?k)")
      case None
      then show ?thesis using assms(6,7) pick Done by (auto simp: attempt_once_def Let_def)
    next
      case (Some url)
      let ?d = "sendTo (client a) url inHdr (job_body body j)"
      have r: "receive w a chain j last_one ?k
          (if BatchEnabled w \<and> \<not> has_plan j
           then processBatchRequest (batching a) ?d (is_batch j) (length (job_reqs j)) else ?d) (meanwhile a ?st) = (y, st')"
        using assms(7) pick Done Some by (auto simp: attempt_once_def Let_def)
      show ?thesis
        by (rule receive_sound [OF assms(1-3) exchange_honest [OF assms(4)] _ r]) (simp_all add: assms(5,6))
    qed
  qed
qed

section \<open>The loop and the answer\<close>

lemma attempts_sound:
  assumes "lawful (tiers_ops w)" and "keys_tell (hash_of w) (fnum_of w) good U" and "job_ok good U chain j"
    and "\<And>n. honest good chain body j (env n)"
    and "\<And>n t. truthful_in w good U (cstore t) \<Longrightarrow> truthful_in w good U (cstore (meanwhile (env n) t))"
    and "truthful_in w good U (cstore st)" and "left = 0 \<longrightarrow> status prev \<noteq> 200"
    and "attempts w env chain inHdr body j n left prev st = (y, st')"
  shows "truthful_in w good U (cstore st')
    \<and> (\<forall>r. y = Leave r \<longrightarrow> status r = 200 \<longrightarrow> data_ok good chain j (data r))
    \<and> (\<forall>r. y \<noteq> Again r)"
  using assms(6-8)
proof (induction left arbitrary: n prev st)
  case 0
  then show ?case by auto
next
  case (Suc left)
  obtain z st1 where z: "attempt_once w (env n) chain inHdr body j (left = 0) prev st = (z, st1)" by fastforce
  note sound = attempt_once_sound [OF assms(1-3) assms(4) assms(5) Suc.prems(1) z]
  show ?case
  proof (cases z)
    case (Again r)
    then have "attempts w env chain inHdr body j (Suc n) left r st1 = (y, st')" using Suc.prems(3) z by simp
    from Suc.IH [OF _ _ this] show ?thesis using sound Again by blast
  qed (use Suc.prems(3) z sound in auto)
qed

lemma finish_data_sound:
  assumes "lawful (tiers_ops w)" and "keys_tell (hash_of w) (fnum_of w) good U" and "job_ok good U chain j"
    and "truthful_in w good U s" and "status r = 200 \<Longrightarrow> data_ok good chain j (data r)"
    and "finish_data w clk chain j r s = (d, s')"
  shows "truthful_in w good U s' \<and> (\<forall>v. d = Done v \<longrightarrow> status r = 200 \<longrightarrow> data_ok good chain j v)"
proof (cases "status r = 200")
  case False
  then show ?thesis using assms(4,6) by (auto simp: finish_data_def)
next
  case ok: True
  show ?thesis
  proof (cases j)
    case (Batch reqs cached)
    then show ?thesis using assms(4-6) ok by (auto simp: finish_data_def)
  next
    case (Single rq plan)
    show ?thesis
    proof (cases plan)
      case (Some p)
      then show ?thesis
        using assms(4,6) ok Single CompleteMulticall_answers [OF assms(1,4)]
        by (auto simp: finish_data_def data_ok_def split: prod.splits outcome.splits)
    next
      case None
      have a: "accepted good chain rq (data r)" using assms(5) ok Single None by (simp add: data_ok_def)
      have "(chain, rq) \<in> U" using assms(3) Single by (simp add: job_ok_def)
      note store = StoreResponse_answers [OF assms(1,4,2) this a]
      show ?thesis
        using assms(4,6) ok Single None a store
        by (auto simp: finish_data_def data_ok_def split: outcome.splits)
    qed
  qed
qed

text \<open>A response of status 200 carries what the job asked for.\<close>

definition response_ok :: "answers \<Rightarrow> string \<Rightarrow> job \<Rightarrow> http_response \<Rightarrow> bool" where
  "response_ok good chain j resp \<longleftrightarrow>
     (status_code resp = 200 \<longrightarrow> (\<exists>d. payload resp = Content d \<and> data_ok good chain j d))"

lemma error_status:
  "status_code (http_error m c) = c" "status_code (json_response c h v) = c" "status_code (batch_errors c rs m) = c"
  by (simp_all add: http_error_def json_response_def batch_errors_def)

lemma attempts_Answer:
  assumes "attempts w env chain inHdr body j n left prev st = (Answer resp, st')"
  shows "status_code resp = 502 \<or> status_code resp = 503"
  using assms
proof (induction left arbitrary: n prev st)
  case 0
  then show ?case by simp
next
  case (Suc left)
  have rec: "status_code resp = 502" if "receive w a chain j l k x t = (Answer resp, t')" for a l k x t t'
    using that by (auto simp: receive_def gives_up_reply_def error_status Let_def
        split: exchange.splits if_splits job.splits option.splits prod.splits)
  have once: "status_code resp = 502 \<or> status_code resp = 503" if "attempt_once w a chain inHdr body j l p t = (Answer resp, t')" for a l p t t'
    using that rec
    by (auto simp: attempt_once_def gives_up_reply_def error_status Let_def
        split: outcome.splits if_splits job.splits option.splits prod.splits)
  show ?case
    using Suc.prems Suc.IH once
    by (auto split: prod.splits attempted.splits)
qed

lemma run_job_sound:
  assumes "lawful (tiers_ops w)" and "keys_tell (hash_of w) (fnum_of w) good U" and "job_ok good U chain j"
    and "\<And>n. honest good chain body j (env n)"
    and "\<And>n t. truthful_in w good U (cstore t) \<Longrightarrow> truthful_in w good U (cstore (meanwhile (env n) t))"
    and "truthful_in w good U (cstore st)" and "run_job w env clk chain inHdr body j st = (o_resp, st')"
  shows "truthful_in w good U (cstore st') \<and> (\<forall>resp. o_resp = Some resp \<longrightarrow> response_ok good chain j resp)"
proof -
  let ?p = "\<lparr>bk = None, status = 0, hdrs = [], data = None\<rparr>"
  obtain y st1 where y: "attempts w env chain inHdr body j 1 (MaxAttempts w) ?p st = (y, st1)" by fastforce
  have sound: "truthful_in w good U (cstore st1)
      \<and> (\<forall>r. y = Leave r \<longrightarrow> status r = 200 \<longrightarrow> data_ok good chain j (data r)) \<and> (\<forall>r. y \<noteq> Again r)"
    using attempts_sound [OF assms(1-3) assms(4,5,6) _ y] by simp
  show ?thesis
  proof (cases y)
    case Crash
    then show ?thesis using assms(7) y sound by (auto simp: run_job_def)
  next
    case (Answer resp)
    then show ?thesis using assms(7) y sound attempts_Answer [of w env chain inHdr body j 1 "MaxAttempts w" ?p st resp st1]
      by (auto simp: run_job_def response_ok_def)
  next
    case (Again r)
    then show ?thesis using sound by blast
  next
    case (Leave r)
    obtain d s where d: "finish_data w clk chain j r (cstore st1) = (d, s)" by fastforce
    have f: "truthful_in w good U s \<and> (\<forall>v. d = Done v \<longrightarrow> status r = 200 \<longrightarrow> data_ok good chain j v)"
      using finish_data_sound [OF assms(1-3) _ _ d] sound Leave by blast
    then show ?thesis
      using assms(7) y Leave d
      by (auto simp: run_job_def response_ok_def upstream_reply_def Let_def split: outcome.splits if_splits)
  qed
qed

section \<open>The handler\<close>

text \<open>The requests of a body, the jobs they can become, and what a response of status 200 to them holds.\<close>

definition asked :: "raw \<Rightarrow> rpcReq set" where
  "asked body =
     (case body of
        Some (JArr vs) \<Rightarrow> (case decode_rpcReqs body of None \<Rightarrow> {} | Some reqs \<Rightarrow> set reqs)
      | _ \<Rightarrow> (case Option.bind body decode_rpcReq of None \<Rightarrow> {} | Some r \<Rightarrow> {r}))"

definition job_of :: "raw \<Rightarrow> job \<Rightarrow> bool" where
  "job_of body j \<longleftrightarrow>
     (case j of
        Batch reqs cached \<Rightarrow>
          (\<exists>vs. body = Some (JArr vs)) \<and> decode_rpcReqs body = Some reqs \<and> length cached = length reqs
      | Single r plan \<Rightarrow> (\<forall>vs. body \<noteq> Some (JArr vs)) \<and> Option.bind body decode_rpcReq = Some r)"

definition answers_body :: "answers \<Rightarrow> string \<Rightarrow> raw \<Rightarrow> http_response \<Rightarrow> bool" where
  "answers_body good chain body resp \<longleftrightarrow>
     (status_code resp = 200 \<longrightarrow>
        (if \<exists>vs. body = Some (JArr vs)
         then \<exists>reqs d. decode_rpcReqs body = Some reqs \<and> payload resp = Content d \<and> batch_data good chain reqs d
         else \<exists>r. Option.bind body decode_rpcReq = Some r
                \<and> (answered_whole r \<longrightarrow> (\<exists>d. payload resp = Content d \<and> accepted good chain r d))))"

lemma Lookup_answer:
  assumes "lawful ops" and "answer_relation good" and "truthful H f ops good U s" and "(chain, r) \<in> U"
    and "answered_whole r" and "plain_id r" and "Lookup H f ops clk chain (Method r) (Params r) (ID r) s = (Done v, s')"
  shows "accepted good chain r v"
proof -
  obtain body s1 where b: "Get ops (clk 0) (lookup_key H f chain (Method r) (Params r)) s = (Some body, s1)"
      "RewriteResponseID (as_response body) (ID r) = Done v"
    using Lookup_whole [OF assms(5,7)] by blast
  have "served ops (clk 0) (lookup_key H f chain (Method r) (Params r)) s body" using Get_sound [OF assms(1) b(1)] by simp
  from served_answer [OF assms(3,4) this] obtain x where x: "body = Response (Some x)" "good chain r x" by blast
  from rewrite_answer [OF assms(2) x(2) assms(6)] b(2) x(1) show ?thesis by (auto simp: as_response_def)
qed

lemma handle_single_sound:
  assumes "lawful (tiers_ops w)" and "answer_relation good" and "keys_tell (hash_of w) (fnum_of w) good U"
    and "\<And>n plan. honest good chain body (Single r plan) (env n)"
    and "\<And>n t. truthful_in w good U (cstore t) \<Longrightarrow> truthful_in w good U (cstore (meanwhile (env n) t))"
    and "(chain, r) \<in> U \<and> plain_id r" and "truthful_in w good U (cstore st)"
    and "handle_single w env clks chain inHdr body r st = (o_resp, st')"
  shows "truthful_in w good U (cstore st')
    \<and> (\<forall>resp. o_resp = Some resp \<longrightarrow> status_code resp = 200 \<longrightarrow> answered_whole r
          \<longrightarrow> (\<exists>d. payload resp = Content d \<and> accepted good chain r d))"
proof -
  obtain q s where q: "Lookup (hash_of w) (fnum_of w) (tiers_ops w) (clks 0) chain (Method r) (Params r) (ID r) (cstore st) = (q, s)"
    by fastforce
  have s: "truthful_in w good U s" using truthful_forgets [OF Lookup_forgets [OF assms(1) q] assms(7)] .
  show ?thesis
  proof (cases q)
    case Panic
    then show ?thesis using assms(8) q s by (auto simp: handle_single_def)
  next
    case (Done v)
    then have "accepted good chain r v" if "answered_whole r"
      using Lookup_answer [OF assms(1,2,7) _ that] assms(6) q by blast
    then show ?thesis using assms(8) q s Done by (auto simp: handle_single_def cache_hit_def json_response_def)
  next
    case (Fail u)
    obtain p s1 where p: "PlanMulticall (hash_of w) (tiers_ops w) (clks 1) chain (Method r) (Params r) (ID r) s = (p, s1)"
      by fastforce
    have s1: "truthful_in w good U s1" using truthful_forgets [OF PlanMulticall_forgets [OF assms(1) p] s] .
    have plain: "p = Fail ()" if "answered_whole r" using p by (simp add: PlanMulticall_whole [OF that])
    have job: "truthful_in w good U (cstore st') \<and> (\<forall>resp. o_resp = Some resp \<longrightarrow> response_ok good chain (Single r plan) resp)"
      if "run_job w env (clks 2) chain inHdr body (Single r plan) (st\<lparr>cstore := s1\<rparr>) = (o_resp, st')" for plan
      by (rule run_job_sound [OF assms(1,3) _ assms(4,5) _ that]) (simp_all add: job_ok_def assms(6) s1)
    show ?thesis
    proof (cases p)
      case Panic
      then show ?thesis using assms(8) q p Fail s1 by (auto simp: handle_single_def)
    next
      case (Done plan)
      then have "run_job w env (clks 2) chain inHdr body (Single r (Some plan)) (st\<lparr>cstore := s1\<rparr>) = (o_resp, st')"
        using assms(8) q p Fail by (simp add: handle_single_def)
      then show ?thesis using job plain Done by blast
    next
      case plan: (Fail u')
      then have "run_job w env (clks 2) chain inHdr body (Single r None) (st\<lparr>cstore := s1\<rparr>) = (o_resp, st')"
        using assms(8) q p Fail by (simp add: handle_single_def)
      from job [OF this] show ?thesis by (auto simp: response_ok_def data_ok_def)
    qed
  qed
qed

lemma handle_batch_sound:
  assumes "lawful (tiers_ops w)" and "answer_relation good" and "keys_tell (hash_of w) (fnum_of w) good U"
    and "\<And>n cached. length cached = length reqs \<Longrightarrow> honest good chain body (Batch reqs cached) (env n)"
    and "\<And>n t. truthful_in w good U (cstore t) \<Longrightarrow> truthful_in w good U (cstore (meanwhile (env n) t))"
    and "\<forall>r \<in> set reqs. (chain, r) \<in> U \<and> plain_id r" and "truthful_in w good U (cstore st)"
    and "handle_batch w env clks chain inHdr body reqs st = (o_resp, st')"
  shows "truthful_in w good U (cstore st')
    \<and> (\<forall>resp. o_resp = Some resp \<longrightarrow> status_code resp = 200 \<longrightarrow> (\<exists>d. payload resp = Content d \<and> batch_data good chain reqs d))"
proof -
  obtain cached s where l: "batch_lookup (hash_of w) (fnum_of w) (tiers_ops w) (clks 0) chain 0 reqs (cstore st) = (Done cached, s)"
      "only_forgets (tiers_ops w) (cstore st) s" "length cached = length reqs"
      "\<forall>k < length reqs. cached ! k \<noteq> None \<longrightarrow> accepted good chain (reqs ! k) (cached ! k)"
    using batch_lookup_sound [OF assms(1,2,7,6), of "clks 0"] by blast
  have s: "truthful_in w good U s" using truthful_forgets [OF l(2) assms(7)] .
  show ?thesis
  proof (cases "uncached_reqs reqs cached = []")
    case True
    then have full: "cached ! i \<noteq> None" if "i < length reqs" for i
      using that l(3) by (auto simp: uncached_reqs_def uncachedIndices_def filter_empty_conv)
    then have "batch_data good chain reqs (Some (JArr (map marshal_raw cached)))"
      unfolding batch_data_def using l(3,4) full by blast
    then show ?thesis using assms(8) l(1) True s by (auto simp: handle_batch_def cache_hit_def json_response_def)
  next
    case False
    have j: "job_ok good U chain (Batch reqs cached)" using False l(3,4) assms(6) by (simp add: job_ok_def)
    have "run_job w env (clks 2) chain inHdr body (Batch reqs cached) (st\<lparr>cstore := s\<rparr>) = (o_resp, st')"
      using assms(8) l(1) False by (simp add: handle_batch_def)
    from run_job_sound [OF assms(1,3) j assms(4) [OF l(3)] assms(5) _ this] s show ?thesis
      by (auto simp: response_ok_def data_ok_def)
  qed
qed

lemma handle_post_sound:
  assumes "lawful (tiers_ops w)" and "answer_relation good" and "keys_tell (hash_of w) (fnum_of w) good U"
    and "\<And>n j. job_of body j \<Longrightarrow> honest good chain body j (env n)"
    and "\<And>n t. truthful_in w good U (cstore t) \<Longrightarrow> truthful_in w good U (cstore (meanwhile (env n) t))"
    and "\<forall>r \<in> asked body. (chain, r) \<in> U \<and> plain_id r" and "truthful_in w good U (cstore st)"
    and "handle_post w env clks chain inHdr body st = (o_resp, st')"
  shows "truthful_in w good U (cstore st') \<and> (\<forall>resp. o_resp = Some resp \<longrightarrow> answers_body good chain body resp)"
proof -
  have err: "status_code (request_error c m) = 400" for c m by (simp add: request_error_def error_status)
  show ?thesis
  proof (cases "\<exists>vs. body = Some (JArr vs)")
    case True
    then obtain vs where b: "body = Some (JArr vs)" ..
    show ?thesis
    proof (cases "decode_rpcReqs body")
      case None
      then show ?thesis using assms(7,8) b by (auto simp: handle_post_def answers_body_def err)
    next
      case (Some reqs)
      show ?thesis
      proof (cases "reqs = []")
        case True
        then show ?thesis using assms(7,8) b Some by (auto simp: handle_post_def answers_body_def err)
      next
        case False
        then have h: "handle_batch w env clks chain inHdr body reqs st = (o_resp, st')"
          using assms(8) b Some by (cases reqs) (auto simp: handle_post_def)
        have "\<forall>r \<in> set reqs. (chain, r) \<in> U \<and> plain_id r" using assms(6) b Some by (simp add: asked_def)
        moreover have "honest good chain body (Batch reqs cached) (env n)" if "length cached = length reqs" for n cached
          using assms(4) that b Some by (simp add: job_of_def)
        ultimately show ?thesis
          using handle_batch_sound [OF assms(1-3) _ assms(5) _ assms(7) h] b Some by (auto simp: answers_body_def)
      qed
    qed
  next
    case False
    show ?thesis
    proof (cases "Option.bind body decode_rpcReq")
      case None
      then show ?thesis using assms(7,8) False
        by (auto simp: handle_post_def answers_body_def err split: option.splits json.splits)
    next
      case (Some r)
      then have h: "handle_single w env clks chain inHdr body r st = (o_resp, st')"
        using assms(8) False by (auto simp: handle_post_def split: option.splits json.splits)
      have "(chain, r) \<in> U \<and> plain_id r" using assms(6) False Some by (auto simp: asked_def split: option.splits json.splits)
      moreover have "honest good chain body (Single r plan) (env n)" for n plan
        using assms(4) False Some by (simp add: job_of_def)
      ultimately show ?thesis
        using handle_single_sound [OF assms(1-3) _ assms(5) _ assms(7) h] False Some by (auto simp: answers_body_def)
    qed
  qed
qed

section \<open>The router as a machine\<close>

text \<open>
  A step is one request with honest surroundings, in which other requests leave a truthful store
  truthful; what the nodes and the other parts of the program do is otherwise free.
\<close>

inductive router_step ::
  "('m, 'd, 'f, 'l, 'r) world \<Rightarrow> answers \<Rightarrow> (string \<times> rpcReq) set
     \<Rightarrow> ('m, 'd, 'f, 'l) router_state \<Rightarrow> ('m, 'd, 'f, 'l) router_state \<Rightarrow> bool" for w good U where
  "handle w env clks rq st = (o_resp, st') \<Longrightarrow>
   (\<forall>n j. job_of (req_body rq) j \<longrightarrow> honest good (chain_of (path rq)) (req_body rq) j (env n)) \<Longrightarrow>
   (\<forall>n t. truthful_in w good U (cstore t) \<longrightarrow> truthful_in w good U (cstore (meanwhile (env n) t))) \<Longrightarrow>
   (\<forall>r \<in> asked (req_body rq). (chain_of (path rq), r) \<in> U \<and> plain_id r) \<Longrightarrow>
   router_step w good U st st'"

definition empty_router :: "CacheConfig \<Rightarrow> 'm \<Rightarrow> 'd \<Rightarrow> 'f balancer \<Rightarrow> (nat \<Rightarrow> 'l) \<Rightarrow> ('m, 'd, 'f, 'l) router_state" where
  "empty_router c m d l lims =
     \<lparr>cstore = \<lparr>cfg = c, mem = Some m, db = Some d, track = empty_tracker\<rparr>, lb = l, limiters = lims, TotalReq = 0\<rparr>"

definition holds_nothing :: "('m, 'd) tiers \<Rightarrow> 'm \<Rightarrow> 'd \<Rightarrow> bool" where
  "holds_nothing ops m d \<longleftrightarrow> (\<forall>k. mem_peek ops k m = None \<and> db_get ops k d = None)"

lemma handle_sound:
  assumes "lawful (tiers_ops w)" and "answer_relation good" and "keys_tell (hash_of w) (fnum_of w) good U"
    and "\<forall>n j. job_of (req_body rq) j \<longrightarrow> honest good (chain_of (path rq)) (req_body rq) j (env n)"
    and "\<forall>n t. truthful_in w good U (cstore t) \<longrightarrow> truthful_in w good U (cstore (meanwhile (env n) t))"
    and "\<forall>r \<in> asked (req_body rq). (chain_of (path rq), r) \<in> U \<and> plain_id r" and "truthful_in w good U (cstore st)"
    and "handle w env clks rq st = (o_resp, st')"
  shows "truthful_in w good U (cstore st')
    \<and> (\<forall>resp. o_resp = Some resp \<longrightarrow> answers_body good (chain_of (path rq)) (req_body rq) resp)"
proof (cases "chain_of (path rq) = [] \<or> http_method rq \<noteq> ''POST''")
  case True
  then show ?thesis using assms(7,8) by (auto simp: handle_def Let_def answers_body_def error_status split: if_splits)
next
  case False
  then have "handle_post w env clks (chain_of (path rq)) (req_headers rq) (req_body rq) (st\<lparr>TotalReq := TotalReq st + 1\<rparr>)
      = (o_resp, st')" using assms(8) by (simp add: handle_def Let_def)
  from handle_post_sound [OF assms(1-3) _ _ assms(6) _ this] assms(4,5,7) show ?thesis by simp
qed

interpretation routing: invariant_machine "empty_router c m d l lims" "router_step w good U"
  "\<lambda>st. lawful (tiers_ops w) \<and> answer_relation good \<and> keys_tell (hash_of w) (fnum_of w) good U
     \<and> holds_nothing (tiers_ops w) m d \<longrightarrow> truthful_in w good U (cstore st)"
  for c m d l lims w good U
proof
  show "lawful (tiers_ops w) \<and> answer_relation good \<and> keys_tell (hash_of w) (fnum_of w) good U
      \<and> holds_nothing (tiers_ops w) m d \<longrightarrow> truthful_in w good U (cstore (empty_router c m d l lims))"
    by (auto simp: truthful_def all_entries_def holds_def holds_nothing_def empty_router_def)
next
  fix st st'
  assume inv: "lawful (tiers_ops w) \<and> answer_relation good \<and> keys_tell (hash_of w) (fnum_of w) good U
      \<and> holds_nothing (tiers_ops w) m d \<longrightarrow> truthful_in w good U (cstore st)"
    and step: "router_step w good U st st'"
  from step show "lawful (tiers_ops w) \<and> answer_relation good \<and> keys_tell (hash_of w) (fnum_of w) good U
      \<and> holds_nothing (tiers_ops w) m d \<longrightarrow> truthful_in w good U (cstore st')"
  proof (cases rule: router_step.cases)
    case (1 env clks rq o_resp)
    then show ?thesis using inv handle_sound by blast
  qed
qed


section \<open>Retries\<close>

text \<open>Why an attempt is made again: no backend, no reply, an error status that may pass, or a missing block.\<close>

definition to_repeat :: "reply \<Rightarrow> bool" where
  "to_repeat r \<longleftrightarrow>
     bk r = None \<or> status r = 0 \<or> isRetryableStatus (status r) \<or> status r = 200 \<and> BlockUnavailable (data r)"

text \<open>The replies of \<open>k\<close> attempts from \<open>n\<close> on, when each of them asked for another.\<close>

fun repeated ::
  "('m, 'd, 'f, 'l, 'r) world \<Rightarrow> (nat \<Rightarrow> ('m, 'd, 'f, 'l, 'r) surroundings) \<Rightarrow> string \<Rightarrow> headers \<Rightarrow> raw \<Rightarrow> job
     \<Rightarrow> nat \<Rightarrow> nat \<Rightarrow> reply \<Rightarrow> ('m, 'd, 'f, 'l) router_state \<Rightarrow> reply list option" where
  "repeated w env chain inHdr body j n 0 prev st = Some []"
| "repeated w env chain inHdr body j n (Suc k) prev st =
     (case attempt_once w (env n) chain inHdr body j False prev st of
        (Again r, st') \<Rightarrow> map_option (Cons r) (repeated w env chain inHdr body j (Suc n) k r st')
      | _ \<Rightarrow> None)"

text \<open>What the client should not see while an attempt is left.\<close>

definition failure :: "job \<Rightarrow> http_response \<Rightarrow> bool" where
  "failure j resp \<longleftrightarrow>
     isRetryableStatus (status_code resp)
     \<or> (\<exists>r d. j = Single r None \<and> status_code resp = 200 \<and> payload resp = Content d \<and> BlockUnavailable d)"

text \<open>What an attempt that is not the last leaves the loop with.\<close>

definition usable :: "job \<Rightarrow> reply \<Rightarrow> bool" where
  "usable j r \<longleftrightarrow>
     \<not> isRetryableStatus (status r) \<and> status r \<noteq> 0
     \<and> \<not> (\<not> is_batch j \<and> status r = 200 \<and> BlockUnavailable (data r))"

lemma receive_early:
  assumes "receive w a chain j False k x st = (y, st')" and "\<forall>hs d. x \<noteq> Replied 0 hs d"
  shows "(\<forall>resp. y \<noteq> Answer resp) \<and> (\<forall>r. y = Again r \<longrightarrow> to_repeat r) \<and> (\<forall>r. y = Leave r \<longrightarrow> usable j r)"
proof (cases x)
  case (Failed e)
  then show ?thesis using assms(1) by (auto simp: receive_def to_repeat_def)
next
  case (Replied c h d)
  then have "c \<noteq> 0" using assms(2) by auto
  then show ?thesis
    using assms(1) Replied
    by (auto simp: receive_def Let_def to_repeat_def usable_def is_batch_def
        split: if_splits option.splits job.splits prod.splits)
qed

lemma attempt_once_cases:
  assumes "attempt_once w a chain inHdr body j last_one prev st = (y, st')"
  obtains (none) "y = Crash \<or> (\<exists>e. y = Answer e \<and> last_one) \<or> (\<exists>r. y = Again r \<and> bk r = None)"
  | (exchange) k x t where "receive w a chain j last_one k x t = (y, st')"
      "\<And>hs d. x = Replied 0 hs d \<Longrightarrow> \<exists>url h b hs. client a url h b = Replied 0 hs d"
proof -
  obtain p l lims where pick: "PickAtLeast (floats w) (limits w) (fst (picks a)) (snd (picks a)) chain ''http'' (job_head j)
      (lb st, limiters st) = (p, l, lims)" by (metis prod_cases3)
  show ?thesis
  proof (cases "\<exists>i. p = Done i \<and> URL (pool l ! (members l chain ! i)) \<noteq> None")
    case False
    then show ?thesis
      using assms pick none by (cases p) (auto simp: attempt_once_def Let_def split: if_splits)
  next
    case True
    then obtain i url where i: "p = Done i" "URL (pool l ! (members l chain ! i)) = Some url" by blast
    let ?k = "members l chain ! i" and ?d = "sendTo (client a) url inHdr (job_body body j)"
    let ?x = "if BatchEnabled w \<and> \<not> has_plan j
           then processBatchRequest (batching a) ?d (is_batch j) (length (job_reqs j)) else ?d"
    have "receive w a chain j last_one ?k ?x (meanwhile a (st\<lparr>lb := l, limiters := lims\<rparr>)) = (y, st')"
      using assms pick i by (auto simp: attempt_once_def Let_def)
    moreover have "\<exists>url h b hs. client a url h b = Replied 0 hs d" if x: "?x = Replied 0 hs d" for hs d
    proof -
      have "processBatchRequest io e b n = Replied 0 hs d \<Longrightarrow> e = Replied 0 hs d" for io e b n
        by (auto simp: processBatchRequest_def json_reply_def split: if_splits option.splits)
      then have "?d = Replied 0 hs d" using x by (auto split: if_splits)
      then show ?thesis using sendTo_Replied by blast
    qed
    ultimately show ?thesis by (rule exchange)
  qed
qed

lemma attempt_once_early:
  assumes "attempt_once w a chain inHdr body j False prev st = (y, st')"
    and "\<forall>url h b hs d. client a url h b \<noteq> Replied 0 hs d"
  shows "(\<forall>resp. y \<noteq> Answer resp) \<and> (\<forall>r. y = Again r \<longrightarrow> to_repeat r) \<and> (\<forall>r. y = Leave r \<longrightarrow> usable j r)"
  using assms(1)
proof (cases rule: attempt_once_cases)
  case none
  then show ?thesis by (auto simp: to_repeat_def)
next
  case (exchange k x t)
  then show ?thesis using receive_early assms(2) by blast
qed

lemma attempts_failure:
  assumes "attempts w env chain inHdr body j n (Suc m) prev st = (y, st')"
    and "\<forall>n url h b hs d. client (env n) url h b \<noteq> Replied 0 hs d"
    and "(\<exists>resp. y = Answer resp) \<or> (\<exists>r. y = Leave r \<and> \<not> usable j r)"
  shows "\<exists>rs. repeated w env chain inHdr body j n m prev st = Some rs \<and> length rs = m \<and> (\<forall>r \<in> set rs. to_repeat r)"
  using assms(1)
proof (induction m arbitrary: n prev st)
  case 0
  then show ?case by simp
next
  case (Suc m)
  obtain z st1 where z: "attempt_once w (env n) chain inHdr body j False prev st = (z, st1)" by fastforce
  note early = attempt_once_early [OF z] assms(2)
  obtain r where r: "z = Again r" using Suc.prems z early assms(3) by (cases z) auto
  then have "attempts w env chain inHdr body j (Suc n) (Suc m) r st1 = (y, st')" using Suc.prems z by simp
  from Suc.IH [OF this] obtain rs where "repeated w env chain inHdr body j (Suc n) m r st1 = Some rs" "length rs = m"
      "\<forall>r \<in> set rs. to_repeat r" by blast
  then show ?case using z r early by simp
qed

text \<open>
  C12. A failure reaches the client only when every attempt has been used: when a job is answered with a
  status that may pass (an error of the server, a timeout, a rate limit), or a single request with a
  reply that says the block is not there, then each of the earlier attempts, as many as are configured
  but one, found no backend, no reply, such a status or such a reply.
\<close>

theorem failure_after_all_attempts:
  assumes "run_job w env clk chain inHdr body j st = (Some resp, st')" and "failure j resp" and "0 < MaxAttempts w"
    and "\<forall>n url h b hs d. client (env n) url h b \<noteq> Replied 0 hs d"
  shows "\<exists>rs. repeated w env chain inHdr body j 1 (MaxAttempts w - 1) \<lparr>bk = None, status = 0, hdrs = [], data = None\<rparr> st
      = Some rs
    \<and> length rs = MaxAttempts w - 1 \<and> (\<forall>r \<in> set rs. to_repeat r)"
proof -
  let ?p = "\<lparr>bk = None, status = 0, hdrs = [], data = None\<rparr>"
  obtain y st1 where y: "attempts w env chain inHdr body j 1 (MaxAttempts w) ?p st = (y, st1)" by fastforce
  obtain m where m: "MaxAttempts w = Suc m" using assms(3) by (cases "MaxAttempts w") auto
  have "\<not> usable j r" if leave: "y = Leave r" for r
  proof -
    obtain d s where d: "finish_data w clk chain j r (cstore st1) = (d, s)" by fastforce
    then obtain v where v: "d = Done v" "resp = upstream_reply (map_option ((!) (pool (lb st1))) (bk r)) r v"
      using assms(1) y leave by (auto simp: run_job_def split: outcome.splits)
    have code: "status_code resp = (if status r = 0 then 500 else status r)" "payload resp = Content v"
      by (simp_all add: v(2) upstream_reply_def Let_def)
    have "v = data r" if "j = Single rq None" for rq
      using d that v(1) by (auto simp: finish_data_def split: if_splits outcome.splits)
    then show ?thesis
      using assms(2) code by (auto simp: failure_def usable_def is_batch_def split: if_splits)
  qed
  then have "(\<exists>resp. y = Answer resp) \<or> (\<exists>r. y = Leave r \<and> \<not> usable j r)"
    using assms(1) y by (cases y) (auto simp: run_job_def)
  from attempts_failure [OF y [unfolded m] assms(4) this] m show ?thesis by simp
qed

section \<open>Samples\<close>

text \<open>One backend; its client answers, or fails.\<close>

definition lone_balancer :: "int balancer" where
  "lone_balancer = NewLoadBalancer sample_floats [(sample_backend ''a'' 0)\<lparr>Chain := ''1'', limiter := None\<rparr>] 1"

definition sample_world ::
  "((string \<times> entry) list, string \<Rightarrow> entry option, int, nat, unit) world" where
  "sample_world =
     \<lparr>hash_of = (\<lambda>b. b), fnum_of = (\<lambda>l. l), tiers_ops = sample_tiers 10, floats = sample_floats,
      limits = sample_limiter, MaxAttempts = 2, BatchEnabled = False, perf = sample_perf\<rparr>"

definition lone_picks :: "(nat, unit) pick_env" where
  "lone_picks =
     \<lparr>clock1 = int, clock2 = int, read1 = (!) (pool lone_balancer), read2 = (!) (pool lone_balancer), gone = None\<rparr>"

definition sample_surroundings ::
  "exchange \<Rightarrow> ((string \<times> entry) list, string \<Rightarrow> entry option, int, nat, unit) surroundings" where
  "sample_surroundings x =
     \<lparr>picks = (lone_picks, lone_picks), client = (\<lambda>url h b. x), batching = \<lparr>refuses = (\<lambda>k. True), received = (\<lambda>k. None)\<rparr>,
      elapsed = 5, clock_of = (\<lambda>k. 0), meanwhile = (\<lambda>t. t)\<rparr>"

definition sample_router :: "((string \<times> entry) list, string \<Rightarrow> entry option, int, nat) router_state" where
  "sample_router = empty_router sample_cache_cfg [] Map.empty lone_balancer (\<lambda>k. 1)"

definition balance_body :: raw where
  "balance_body = Some (JObj [(''jsonrpc'', JStr ''2.0''), (''id'', JNum ''1''), (''method'', JStr ''eth_getBalance''),
                              (''params'', pinned_balance)])"

lemma balance_body_decodes:
  "Option.bind balance_body decode_rpcReq = Some (balance_request ''1'')" "balance_body \<noteq> Some (JArr vs)"
  by (simp_all add: balance_body_def decode_rpcReq_def balance_request_def json_eval)


lemma lone_pick:
  "PickAtLeast sample_floats sample_limiter lone_picks lone_picks ''1'' ''http'' 0 (lone_balancer, lims)
     = (Done 0, lone_balancer, lims)"
  by (simp add: PickAtLeast_def pick_once_def select_ready_def Let_def upt_rec lone_picks_def lone_balancer_def
      NewLoadBalancer_def sample_backend_def candidate_def)

theorem failure_after_all_attempts_witness:
  "\<exists>rs. repeated sample_world (\<lambda>n. sample_surroundings (Failed ''refused'')) ''1'' [] None (Single gas_request None) 1
      (MaxAttempts sample_world - 1) \<lparr>bk = None, status = 0, hdrs = [], data = None\<rparr> sample_router = Some rs
    \<and> length rs = 1"
proof -
  let ?env = "\<lambda>n :: nat. sample_surroundings (Failed ''refused'')"
  have head: "job_head (Single gas_request None) = 0"
    by (simp add: job_head_def job_reqs_def RequiredHead_def blockParamIndex_def gas_request_def)
  have w: "floats sample_world = sample_floats" "limits sample_world = sample_limiter" "BatchEnabled sample_world = False"
      "MaxAttempts sample_world = 2" by (simp_all add: sample_world_def)
  have lone: "members lone_balancer ''1'' = [0]" "URL (pool lone_balancer ! 0) = Some ''http://node''"
    by (simp_all add: lone_balancer_def NewLoadBalancer_def sample_backend_def upt_rec Let_def)
  have once: "attempt_once sample_world (?env n) ''1'' [] None (Single gas_request None) l prev sample_router
      = (if l then Answer (http_error ''upstream error: refused'' 502)
         else Again \<lparr>bk = Some 0, status = 0, hdrs = [], data = None\<rparr>, sample_router)" for n l prev
    using lone
    by (simp add: attempt_once_def sample_surroundings_def head w lone_pick receive_def sendTo_def gives_up_reply_def
        sample_router_def empty_router_def Let_def)
  have "run_job sample_world ?env (\<lambda>k. 0) ''1'' [] None (Single gas_request None) sample_router
      = (Some (http_error ''upstream error: refused'' 502), sample_router)"
    by (simp add: run_job_def w once numeral_2_eq_2)
  from failure_after_all_attempts [OF this] show ?thesis
    by (auto simp: failure_def isRetryableStatus_def error_status w sample_surroundings_def)
qed

end
