(* ===== verification/Config.thy ===== *)
theory Config
  imports Balancer Batch_Machine
begin

text \<open>
  The configuration, \<open>internal/backend/config.go\<close>: the defaults of each section, the backends a provider
  gives rise to, and the checks that end the program. Reading the file and decoding TOML is a
  library's part: the sections come in decoded into their structs, with the zero value in every field
  the file leaves out. The tables of the providers come in as lists, in the order in which the loops meet
  them; Go leaves that order open. White space and commas are taken as ASCII.
\<close>

section \<open>Sections\<close>

record SabreConfig =
  Listen :: string
  SMaxAttempts :: int

record SubscriptionsConfig =
  MaxConnectionsPerBackend :: int
  MaxSubscriptionsPerConnection :: int
  PingInterval :: int
  PongWait :: int
  WriteWait :: int
  ReadWait :: int
  SubCompression :: bool
  MaxMessageSize :: int

record BatchConfig =
  BEnabled :: bool
  BMaxBatchSize :: int
  MaxBatchWaitTime :: int
  MaxBatchWorkers :: int
  MaxRetries :: int

record 'f Config =
  Sabre :: SabreConfig
  Health :: HealthConfig
  Performance :: "'f PerformanceConfig"
  SubscriptionsC :: SubscriptionsConfig
  BatchC :: BatchConfig
  MulticallC :: MulticallConfig
  CacheC :: CacheConfig
  Backends :: "backend list"
  BackendsCt :: "string \<rightharpoonup> nat"
  Processor :: "BatchProcessor option"
  HasWebSocket :: bool

definition reservedKeys :: "string list" where
  "reservedKeys =
     [''sabre'', ''health'', ''performance'', ''subscriptions'', ''batch'', ''multicall'', ''cache'', ''listen'',
      ''max_attempts'']"

text \<open>A number of milliseconds as a duration, in nanoseconds.\<close>

definition millis :: "int \<Rightarrow> int" where
  "millis n = wrap64 (n * 1000000)"

definition positive_or :: "int \<Rightarrow> int \<Rightarrow> int" where
  "positive_or d n = (if n \<le> 0 then d else n)"

definition millis_or :: "int \<Rightarrow> int \<Rightarrow> int" where
  "millis_or d n = (if n \<le> 0 then d else millis n)"

text \<open>\<open>listen\<close> and \<open>max_attempts\<close> may also stand at the top level, with the type the code asserts.\<close>

definition sabre_config :: "SabreConfig option \<Rightarrow> string option \<Rightarrow> int option \<Rightarrow> SabreConfig" where
  "sabre_config sec listen attempts =
     (let c0 = (case sec of None \<Rightarrow> \<lparr>Listen = [], SMaxAttempts = 0\<rparr> | Some c \<Rightarrow> c);
          c1 = (case listen of None \<Rightarrow> c0 | Some l \<Rightarrow> c0\<lparr>Listen := l\<rparr>);
          c2 = (case attempts of None \<Rightarrow> c1 | Some n \<Rightarrow> c1\<lparr>SMaxAttempts := n\<rparr>)
      in if Listen c2 = [] then c2\<lparr>Listen := '':3000''\<rparr> else c2)"

definition health_config :: "HealthConfig option \<Rightarrow> HealthConfig" where
  "health_config sec =
     (case sec of
        Some h \<Rightarrow>
          h\<lparr>TTLCheck := millis_or (millis 1000) (TTLCheck h), HTimeout := millis_or (millis 1500) (HTimeout h),
            FailsToDown := positive_or 2 (FailsToDown h), PassesToUp := positive_or 2 (PassesToUp h)\<rparr>
      | None \<Rightarrow>
          \<lparr>HEnabled = True, TTLCheck = millis 1000, HTimeout = millis 1500, FailsToDown = 2, PassesToUp = 2\<rparr>)"

definition default_gamma :: "'f float64 \<Rightarrow> 'f" where
  "default_gamma F = fl_div F (fl_of_int F 9) (fl_of_int F 10)"

definition performance_config :: "'f float64 \<Rightarrow> 'f PerformanceConfig option \<Rightarrow> 'f PerformanceConfig" where
  "performance_config F sec =
     (case sec of
        Some p \<Rightarrow>
          p\<lparr>PTimeout := millis_or (millis 2000) (PTimeout p), Samples := positive_or 100 (Samples p),
            Gamma := (if fl_le F (Gamma p) (fl_zero F) then default_gamma F else Gamma p),
            MaxIdleConns := positive_or 8192 (MaxIdleConns p),
            MaxIdleConnsPerHost := positive_or 2048 (MaxIdleConnsPerHost p),
            IdleConnTimeout := millis_or (millis 90000) (IdleConnTimeout p),
            MaxConcurrentStreams := positive_or 250 (MaxConcurrentStreams p),
            CompressionLevel := positive_or 6 (CompressionLevel p)\<rparr>
      | None \<Rightarrow>
          \<lparr>PTimeout = millis 2000, Samples = 100, Gamma = default_gamma F, MaxIdleConns = 8192,
           MaxIdleConnsPerHost = 2048, IdleConnTimeout = millis 90000, DisableKeepAlives = False,
           EnableHTTP2 = True, MaxConcurrentStreams = 250, PEnableCompression = True, CompressionLevel = 6\<rparr>)"

definition subscriptions_config :: "SubscriptionsConfig option \<Rightarrow> SubscriptionsConfig" where
  "subscriptions_config sec =
     (case sec of
        Some s \<Rightarrow>
          s\<lparr>MaxConnectionsPerBackend := positive_or 100 (MaxConnectionsPerBackend s),
            MaxSubscriptionsPerConnection := positive_or 50 (MaxSubscriptionsPerConnection s),
            PingInterval := millis_or (millis 30000) (PingInterval s), PongWait := millis_or (millis 10000) (PongWait s),
            WriteWait := millis_or (millis 10000) (WriteWait s), ReadWait := millis_or (millis 60000) (ReadWait s),
            MaxMessageSize := positive_or 1048576 (MaxMessageSize s)\<rparr>
      | None \<Rightarrow>
          \<lparr>MaxConnectionsPerBackend = 100, MaxSubscriptionsPerConnection = 50, PingInterval = millis 30000,
           PongWait = millis 10000, WriteWait = millis 10000, ReadWait = millis 60000, SubCompression = True,
           MaxMessageSize = 1048576\<rparr>)"

text \<open>The section with \<open>max_calls\<close> as the integer it is read as.\<close>

definition multicall_address :: string where
  "multicall_address = ''0xcA11bde05977b3631167028862bE2a173976CA11''"

definition multicall_config :: "(bool \<times> string \<times> int) option \<Rightarrow> MulticallConfig" where
  "multicall_config sec =
     (case sec of
        Some (en, addr, n) \<Rightarrow>
          \<lparr>McEnabled = en, MaxCalls = nat (positive_or 150 n),
           Address = (if addr = [] then multicall_address else addr)\<rparr>
      | None \<Rightarrow> \<lparr>McEnabled = False, MaxCalls = 150, Address = multicall_address\<rparr>)"

definition batch_config :: "BatchConfig option \<Rightarrow> BatchConfig" where
  "batch_config sec =
     (case sec of
        Some b \<Rightarrow>
          b\<lparr>BMaxBatchSize := positive_or 10 (BMaxBatchSize b), MaxBatchWaitTime := millis_or (millis 50) (MaxBatchWaitTime b),
            MaxBatchWorkers := positive_or 4 (MaxBatchWorkers b), MaxRetries := positive_or 2 (MaxRetries b)\<rparr>
      | None \<Rightarrow>
          \<lparr>BEnabled = False, BMaxBatchSize = 10, MaxBatchWaitTime = millis 50, MaxBatchWorkers = 4, MaxRetries = 2\<rparr>)"

definition batch_processor :: "BatchConfig \<Rightarrow> MulticallConfig \<Rightarrow> BatchProcessor option" where
  "batch_processor b mc =
     (if BEnabled b
      then Some \<lparr>maxBatchSize = nat (BMaxBatchSize b), maxWaitTime = MaxBatchWaitTime b, maxConcurrent = nat (MaxBatchWorkers b),
                 maxRetries = nat (MaxRetries b), multicall = mc\<rparr>
      else None)"

section \<open>The cache\<close>

text \<open>\<open>strings.Split\<close> on one character, and \<open>filepath.Clean\<close>.\<close>

fun split_on :: "char \<Rightarrow> string \<Rightarrow> string list" where
  "split_on c [] = [[]]"
| "split_on c (x # xs) =
     (if x = c then [] # split_on c xs
      else (case split_on c xs of [] \<Rightarrow> [[x]] | w # ws \<Rightarrow> (x # w) # ws))"

fun clean_parts :: "bool \<Rightarrow> string list \<Rightarrow> string list \<Rightarrow> string list" where
  "clean_parts rooted acc [] = rev acc"
| "clean_parts rooted acc (p # ps) =
     (if p = [] \<or> p = ''.'' then clean_parts rooted acc ps
      else if p = ''..'' then
        (case acc of
           a # as \<Rightarrow> if a = ''..'' then clean_parts rooted (p # acc) ps else clean_parts rooted as ps
         | [] \<Rightarrow> if rooted then clean_parts rooted [] ps else clean_parts rooted [p] ps)
      else clean_parts rooted (p # acc) ps)"

definition filepath_Clean :: "string \<Rightarrow> string" where
  "filepath_Clean p =
     (let rooted = (take 1 p = ''/'');
          body = join ''/'' (clean_parts rooted [] (split_on (CHR ''/'') p))
      in if rooted then ''/'' @ body else if body = [] then ''.'' else body)"

text \<open>
  The section, with the errors of removing and of making the directory. A failure ends the program with
  its message.
\<close>

definition cache_config ::
  "(string \<Rightarrow> string) \<Rightarrow> string option \<Rightarrow> string option \<Rightarrow> CacheConfig option \<Rightarrow> (string, CacheConfig) outcome" where
  "cache_config quoting remove_err mkdir_err sec =
     (case sec of
        None \<Rightarrow>
          Done \<lparr>CEnabled = False, Path = ''./.data/sabre'', MemEntries = 100000, TTLLatest = millis 250,
                TTLBlock = millis 86400000, Clean = False, BlockCacheBytes = 0, Chains = Map.empty\<rparr>
      | Some c0 \<Rightarrow>
          (let c = c0\<lparr>Path := (if Path c0 = [] then ''./.data/sabre'' else Path c0),
                      MemEntries := positive_or 100000 (MemEntries c0),
                      TTLLatest := millis_or (millis 250) (TTLLatest c0),
                      TTLBlock := millis_or (millis 86400000) (TTLBlock c0),
                      Chains := (\<lambda>ch. map_option (\<lambda>cc. cc\<lparr>ChainBlockTime := millis (ChainBlockTime cc)\<rparr>) (Chains c0 ch))\<rparr>;
               p = filepath_Clean (Path c)
           in if p = [] \<or> p = ''.'' \<or> p = ''/'' then Fail (''refusing to use unsafe cache path: '' @ quoting p)
              else
                (case (if Clean c then remove_err else None) of
                   Some e \<Rightarrow> Fail (''failed to clean cache path '' @ quoting p @ '': '' @ e)
                 | None \<Rightarrow>
                   (case mkdir_err of
                      Some e \<Rightarrow> Fail (''failed to create cache path '' @ quoting p @ '': '' @ e)
                    | None \<Rightarrow> Done c))))"

section \<open>Backends\<close>

text \<open>
  A top-level key of the file: its name, the limit of a provider, and the entries of its table (None when
  the value is no table); an entry is a table of a chain, which may fail to decode.
\<close>

record chain_entry =
  entry_URL :: string
  entry_WSURL :: string
  entry_limit :: "int option"

datatype entry_value = NotTable | BadTable | ChainTable chain_entry

record provider =
  prov_name :: string
  prov_limit :: "int option"
  prov_entries :: "(string \<times> entry_value) list option"

fun replace_all :: "string \<Rightarrow> string \<Rightarrow> string \<Rightarrow> string" where
  "replace_all old new [] = []"
| "replace_all old new (c # cs) =
     (if old \<noteq> [] \<and> has_prefix old (c # cs) then new @ replace_all old new (drop (length old - 1) cs)
      else c # replace_all old new cs)"

definition trim_space :: "string \<Rightarrow> string" where
  "trim_space = trim_set (\<lambda>c. code c = 32 \<or> 9 \<le> code c \<and> code c \<le> 13)"

definition chain_names :: "string \<Rightarrow> string list" where
  "chain_names k = filter (\<lambda>n. n \<noteq> []) (map trim_space (split_on (CHR '','') k))"

definition appendCount :: "(string \<rightharpoonup> nat) \<Rightarrow> string \<Rightarrow> (string \<rightharpoonup> nat)" where
  "appendCount m k = m(k \<mapsto> (case m k of None \<Rightarrow> 0 | Some n \<Rightarrow> n) + 1)"

text \<open>The rates of the limiters made so far; an entry has one of its own, or shares none.\<close>

definition entry_limiter :: "int option \<Rightarrow> int option \<Rightarrow> int list \<Rightarrow> nat option \<times> int list" where
  "entry_limiter own prov rates =
     (case own of
        Some n \<Rightarrow>
          if 0 < n then (Some (length rates), rates @ [n])
          else (case prov of Some m \<Rightarrow> if 0 < m then (Some (length rates), rates @ [m]) else (None, rates)
                | None \<Rightarrow> (None, rates))
      | None \<Rightarrow> (case prov of Some m \<Rightarrow> if 0 < m then (Some (length rates), rates @ [m]) else (None, rates)
                | None \<Rightarrow> (None, rates)))"

definition new_backend :: "string \<Rightarrow> string \<Rightarrow> string \<Rightarrow> string option \<Rightarrow> nat option \<Rightarrow> backend" where
  "new_backend prov chain u wsu lim =
     \<lparr>Name = prov, Chain = chain, URL = Some u, WSURL = wsu, limiter = lim, PerformanceLatencyHistory = [],
      PerformanceAvgLatency = 0, RequestCount = 0, HealthUp = False, HealthFailStreak = 0, HealthPassStreak = 0,
      HealthLastErr = [], Head = 0\<rparr>"

text \<open>The backends of one entry, one per name; \<open>url.Parse\<close> gives the error or the URL.\<close>

definition chain_backend ::
  "(string \<Rightarrow> string + string) \<Rightarrow> string \<Rightarrow> chain_entry \<Rightarrow> nat option \<Rightarrow> string \<Rightarrow> (string, backend) outcome" where
  "chain_backend parse_url prov e lim chain =
     (case parse_url (replace_all ''CHAIN_NAME'' chain (entry_URL e)) of
        Inl err \<Rightarrow> Fail (''parsing URL for backend '' @ prov @ '' chain '' @ chain @ '': '' @ err)
      | Inr u \<Rightarrow>
          (let ws = replace_all ''CHAIN_NAME'' chain (entry_WSURL e) in
           if ws = [] then Done (new_backend prov chain u None lim)
           else
             (case parse_url ws of
                Inl err \<Rightarrow> Fail (''parsing WS URL for backend '' @ prov @ '' chain '' @ chain @ '': '' @ err)
              | Inr wsu \<Rightarrow> Done (new_backend prov chain u (Some wsu) lim))))"

definition add_entry ::
  "(string \<Rightarrow> string + string) \<Rightarrow> provider \<Rightarrow> string \<times> entry_value \<Rightarrow> backend list \<times> int list
     \<Rightarrow> (string, backend list \<times> int list) outcome" where
  "add_entry parse_url p kv st =
     (case kv of (k, v) \<Rightarrow> case st of (bs, rates) \<Rightarrow>
        if k = ''max_per_second'' then Done (bs, rates)
        else
          (case v of
             NotTable \<Rightarrow> Done (bs, rates)
           | BadTable \<Rightarrow> Fail ''parsing chain config''
           | ChainTable e \<Rightarrow>
               if entry_URL e = []
               then Fail (''backend '' @ prov_name p @ '' chain '' @ k @ '' has no URL configured'')
               else
                 (case entry_limiter (entry_limit e) (prov_limit p) rates of (lim, rates1) \<Rightarrow>
                    obind (omap (chain_backend parse_url (prov_name p) e lim) (chain_names k))
                      (\<lambda>new. Done (bs @ new, rates1)))))"

fun oloop :: "('a \<Rightarrow> 's \<Rightarrow> ('e, 's) outcome) \<Rightarrow> 'a list \<Rightarrow> 's \<Rightarrow> ('e, 's) outcome" where
  "oloop f [] s = Done s"
| "oloop f (x # xs) s = obind (f x s) (oloop f xs)"

definition add_provider ::
  "(string \<Rightarrow> string + string) \<Rightarrow> provider \<Rightarrow> backend list \<times> int list \<Rightarrow> (string, backend list \<times> int list) outcome" where
  "add_provider parse_url p st =
     (if prov_name p \<in> set reservedKeys then Done st
      else (case prov_entries p of None \<Rightarrow> Done st | Some es \<Rightarrow> oloop (add_entry parse_url p) es st))"

section \<open>The checks\<close>

fun check_backends :: "CacheConfig \<Rightarrow> backend list \<Rightarrow> (string, bool) outcome" where
  "check_backends c [] = Done False"
| "check_backends c (b # bs) =
     (if (CEnabled c \<or> WSURL b \<noteq> None) \<and> ReorgDepth c (Chain b) = 0
      then Fail (''chain '' @ Chain b @ '' declares no reorg depth: set max_reorg_depth under [cache.chains.''
                 @ Chain b @ '']'')
      else if WSURL b = None then check_backends c bs
      else if BlockTime c (Chain b) \<le> 0
      then Fail (''chain '' @ Chain b @ '' has a websocket backend but no block time: set block_time_ms under [cache.chains.''
                 @ Chain b @ '']'')
      else obind (check_backends c bs) (\<lambda>x. Done True))"

record 'f config_file =
  tables :: "provider list"
  sec_sabre :: "SabreConfig option"
  top_listen :: "string option"
  top_attempts :: "int option"
  sec_health :: "HealthConfig option"
  sec_performance :: "'f PerformanceConfig option"
  sec_subscriptions :: "SubscriptionsConfig option"
  sec_multicall :: "(bool \<times> string \<times> int) option"
  sec_batch :: "BatchConfig option"
  sec_cache :: "CacheConfig option"
  remove_error :: "string option"
  mkdir_error :: "string option"

text \<open>The configuration put together.\<close>

definition assemble ::
  "'f float64 \<Rightarrow> 'f config_file \<Rightarrow> CacheConfig \<Rightarrow> backend list \<Rightarrow> bool \<Rightarrow> 'f Config" where
  "assemble F f cc bs ws =
     (let sc = sabre_config (sec_sabre f) (top_listen f) (top_attempts f);
          mc = multicall_config (sec_multicall f);
          bc = batch_config (sec_batch f)
      in \<lparr>Sabre = sc\<lparr>SMaxAttempts := (if SMaxAttempts sc \<le> 0 then int (length bs) else SMaxAttempts sc)\<rparr>,
          Health = health_config (sec_health f), Performance = performance_config F (sec_performance f),
          SubscriptionsC = subscriptions_config (sec_subscriptions f), BatchC = bc, MulticallC = mc, CacheC = cc,
          Backends = map (\<lambda>b. b\<lparr>HealthUp := True, HealthPassStreak := 0, HealthFailStreak := 0\<rparr>) bs,
          BackendsCt = foldl appendCount Map.empty (map Chain bs),
          Processor = batch_processor bc mc, HasWebSocket = ws\<rparr>)"

text \<open>The configuration, with the rates of the limiters. A failure ends the program.\<close>

definition ParseConfig ::
  "'f float64 \<Rightarrow> (string \<Rightarrow> string + string) \<Rightarrow> (string \<Rightarrow> string) \<Rightarrow> 'f config_file
     \<Rightarrow> (string, 'f Config \<times> int list) outcome" where
  "ParseConfig F parse_url quoting f =
     (if list_all (\<lambda>t. prov_name t \<in> set reservedKeys) (tables f)
      then Fail ''no backends configured, at least one backend must be defined''
      else
        obind (cache_config quoting (remove_error f) (mkdir_error f) (sec_cache f)) (\<lambda>cc.
        obind (oloop (add_provider parse_url) (tables f) ([], [])) (\<lambda>(bs, rates).
          if bs = [] then Fail ''no backends configured''
          else obind (check_backends cc bs) (\<lambda>ws. Done (assemble F f cc bs ws, rates)))))"

section \<open>What a configuration guarantees\<close>

text \<open>The facts the other components take from the configuration.\<close>

definition limits_ok :: "'f Config \<Rightarrow> bool" where
  "limits_ok c \<longleftrightarrow>
     Listen (Sabre c) \<noteq> [] \<and> 0 < SMaxAttempts (Sabre c)
     \<and> 0 < FailsToDown (Health c) \<and> 0 < PassesToUp (Health c) \<and> 1 \<le> Samples (Performance c)
     \<and> 0 < MaxSubscriptionsPerConnection (SubscriptionsC c) \<and> 0 < MaxConnectionsPerBackend (SubscriptionsC c)
     \<and> 0 < MaxCalls (MulticallC c) \<and> Address (MulticallC c) \<noteq> []
     \<and> (\<forall>bp. Processor c = Some bp \<longrightarrow> 0 < maxBatchSize bp \<and> 0 < maxConcurrent bp \<and> multicall bp = MulticallC c)
     \<and> 0 < MaxRetries (BatchC c) \<and> 0 < MemEntries (CacheC c)
     \<and> filepath_Clean (Path (CacheC c)) \<notin> {[], ''.'', ''/''}"

definition backend_ok :: "CacheConfig \<Rightarrow> int list \<Rightarrow> backend \<Rightarrow> bool" where
  "backend_ok cc rates b \<longleftrightarrow>
     URL b \<noteq> None \<and> Chain b \<noteq> [] \<and> HealthUp b \<and> HealthFailStreak b = 0 \<and> HealthPassStreak b = 0
     \<and> PerformanceLatencyHistory b = [] \<and> Head b = 0 \<and> (\<forall>l. limiter b = Some l \<longrightarrow> l < length rates)
     \<and> (CEnabled cc \<or> WSURL b \<noteq> None \<longrightarrow> ReorgDepth cc (Chain b) \<noteq> 0)
     \<and> (WSURL b \<noteq> None \<longrightarrow> 0 < BlockTime cc (Chain b))"

definition config_ok :: "'f Config \<Rightarrow> int list \<Rightarrow> bool" where
  "config_ok c rates \<longleftrightarrow>
     limits_ok c \<and> Backends c \<noteq> [] \<and> (\<forall>b \<in> set (Backends c). backend_ok (CacheC c) rates b) \<and> (\<forall>r \<in> set rates. 0 < r)
     \<and> (HasWebSocket c \<longleftrightarrow> (\<exists>b \<in> set (Backends c). WSURL b \<noteq> None))
     \<and> (\<forall>ch. BackendsCt c ch = (let n = length (filter (\<lambda>b. Chain b = ch) (Backends c)) in
            if n = 0 then None else Some n))"

lemma positive_or_pos [simp]: "0 < d \<Longrightarrow> 0 < positive_or d n"
  by (simp add: positive_or_def)

lemma oloop_invariant:
  assumes "oloop f xs s = Done t" and "I s"
    and "\<And>x s t. x \<in> set xs \<Longrightarrow> I s \<Longrightarrow> f x s = Done t \<Longrightarrow> I t"
  shows "I t"
  using assms
proof (induction xs arbitrary: s)
  case Nil
  then show ?case by simp
next
  case (Cons x xs)
  then obtain u where u: "f x s = Done u" "oloop f xs u = Done t" by (auto elim: obind_DoneE)
  have "I u" using Cons.prems(2,3) u(1) by (meson list.set_intros(1))
  then show ?case using Cons.IH [OF u(2)] Cons.prems(3) by (meson list.set_intros(2))
qed

lemma omap_Done_all: "omap f xs = Done ys \<Longrightarrow> (\<And>x y. x \<in> set xs \<Longrightarrow> f x = Done y \<Longrightarrow> P y) \<Longrightarrow> \<forall>y \<in> set ys. P y"
  by (induction xs arbitrary: ys) (fastforce elim!: obind_DoneE)+

text \<open>The backends made so far and the rates of their limiters.\<close>

definition fresh_backends :: "backend list \<times> int list \<Rightarrow> bool" where
  "fresh_backends st \<longleftrightarrow>
     (case st of (bs, rates) \<Rightarrow>
        (\<forall>b \<in> set bs. URL b \<noteq> None \<and> Chain b \<noteq> [] \<and> PerformanceLatencyHistory b = [] \<and> Head b = 0
          \<and> (\<forall>l. limiter b = Some l \<longrightarrow> l < length rates))
        \<and> (\<forall>r \<in> set rates. 0 < r))"

lemma entry_limiter_ok:
  assumes "entry_limiter own prov rates = (lim, rates1)" and "\<forall>r \<in> set rates. 0 < r"
  shows "(\<forall>l. lim = Some l \<longrightarrow> l < length rates1) \<and> length rates \<le> length rates1 \<and> (\<forall>r \<in> set rates1. 0 < r)"
  using assms by (auto simp: entry_limiter_def split: option.splits if_splits)

lemma chain_backend_ok:
  assumes "chain_backend parse_url prov e lim chain = Done b"
  shows "URL b \<noteq> None \<and> Chain b = chain \<and> PerformanceLatencyHistory b = [] \<and> Head b = 0 \<and> limiter b = lim"
  using assms by (auto simp: chain_backend_def new_backend_def Let_def split: sum.splits if_splits)

lemma add_entry_ok:
  assumes "add_entry parse_url p kv st = Done st'" and "fresh_backends st"
  shows "fresh_backends st'"
proof -
  obtain k v bs rates where d: "kv = (k, v)" "st = (bs, rates)" by (cases kv; cases st)
  show ?thesis
  proof (cases "st' = st")
    case True
    then show ?thesis using assms(2) by simp
  next
    case False
    then obtain e where e: "v = ChainTable e" "k \<noteq> ''max_per_second''" "entry_URL e \<noteq> []"
      using assms(1) d by (cases v) (auto simp: add_entry_def split: if_splits)
    obtain lim rates1 where l: "entry_limiter (entry_limit e) (prov_limit p) rates = (lim, rates1)" by fastforce
    obtain new where n: "omap (chain_backend parse_url (prov_name p) e lim) (chain_names k) = Done new" "st' = (bs @ new, rates1)"
      using assms(1) d e l by (auto simp: add_entry_def elim: obind_DoneE)
    have r: "\<forall>r \<in> set rates. 0 < r" using assms(2) d by (simp add: fresh_backends_def)
    note lim = entry_limiter_ok [OF l r]
    have "\<forall>b \<in> set new. URL b \<noteq> None \<and> Chain b \<noteq> [] \<and> PerformanceLatencyHistory b = [] \<and> Head b = 0
          \<and> (\<forall>l. limiter b = Some l \<longrightarrow> l < length rates1)"
    proof (rule omap_Done_all [OF n(1)])
      fix x y
      assume x: "x \<in> set (chain_names k)" and y: "chain_backend parse_url (prov_name p) e lim x = Done y"
      have "x \<noteq> []" using x by (simp add: chain_names_def)
      then show "URL y \<noteq> None \<and> Chain y \<noteq> [] \<and> PerformanceLatencyHistory y = [] \<and> Head y = 0
          \<and> (\<forall>l. limiter y = Some l \<longrightarrow> l < length rates1)"
        using chain_backend_ok [OF y] lim by simp
    qed
    then show ?thesis using assms(2) d n(2) lim by (fastforce simp: fresh_backends_def)
  qed
qed

lemma add_provider_ok:
  assumes "add_provider parse_url p st = Done st'" and "fresh_backends st"
  shows "fresh_backends st'"
proof (cases "prov_name p \<in> set reservedKeys \<or> prov_entries p = None")
  case True
  then show ?thesis using assms by (auto simp: add_provider_def split: if_splits)
next
  case False
  then obtain es where "oloop (add_entry parse_url p) es st = Done st'"
    using assms(1) by (auto simp: add_provider_def)
  then show ?thesis using oloop_invariant [of _ es st st' fresh_backends] add_entry_ok assms(2) by blast
qed

lemma check_backends_ok:
  assumes "check_backends c bs = Done ws"
  shows "(\<forall>b \<in> set bs. (CEnabled c \<or> WSURL b \<noteq> None \<longrightarrow> ReorgDepth c (Chain b) \<noteq> 0)
          \<and> (WSURL b \<noteq> None \<longrightarrow> 0 < BlockTime c (Chain b)))
    \<and> (ws \<longleftrightarrow> (\<exists>b \<in> set bs. WSURL b \<noteq> None))"
  using assms
proof (induction bs arbitrary: ws)
  case Nil
  then show ?case by simp
next
  case (Cons b bs)
  then show ?case by (cases "check_backends c bs") (auto split: if_splits)
qed

lemma counts:
  "foldl appendCount m xs k
     = (let n = length (filter (\<lambda>x. x = k) xs) in if n = 0 then m k else Some ((case m k of None \<Rightarrow> 0 | Some i \<Rightarrow> i) + n))"
  by (induction xs arbitrary: m) (auto simp: appendCount_def Let_def)

lemma cache_config_ok:
  assumes "cache_config q re me sec = Done c"
  shows "0 < MemEntries c \<and> filepath_Clean (Path c) \<notin> {[], ''.'', ''/''}"
proof -
  have "filepath_Clean ''./.data/sabre'' = ''.data/sabre''" by (simp add: filepath_Clean_def)
  then show ?thesis using assms by (auto simp: cache_config_def Let_def split: option.splits if_splits)
qed

lemma sections_ok:
  "0 < FailsToDown (health_config h) \<and> 0 < PassesToUp (health_config h)"
  "1 \<le> Samples (performance_config F p)"
  "0 < MaxSubscriptionsPerConnection (subscriptions_config s) \<and> 0 < MaxConnectionsPerBackend (subscriptions_config s)"
  "0 < MaxCalls (multicall_config m) \<and> Address (multicall_config m) \<noteq> []"
  "0 < MaxRetries (batch_config b)" "0 < BMaxBatchSize (batch_config b) \<and> 0 < MaxBatchWorkers (batch_config b)"
  "Listen (sabre_config a l n) \<noteq> []"
  by (auto simp: health_config_def performance_config_def subscriptions_config_def multicall_config_def batch_config_def
      sabre_config_def positive_or_def multicall_address_def Let_def split: option.splits)

lemma sabre_update:
  "Listen (sc\<lparr>SMaxAttempts := n\<rparr>) = Listen sc" "SMaxAttempts (sc\<lparr>SMaxAttempts := n\<rparr>) = n"
  by simp_all

lemma assemble_simps:
  "Sabre (assemble F f cc bs ws) = (sabre_config (sec_sabre f) (top_listen f) (top_attempts f))
     \<lparr>SMaxAttempts := (if SMaxAttempts (sabre_config (sec_sabre f) (top_listen f) (top_attempts f)) \<le> 0 then int (length bs)
                       else SMaxAttempts (sabre_config (sec_sabre f) (top_listen f) (top_attempts f)))\<rparr>"
  "Health (assemble F f cc bs ws) = health_config (sec_health f)"
  "Performance (assemble F f cc bs ws) = performance_config F (sec_performance f)"
  "SubscriptionsC (assemble F f cc bs ws) = subscriptions_config (sec_subscriptions f)"
  "BatchC (assemble F f cc bs ws) = batch_config (sec_batch f)"
  "MulticallC (assemble F f cc bs ws) = multicall_config (sec_multicall f)"
  "CacheC (assemble F f cc bs ws) = cc"
  "Backends (assemble F f cc bs ws) = map (\<lambda>b. b\<lparr>HealthUp := True, HealthPassStreak := 0, HealthFailStreak := 0\<rparr>) bs"
  "BackendsCt (assemble F f cc bs ws) = foldl appendCount Map.empty (map Chain bs)"
  "Processor (assemble F f cc bs ws) = batch_processor (batch_config (sec_batch f)) (multicall_config (sec_multicall f))"
  "HasWebSocket (assemble F f cc bs ws) = ws"
  by (simp_all add: assemble_def Let_def)

lemma config_accepted:
  assumes "ParseConfig F parse_url quoting f = Done (c, rates)"
  shows "config_ok c rates"
proof -
  obtain cc bs ws where cc: "cache_config quoting (remove_error f) (mkdir_error f) (sec_cache f) = Done cc"
    and bs: "oloop (add_provider parse_url) (tables f) ([], []) = Done (bs, rates)" and ne: "bs \<noteq> []"
    and ws: "check_backends cc bs = Done ws" and c: "c = assemble F f cc bs ws"
    using assms by (auto simp: ParseConfig_def split: if_splits elim!: obind_DoneE)
  let ?sc = "sabre_config (sec_sabre f) (top_listen f) (top_attempts f)"
  let ?bs = "map (\<lambda>b. b\<lparr>HealthUp := True, HealthPassStreak := 0, HealthFailStreak := 0\<rparr>) bs"
  have fresh: "fresh_backends (bs, rates)"
  proof (rule oloop_invariant [OF bs])
    show "fresh_backends ([], [])" by (simp add: fresh_backends_def)
    show "fresh_backends t" if "fresh_backends s" "add_provider parse_url x s = Done t" for x s t
      by (rule add_provider_ok [OF that(2,1)])
  qed
  have count: "foldl appendCount Map.empty (map Chain bs) ch
      = (let n = length (filter (\<lambda>b. Chain b = ch) ?bs) in if n = 0 then None else Some n)" for ch
    unfolding counts Let_def filter_map length_map o_def by simp
  have proc: "0 < maxBatchSize bp \<and> 0 < maxConcurrent bp \<and> multicall bp = multicall_config (sec_multicall f)"
    if "batch_processor (batch_config (sec_batch f)) (multicall_config (sec_multicall f)) = Some bp" for bp
    using that sections_ok(6) [of "sec_batch f"] by (auto simp: batch_processor_def split: if_splits)
  have att: "0 < (if SMaxAttempts ?sc \<le> 0 then int (length bs) else SMaxAttempts ?sc)" using ne by simp
  have backends: "\<forall>b \<in> set ?bs. backend_ok cc rates b"
    using fresh check_backends_ok [OF ws] by (auto simp: fresh_backends_def backend_ok_def)
  have ws': "ws \<longleftrightarrow> (\<exists>b \<in> set ?bs. WSURL b \<noteq> None)" using check_backends_ok [OF ws] by auto
  have positive: "\<forall>r \<in> set rates. 0 < r" using fresh by (simp add: fresh_backends_def)
  have "limits_ok c"
    unfolding limits_ok_def c assemble_simps
    by (intro conjI allI impI) (simp_all only: sections_ok cache_config_ok [OF cc] sabre_update proc att not_False_eq_True simp_thms)
  then show ?thesis
    unfolding config_ok_def c assemble_simps using backends ws' count ne positive
    by (intro conjI) (assumption | simp only: map_is_Nil_conv not_False_eq_True simp_thms)+
qed

text \<open>
  C38. A configuration that is accepted has what the other components rely on: thresholds, sizes and numbers of
  attempts, workers, samples and calls are positive; every backend has a URL and a chain and starts healthy
  with clean streaks and no history; a chain that is cached or streamed has a reorganization depth, and a
  streamed one a block time; limiters exist and have positive rates; the cache directory is neither the
  root nor the working directory; and the count of backends per chain is exact.
\<close>

theorem ParseConfig_ok:
  assumes "ParseConfig F parse_url quoting f = Done (c, rates)"
  shows "config_ok c rates"
  by (rule config_accepted [OF assms])

text \<open>A node with an endpoint for two chains, one of them streamed, cached and batched.\<close>

definition sample_file :: "int config_file" where
  "sample_file =
     \<lparr>tables = [\<lparr>prov_name = ''cache'', prov_limit = None, prov_entries = None\<rparr>,
                \<lparr>prov_name = ''reth'', prov_limit = Some 40,
                 prov_entries = Some [(''1'', ChainTable \<lparr>entry_URL = ''http://CHAIN_NAME'', entry_WSURL = ''ws://node'', entry_limit = None\<rparr>)]\<rparr>],
      sec_sabre = None, top_listen = None, top_attempts = None, sec_health = None, sec_performance = None,
      sec_subscriptions = None, sec_multicall = Some (True, [], 0),
      sec_batch = Some \<lparr>BEnabled = True, BMaxBatchSize = 0, MaxBatchWaitTime = 0, MaxBatchWorkers = 0, MaxRetries = 0\<rparr>,
      sec_cache = Some (sample_cache_cfg\<lparr>Chains := [''1'' \<mapsto> \<lparr>MaxReorgDepth = 64, ChainBlockTime = 12000\<rparr>]\<rparr>),
      remove_error = None, mkdir_error = None\<rparr>"

definition sample_endpoint :: backend where
  "sample_endpoint = new_backend ''reth'' ''1'' ''http://1'' (Some ''ws://node'') (Some 0)"

lemma sample_file_config:
  "\<exists>cc. ParseConfig sample_floats Inr (\<lambda>s. s) sample_file = Done (assemble sample_floats sample_file cc [sample_endpoint] True, [40])"
proof -
  have p: "add_provider Inr \<lparr>prov_name = ''reth'', prov_limit = Some 40,
          prov_entries = Some [(''1'', ChainTable \<lparr>entry_URL = ''http://CHAIN_NAME'', entry_WSURL = ''ws://node'', entry_limit = None\<rparr>)]\<rparr> ([], [])
      = Done ([sample_endpoint], [40])"
    by (simp add: add_provider_def reservedKeys_def add_entry_def chain_names_def trim_space_def trim_set_def code_def
        entry_limiter_def chain_backend_def has_prefix_def sample_endpoint_def)
  have "add_provider Inr \<lparr>prov_name = ''cache'', prov_limit = None, prov_entries = None\<rparr> st = Done st" for st
    by (simp add: add_provider_def)
  then have o: "oloop (add_provider Inr) (tables sample_file) ([], [])
      = Done ([sample_endpoint], [40])"
    using p by (simp add: sample_file_def)
  have "filepath_Clean ''cache'' = ''cache''" by (simp add: filepath_Clean_def)
  then obtain cc where cc: "cache_config (\<lambda>s. s) None None (sec_cache sample_file) = Done cc"
      "Chains cc ''1'' = Some \<lparr>MaxReorgDepth = 64, ChainBlockTime = millis 12000\<rparr>"
    by (simp add: cache_config_def sample_file_def sample_cache_cfg_def Let_def)
  have "ReorgDepth cc ''1'' = 64" "0 < BlockTime cc ''1''"
    using cc(2) by (simp_all add: ReorgDepth_def BlockTime_def chain_config_def millis_def wrap64_def)
  then have ws: "check_backends cc [sample_endpoint] = Done True"
    by (simp add: sample_endpoint_def new_backend_def)
  have named: "\<not> list_all (\<lambda>t. prov_name t \<in> set reservedKeys) (tables sample_file)"
    by (simp add: sample_file_def reservedKeys_def)
  have none: "remove_error sample_file = None" "mkdir_error sample_file = None" by (simp_all add: sample_file_def)
  show ?thesis unfolding ParseConfig_def none using named cc(1) o ws by (intro exI [of _ cc]) simp
qed

lemma sample_file_parsed:
  "\<exists>c. ParseConfig sample_floats Inr (\<lambda>s. s) sample_file = Done (c, [40])
     \<and> map URL (Backends c) = [Some ''http://1''] \<and> HasWebSocket c \<and> SMaxAttempts (Sabre c) = 1
     \<and> map Chain (Backends c) = [''1'']"
proof -
  obtain cc where p: "ParseConfig sample_floats Inr (\<lambda>s. s) sample_file = Done (assemble sample_floats sample_file cc [sample_endpoint] True, [40])"
    using sample_file_config by blast
  have "sabre_config (sec_sabre sample_file) (top_listen sample_file) (top_attempts sample_file) = \<lparr>Listen = '':3000'', SMaxAttempts = 0\<rparr>"
    by (simp add: sabre_config_def sample_file_def)
  then show ?thesis
    using p by (intro exI [of _ "assemble sample_floats sample_file cc [sample_endpoint] True"])
      (simp add: assemble_def Let_def sample_endpoint_def new_backend_def)
qed

theorem ParseConfig_ok_witness:
  "\<exists>c. ParseConfig sample_floats Inr (\<lambda>s. s) sample_file = Done (c, [40]) \<and> config_ok c [40]
     \<and> map URL (Backends c) = [Some ''http://1''] \<and> HasWebSocket c \<and> SMaxAttempts (Sabre c) = 1"
proof -
  obtain c where c: "ParseConfig sample_floats Inr (\<lambda>s. s) sample_file = Done (c, [40])"
      "map URL (Backends c) = [Some ''http://1''] \<and> HasWebSocket c \<and> SMaxAttempts (Sabre c) = 1"
    using sample_file_parsed by (elim exE conjE) (rule that; simp)
  show ?thesis using c ParseConfig_ok [OF c(1)] by (intro exI [of _ c] conjI) simp_all
qed

end
