(* ===== verification/Stream.thy ===== *)
theory Stream
  imports Config Cache_Keys Router "HOL-Library.AList"
begin

text \<open>
  WebSocket subscriptions, \<open>internal/backend/stream.go\<close>: the clients, the connections to the backends, the
  subscriptions they share, and the heads delivered to subscribers. Objects the code shares by pointer
  (clients, connections, subscriptions) live in heaps and are named by their position. A handler is a
  series of sections, each of which is atomic: it holds one lock, or none. The next sections of a
  goroutine are a list of tasks, so that goroutines interleave between any two sections.

  Maps are association lists with distinct keys, in the order in which an iteration meets them. Messages
  are kept as the values \<open>Message\<close> holds; the sockets and the encoding are libraries, and what is handed to
  \<open>WriteJSON\<close> is recorded with the object it is written to.
\<close>

section \<open>Data\<close>

record Message =
  MJSONRPC :: string
  MID :: raw
  MMethod :: string
  MParams :: raw
  MResult :: raw
  MError :: raw

text \<open>A backend is named by its position in the configuration.\<close>

record Subscription =
  SubID :: string
  SubMethod :: string
  SubParams :: raw
  ClientID :: string
  SubBackend :: nat
  Created :: int

record WebsocketConnection =
  WBackend :: nat
  WSubs :: "(string \<times> nat) list"
  Wclosed :: bool
  lastPing :: int
  lastPong :: int
  messageCount :: u64
  Wsent :: "Message list"

record WebsocketClient =
  CID :: string
  CChain :: string
  CSubs :: "(string \<times> nat) list"
  Cclosed :: bool
  lastActivity :: int
  Csent :: "Message list"

record stream =
  connections :: "(string \<times> nat list) list"
  subscriptions :: "(string \<times> nat) list"
  wclients :: "(string \<times> nat) list"
  delivered :: "(string \<times> (u64 \<times> string) list) list"
  lastBlockTime :: "(string \<times> int) list"
  sub_heap :: "Subscription list"
  conn_heap :: "WebsocketConnection list"
  client_heap :: "WebsocketClient list"

definition NewStream :: stream where
  "NewStream =
     \<lparr>connections = [], subscriptions = [], wclients = [], delivered = [], lastBlockTime = [],
      sub_heap = [], conn_heap = [], client_heap = []\<rparr>"

text \<open>
  What a section meets outside: the clock, whether dialing succeeds, whether the \<open>n\<close>-th write of the section
  to a backend succeeds, and the backend the balancer picks.
\<close>

record ws_env =
  env_now :: int
  env_dial :: bool
  env_write :: "nat \<Rightarrow> bool"
  env_pick :: "(string, nat) outcome"

abbreviation the_sub :: "stream \<Rightarrow> nat \<Rightarrow> Subscription" where
  "the_sub st s \<equiv> sub_heap st ! s"

abbreviation the_conn :: "stream \<Rightarrow> nat \<Rightarrow> WebsocketConnection" where
  "the_conn st k \<equiv> conn_heap st ! k"

abbreviation the_client :: "stream \<Rightarrow> nat \<Rightarrow> WebsocketClient" where
  "the_client st r \<equiv> client_heap st ! r"

definition upd_sub :: "nat \<Rightarrow> (Subscription \<Rightarrow> Subscription) \<Rightarrow> stream \<Rightarrow> stream" where
  "upd_sub s f st = st\<lparr>sub_heap := (sub_heap st)[s := f (the_sub st s)]\<rparr>"

definition upd_conn :: "nat \<Rightarrow> (WebsocketConnection \<Rightarrow> WebsocketConnection) \<Rightarrow> stream \<Rightarrow> stream" where
  "upd_conn k f st = st\<lparr>conn_heap := (conn_heap st)[k := f (the_conn st k)]\<rparr>"

definition upd_client :: "nat \<Rightarrow> (WebsocketClient \<Rightarrow> WebsocketClient) \<Rightarrow> stream \<Rightarrow> stream" where
  "upd_client r f st = st\<lparr>client_heap := (client_heap st)[r := f (the_client st r)]\<rparr>"

text \<open>A key of a map that is not there reads as the zero value.\<close>

definition conns_at :: "string \<Rightarrow> stream \<Rightarrow> nat list" where
  "conns_at u st = (case map_of (connections st) u of None \<Rightarrow> [] | Some ks \<Rightarrow> ks)"

text \<open>\<open>WSURL.String()\<close> panics on a nil URL.\<close>

definition wsurl :: "'f Config \<Rightarrow> nat \<Rightarrow> string option" where
  "wsurl co b = WSURL (Backends co ! b)"

definition with_url :: "'f Config \<Rightarrow> nat \<Rightarrow> (string \<Rightarrow> (string, 'a) outcome) \<Rightarrow> (string, 'a) outcome" where
  "with_url co b f = (case wsurl co b of None \<Rightarrow> Panic | Some u \<Rightarrow> f u)"

section \<open>The tasks of goroutines\<close>

text \<open>What a connection is wanted for.\<close>

datatype purpose =
    ForSubscription nat Message nat
  | ForCall nat Message
  | ForReset nat "nat list"

text \<open>The sections of the handlers, in the order of the code.\<close>

datatype (plugins only: code) task =
    Dispatching nat Message
  | Subscribing nat Message
  | Recording nat Message nat
  | Registering nat Message nat nat
  | Connecting purpose nat
  | Choosing purpose nat "nat list"
  | Dialing purpose nat
  | Attaching nat Message nat nat
  | SendingSubscription nat Message nat nat
  | Unsubscribing nat Message
  | Deregistering nat Message string nat
  | FindingConnection nat Message string nat
  | Detaching nat Message string nat
  | SendingUnsubscription nat Message nat
  | Confirming nat Message
  | Calling nat Message
  | SendingCall nat Message nat
  | Ponging nat
  | Pinging nat
  | Receiving nat Message
  | Forwarding nat Message
  | Routing nat Message
  | Writing nat nat Message
  | Announced string nat json
  | Marking string u64 string json
  | Notifying string json
  | Closing nat
  | Unlisting nat
  | Dropping nat
  | Leaving string
  | Hanging nat
  | DroppingClient nat
  | CheckingSanity
  | Resetting nat
  | PickingNew nat "nat list"
  | FindingOld nat "nat list" nat nat
  | Migrating nat "nat list" nat nat "nat option"
  | Sweeping nat
  | Untracking nat
  | ClosingClients
  | ClosingConnections

type_synonym section_result = "(string, stream \<times> task list) outcome"

section \<open>Messages to clients and backends\<close>

definition sendToClient :: "nat \<Rightarrow> Message \<Rightarrow> stream \<Rightarrow> stream" where
  "sendToClient r m st = upd_client r (\<lambda>c. c\<lparr>Csent := Csent c @ [m]\<rparr>) st"

definition error_message :: "raw \<Rightarrow> int \<Rightarrow> string \<Rightarrow> Message" where
  "error_message i c msg =
     \<lparr>MJSONRPC = ''2.0'', MID = i, MMethod = [], MParams = None, MResult = None, MError = Some (rpc_error c msg)\<rparr>"

definition result_message :: "raw \<Rightarrow> json \<Rightarrow> Message" where
  "result_message i v =
     \<lparr>MJSONRPC = ''2.0'', MID = i, MMethod = [], MParams = None, MResult = Some v, MError = None\<rparr>"

definition sendError :: "nat \<Rightarrow> raw \<Rightarrow> int \<Rightarrow> string \<Rightarrow> stream \<Rightarrow> stream" where
  "sendError r i c msg st = sendToClient r (error_message i c msg) st"

text \<open>To the registered clients that qualify, in the order of the iteration.\<close>

definition broadcast :: "(stream \<Rightarrow> nat \<Rightarrow> bool) \<Rightarrow> Message \<Rightarrow> stream \<Rightarrow> stream" where
  "broadcast Q m st = fold (\<lambda>(i, r) st. if Q st r then sendToClient r m st else st) (wclients st) st"

text \<open>\<open>sendMessage\<close>: whether it succeeds, and the connection with the message written.\<close>

definition sendMessage :: "bool \<Rightarrow> nat \<Rightarrow> Message \<Rightarrow> stream \<Rightarrow> bool \<times> stream" where
  "sendMessage ok k m st = (ok, if ok then upd_conn k (\<lambda>w. w\<lparr>Wsent := Wsent w @ [m]\<rparr>) st else st)"

definition request_message :: "raw \<Rightarrow> string \<Rightarrow> raw \<Rightarrow> Message" where
  "request_message i meth ps =
     \<lparr>MJSONRPC = ''2.0'', MID = i, MMethod = meth, MParams = ps, MResult = None, MError = None\<rparr>"

section \<open>Requests of clients\<close>

definition generateClientID :: "int \<Rightarrow> string" where
  "generateClientID t = ''client_'' @ int_text t"

definition generateSubscriptionID :: "int \<Rightarrow> string" where
  "generateSubscriptionID t = ''0x'' @ nat_hex (nat t)"

text \<open>\<open>HandleWebSocket\<close> up to its loop: None when the path names no chain.\<close>

definition HandleWebSocket :: "int \<Rightarrow> string \<Rightarrow> stream \<Rightarrow> stream option" where
  "HandleWebSocket t p st =
     (let chain = chain_of p; cid = generateClientID t in
      if chain = [] then None
      else Some (st\<lparr>client_heap := client_heap st @
                      [\<lparr>CID = cid, CChain = chain, CSubs = [], Cclosed = False, lastActivity = t, Csent = []\<rparr>],
                    wclients := AList.update cid (length (client_heap st)) (wclients st)\<rparr>))"

definition handleClientMessage :: "int \<Rightarrow> nat \<Rightarrow> Message \<Rightarrow> stream \<Rightarrow> section_result" where
  "handleClientMessage t r m st =
     (let st1 = upd_client r (\<lambda>c. c\<lparr>lastActivity := t\<rparr>) st in
      if MMethod m = ''eth_subscribe'' then Done (st1, [Subscribing r m])
      else if MMethod m = ''eth_unsubscribe'' then Done (st1, [Unsubscribing r m])
      else Done (st1, [Calling r m]))"

definition handleSubscribe :: "(string, nat) outcome \<Rightarrow> nat \<Rightarrow> Message \<Rightarrow> stream \<Rightarrow> section_result" where
  "handleSubscribe picked r m st =
     (case picked of
        Panic \<Rightarrow> Panic
      | Fail e \<Rightarrow> Done (sendError r (MID m) (- 32603) ''No available backends'' st, [])
      | Done b \<Rightarrow> Done (st, [Recording r m b]))"

definition record_subscription :: "int \<Rightarrow> nat \<Rightarrow> Message \<Rightarrow> nat \<Rightarrow> stream \<Rightarrow> section_result" where
  "record_subscription t r m b st =
     (let sid = generateSubscriptionID t; s = length (sub_heap st);
          sub = \<lparr>SubID = sid, SubMethod = MMethod m, SubParams = MParams m, ClientID = CID (the_client st r),
                 SubBackend = b, Created = t\<rparr>
      in Done (upd_client r (\<lambda>c. c\<lparr>CSubs := AList.update sid s (CSubs c)\<rparr>) (st\<lparr>sub_heap := sub_heap st @ [sub]\<rparr>),
               [Registering r m b s]))"

definition register_subscription :: "nat \<Rightarrow> Message \<Rightarrow> nat \<Rightarrow> nat \<Rightarrow> stream \<Rightarrow> section_result" where
  "register_subscription r m b s st =
     Done (st\<lparr>subscriptions := AList.update (SubID (the_sub st s)) s (subscriptions st)\<rparr>,
           [Connecting (ForSubscription r m s) b])"

definition attach_subscription :: "nat \<Rightarrow> Message \<Rightarrow> nat \<Rightarrow> nat \<Rightarrow> stream \<Rightarrow> section_result" where
  "attach_subscription r m s k st =
     Done (upd_conn k (\<lambda>w. w\<lparr>WSubs := AList.update (SubID (the_sub st s)) s (WSubs w)\<rparr>) st,
           [SendingSubscription r m s k])"

definition send_subscription :: "(nat \<Rightarrow> bool) \<Rightarrow> nat \<Rightarrow> Message \<Rightarrow> nat \<Rightarrow> nat \<Rightarrow> stream \<Rightarrow> section_result" where
  "send_subscription ok r m s k st =
     (case sendMessage (ok 0) k m st of (sent, st1) \<Rightarrow>
        if sent then Done (sendToClient r (result_message (MID m) (jstring (SubID (the_sub st s)))) st1, [])
        else Done (sendError r (MID m) (- 32603) ''Failed to subscribe'' st1, []))"

definition handleUnsubscribe :: "nat \<Rightarrow> Message \<Rightarrow> stream \<Rightarrow> section_result" where
  "handleUnsubscribe r m st =
     (case as_string (MParams m) of
        None \<Rightarrow> Done (sendError r (MID m) (- 32602) ''Invalid parameters'' st, [])
      | Some sid \<Rightarrow>
          (let st1 = upd_client r (\<lambda>c. c\<lparr>CSubs := AList.delete sid (CSubs c)\<rparr>) st in
           case map_of (CSubs (the_client st r)) sid of
             None \<Rightarrow> Done (sendError r (MID m) (- 32602) ''Subscription not found'' st1, [])
           | Some s \<Rightarrow> Done (st1, [Deregistering r m sid s])))"

definition deregister_subscription :: "nat \<Rightarrow> Message \<Rightarrow> string \<Rightarrow> nat \<Rightarrow> stream \<Rightarrow> section_result" where
  "deregister_subscription r m sid s st =
     Done (st\<lparr>subscriptions := AList.delete sid (subscriptions st)\<rparr>, [FindingConnection r m sid s])"

text \<open>\<open>getWSConnection\<close>\<close>

definition getWSConnection :: "string \<Rightarrow> nat \<Rightarrow> stream \<Rightarrow> nat option" where
  "getWSConnection u b st = find (\<lambda>k. WBackend (the_conn st k) = b \<and> \<not> Wclosed (the_conn st k)) (conns_at u st)"

definition find_connection :: "'f Config \<Rightarrow> nat \<Rightarrow> Message \<Rightarrow> string \<Rightarrow> nat \<Rightarrow> stream \<Rightarrow> section_result" where
  "find_connection co r m sid s st =
     with_url co (SubBackend (the_sub st s)) (\<lambda>u.
       case getWSConnection u (SubBackend (the_sub st s)) st of
         None \<Rightarrow> Done (st, [Confirming r m])
       | Some k \<Rightarrow> Done (st, [Detaching r m sid k]))"

definition detach_subscription :: "nat \<Rightarrow> Message \<Rightarrow> string \<Rightarrow> nat \<Rightarrow> stream \<Rightarrow> section_result" where
  "detach_subscription r m sid k st =
     Done (upd_conn k (\<lambda>w. w\<lparr>WSubs := AList.delete sid (WSubs w)\<rparr>) st, [SendingUnsubscription r m k])"

definition send_unsubscription :: "(nat \<Rightarrow> bool) \<Rightarrow> nat \<Rightarrow> Message \<Rightarrow> nat \<Rightarrow> stream \<Rightarrow> section_result" where
  "send_unsubscription ok r m k st =
     Done (snd (sendMessage (ok 0) k (request_message (MID m) ''eth_unsubscribe'' (MParams m)) st), [Confirming r m])"

definition confirm_unsubscription :: "nat \<Rightarrow> Message \<Rightarrow> stream \<Rightarrow> section_result" where
  "confirm_unsubscription r m st = Done (sendToClient r (result_message (MID m) (JBool True)) st, [])"

definition handleRPCCall :: "(string, nat) outcome \<Rightarrow> nat \<Rightarrow> Message \<Rightarrow> stream \<Rightarrow> section_result" where
  "handleRPCCall picked r m st =
     (case picked of
        Panic \<Rightarrow> Panic
      | Fail e \<Rightarrow> Done (sendError r (MID m) (- 32603) ''No available backends'' st, [])
      | Done b \<Rightarrow> Done (st, [Connecting (ForCall r m) b]))"

definition send_call :: "(nat \<Rightarrow> bool) \<Rightarrow> nat \<Rightarrow> Message \<Rightarrow> nat \<Rightarrow> stream \<Rightarrow> section_result" where
  "send_call ok r m k st =
     (case sendMessage (ok 0) k m st of (sent, st1) \<Rightarrow>
        if sent then Done (st1, []) else Done (sendError r (MID m) (- 32603) ''Failed to send request'' st1, []))"

section \<open>Connections to backends\<close>

text \<open>What follows when there is a connection, and when there is none.\<close>

primrec connected :: "purpose \<Rightarrow> nat \<Rightarrow> nat \<Rightarrow> task" where
  "connected (ForSubscription r m s) b k = Attaching r m s k"
| "connected (ForCall r m) b k = SendingCall r m k"
| "connected (ForReset old subs) b k = FindingOld old subs b k"

primrec not_connected :: "purpose \<Rightarrow> stream \<Rightarrow> stream" where
  "not_connected (ForSubscription r m s) st = sendError r (MID m) (- 32603) ''Failed to connect to backend'' st"
| "not_connected (ForCall r m) st = sendError r (MID m) (- 32603) ''Failed to connect to backend'' st"
| "not_connected (ForReset old subs) st = st"

text \<open>The list of connections is read under the lock; choosing one reads the connections without it.\<close>

definition getOrCreateWSConnection :: "'f Config \<Rightarrow> purpose \<Rightarrow> nat \<Rightarrow> stream \<Rightarrow> section_result" where
  "getOrCreateWSConnection co p b st = with_url co b (\<lambda>u. Done (st, [Choosing p b (conns_at u st)]))"

fun least_loaded :: "stream \<Rightarrow> int \<Rightarrow> nat option \<Rightarrow> nat list \<Rightarrow> nat option" where
  "least_loaded st least best [] = best"
| "least_loaded st least best (k # ks) =
     (if \<not> Wclosed (the_conn st k) \<and> int (length (WSubs (the_conn st k))) < least
      then least_loaded st (int (length (WSubs (the_conn st k)))) (Some k) ks
      else least_loaded st least best ks)"

definition choose_connection :: "'f Config \<Rightarrow> purpose \<Rightarrow> nat \<Rightarrow> nat list \<Rightarrow> stream \<Rightarrow> section_result" where
  "choose_connection co p b snap st =
     (case find (\<lambda>k. \<not> Wclosed (the_conn st k)
               \<and> int (length (WSubs (the_conn st k))) < MaxSubscriptionsPerConnection (SubscriptionsC co)) snap of
        Some k \<Rightarrow> Done (st, [connected p b k])
      | None \<Rightarrow>
          if int (length snap) < MaxConnectionsPerBackend (SubscriptionsC co) then Done (st, [Dialing p b])
          else
            (case least_loaded st (2 ^ 63 - 1) None snap of
               Some k \<Rightarrow> Done (st, [connected p b k])
             | None \<Rightarrow> Done (not_connected p st, [])))"

definition createWSConnection :: "'f Config \<Rightarrow> ws_env \<Rightarrow> purpose \<Rightarrow> nat \<Rightarrow> stream \<Rightarrow> section_result" where
  "createWSConnection co env p b st =
     with_url co b (\<lambda>u.
       if env_dial env then
         (let k = length (conn_heap st);
              w = \<lparr>WBackend = b, WSubs = [], Wclosed = False, lastPing = env_now env, lastPong = env_now env,
                   messageCount = 0, Wsent = []\<rparr>
          in Done (st\<lparr>conn_heap := conn_heap st @ [w],
                      connections := AList.update u (conns_at u st @ [k]) (connections st)\<rparr>,
                   [connected p b k]))
       else Done (not_connected p st, []))"

text \<open>One tick of the loop that pings, and the handler of pongs.\<close>

definition pingPongLoop :: "'f Config \<Rightarrow> ws_env \<Rightarrow> nat \<Rightarrow> stream \<Rightarrow> section_result" where
  "pingPongLoop co env k st =
     (let w = the_conn st k; ping = PingInterval (SubscriptionsC co) \<le> env_now env - lastPing w in
      if Wclosed w then Done (st, [])
      else if ping \<and> \<not> env_write env 0 then Done (st, [Closing k])
      else
        (let st1 = (if ping then upd_conn k (\<lambda>w. w\<lparr>lastPing := env_now env\<rparr>) st else st) in
         if PongWait (SubscriptionsC co) < env_now env - lastPong w then Done (st1, [Closing k])
         else Done (st1, [])))"

definition pong_received :: "int \<Rightarrow> nat \<Rightarrow> stream \<Rightarrow> section_result" where
  "pong_received t k st = Done (upd_conn k (\<lambda>w. w\<lparr>lastPong := t\<rparr>) st, [])"

definition handleBackendMessages :: "nat \<Rightarrow> Message \<Rightarrow> stream \<Rightarrow> section_result" where
  "handleBackendMessages k m st =
     Done (upd_conn k (\<lambda>w. w\<lparr>messageCount := messageCount w + 1\<rparr>) st, [Forwarding k m])"

definition closeWSConnection :: "nat \<Rightarrow> stream \<Rightarrow> section_result" where
  "closeWSConnection k st =
     (if Wclosed (the_conn st k) then Done (st, [])
      else Done (upd_conn k (\<lambda>w. w\<lparr>Wclosed := True\<rparr>) st, [Unlisting k, Dropping k]))"

definition unlist_connection :: "'f Config \<Rightarrow> nat \<Rightarrow> stream \<Rightarrow> section_result" where
  "unlist_connection co k st =
     with_url co (WBackend (the_conn st k)) (\<lambda>u.
       Done (st\<lparr>connections := AList.update u (remove1 k (conns_at u st)) (connections st)\<rparr>, []))"

definition drop_subscriptions :: "(string \<times> nat) list \<Rightarrow> stream \<Rightarrow> stream" where
  "drop_subscriptions ids st = st\<lparr>subscriptions := filter (\<lambda>x. fst x \<notin> fst ` set ids) (subscriptions st)\<rparr>"

definition removeClient :: "string \<Rightarrow> stream \<Rightarrow> section_result" where
  "removeClient cid st =
     (let st1 = st\<lparr>wclients := AList.delete cid (wclients st)\<rparr> in
      case map_of (wclients st) cid of None \<Rightarrow> Done (st1, []) | Some r \<Rightarrow> Done (st1, [Hanging r, DroppingClient r]))"

definition Shutdown_clients :: "stream \<Rightarrow> section_result" where
  "Shutdown_clients st =
     Done (fold (\<lambda>(i, r). upd_client r (\<lambda>c. c\<lparr>Cclosed := True\<rparr>)) (wclients st) st, [ClosingConnections])"

definition Shutdown_connections :: "stream \<Rightarrow> section_result" where
  "Shutdown_connections st =
     Done (fold (\<lambda>k. upd_conn k (\<lambda>w. w\<lparr>Wclosed := True\<rparr>)) (concat (map snd (connections st))) st, [])"

section \<open>Messages of backends\<close>

text \<open>Whether the parameters of a subscription start with the given kind.\<close>

definition subscribed_to :: "string \<Rightarrow> Subscription \<Rightarrow> bool" where
  "subscribed_to kind sub \<longleftrightarrow>
     SubMethod sub = ''eth_subscribe'' \<and>
     (case as_any_slice (SubParams sub) of Some (JStr l # ps) \<Rightarrow> unquote l = Some kind | _ \<Rightarrow> False)"

text \<open>\<open>fnum\<close> prints a number the way \<open>json.Marshal\<close> prints the \<open>float64\<close> it was read as.\<close>

definition forwardBackendMessage :: "'f Config \<Rightarrow> (string \<Rightarrow> string) \<Rightarrow> nat \<Rightarrow> Message \<Rightarrow> stream \<Rightarrow> section_result" where
  "forwardBackendMessage co fnum k m st =
     (if MMethod m = ''eth_subscription'' then
        (case as_any_slice (MParams m) of
           Some (JStr l # ps) \<Rightarrow>
             (case unquote l of
                None \<Rightarrow> Done (st, [])
              | Some sid \<Rightarrow>
                (case map_of (WSubs (the_conn st k)) sid of
                   None \<Rightarrow> Done (st, [])
                 | Some s \<Rightarrow>
                     if ps \<noteq> [] \<and> subscribed_to ''newHeads'' (the_sub st s)
                     then Done (st, [Announced (Chain (Backends co ! WBackend (the_conn st k))) (WBackend (the_conn st k))
                                       (canonical fnum (List.hd ps))])
                     else Done (st, [Routing s m])))
         | _ \<Rightarrow> Done (st, []))
      else
        Done (broadcast (\<lambda>st r. \<not> Cclosed (the_client st r)) m st, []))"

definition route_message :: "nat \<Rightarrow> Message \<Rightarrow> stream \<Rightarrow> section_result" where
  "route_message s m st =
     (case map_of (wclients st) (ClientID (the_sub st s)) of
        None \<Rightarrow> Done (st, [])
      | Some r \<Rightarrow> Done (st, [Writing r s m]))"

definition write_message :: "nat \<Rightarrow> Message \<Rightarrow> stream \<Rightarrow> section_result" where
  "write_message r m st = Done (if Cclosed (the_client st r) then st else sendToClient r m st, [])"

section \<open>Heads\<close>

definition backend_key :: "string \<Rightarrow> string \<Rightarrow> string" where
  "backend_key chain u = chain @ '':'' @ u"

definition handleBlockNotification ::
  "'f Config \<Rightarrow> int \<Rightarrow> string \<Rightarrow> nat \<Rightarrow> json \<Rightarrow> stream \<Rightarrow> section_result" where
  "handleBlockNotification co t chain b blockData st =
     (case ExtractBlockInfo (Some blockData) of (num, hash) \<Rightarrow>
        if num = 0 \<or> hash = [] then Done (st, [])
        else
          with_url co b (\<lambda>u.
            Done (st\<lparr>lastBlockTime := AList.update (backend_key chain u) t (lastBlockTime st)\<rparr>,
                  [Marking chain num hash blockData])))"

definition heights_of :: "string \<Rightarrow> stream \<Rightarrow> (u64 \<times> string) list" where
  "heights_of chain st = (case map_of (delivered st) chain of None \<Rightarrow> [] | Some hs \<Rightarrow> hs)"

text \<open>The header as news or not, and the heights remembered after it.\<close>

definition mark_height :: "u64 \<Rightarrow> u64 \<Rightarrow> string \<Rightarrow> (u64 \<times> string) list \<Rightarrow> bool \<times> (u64 \<times> string) list" where
  "mark_height depth num hash heights =
     (if (case map_of heights num of None \<Rightarrow> [] | Some h \<Rightarrow> h) = hash then (False, heights)
      else
        (let hs = AList.update num hash heights in
         if depth < of_nat (length hs) \<and> depth < num
         then (True, filter (\<lambda>x. \<not> fst x < num - depth) hs) else (True, hs)))"

definition markDelivered :: "'f Config \<Rightarrow> string \<Rightarrow> u64 \<Rightarrow> string \<Rightarrow> stream \<Rightarrow> bool \<times> stream" where
  "markDelivered co chain num hash st =
     (case mark_height (ReorgDepth (CacheC co) chain) num hash (heights_of chain st) of (news, hs) \<Rightarrow>
        (news, st\<lparr>delivered := AList.update chain hs (delivered st)\<rparr>))"

definition mark_block :: "'f Config \<Rightarrow> string \<Rightarrow> u64 \<Rightarrow> string \<Rightarrow> json \<Rightarrow> stream \<Rightarrow> section_result" where
  "mark_block co chain num hash blockData st =
     (case markDelivered co chain num hash st of (news, st1) \<Rightarrow>
        Done (st1, if news then [Notifying chain blockData] else []))"

definition notification :: "json \<Rightarrow> Message" where
  "notification blockData =
     \<lparr>MJSONRPC = ''2.0'', MID = None, MMethod = ''eth_subscription'',
      MParams = Some (JArr [JStr ''newHeads'', blockData]), MResult = None, MError = None\<rparr>"

definition wants_heads :: "string \<Rightarrow> stream \<Rightarrow> nat \<Rightarrow> bool" where
  "wants_heads chain st r \<longleftrightarrow>
     CChain (the_client st r) = chain
     \<and> list_ex (\<lambda>x. subscribed_to ''newHeads'' (the_sub st (snd x))) (CSubs (the_client st r))"

definition notifyBlockSubscribers :: "string \<Rightarrow> json \<Rightarrow> stream \<Rightarrow> section_result" where
  "notifyBlockSubscribers chain blockData st =
     Done (broadcast (wants_heads chain) (notification blockData) st, [])"

section \<open>Stale backends\<close>

definition sanityInterval :: "'f Config \<Rightarrow> int" where
  "sanityInterval co =
     foldl (\<lambda>interval b.
              if WSURL b = None then interval
              else (let bt = BlockTime (CacheC co) (Chain b) in
                    if 0 < bt \<and> (interval = 0 \<or> bt < interval) then bt else interval)) 0 (Backends co)"

definition staleAfter :: "'f Config \<Rightarrow> string \<Rightarrow> int" where
  "staleAfter co chain = wrap64 (2 * BlockTime (CacheC co) chain)"

definition hasActiveBlockSubscriptions :: "'f Config \<Rightarrow> nat \<Rightarrow> stream \<Rightarrow> bool" where
  "hasActiveBlockSubscriptions co b st =
     list_ex (\<lambda>x. wsurl co (SubBackend (the_sub st (snd x))) = wsurl co b
                  \<and> (subscribed_to ''newHeads'' (the_sub st (snd x)) \<or> subscribed_to ''logs'' (the_sub st (snd x))))
       (subscriptions st)"

text \<open>\<open>strings.SplitN(backendKey, ":", 2)\<close>\<close>

fun split_key :: "string \<Rightarrow> (string \<times> string) option" where
  "split_key [] = None"
| "split_key (c # cs) =
     (if c = CHR '':'' then Some ([], cs) else map_option (\<lambda>(a, b). (c # a, b)) (split_key cs))"

text \<open>The first backend of the chain with the URL; the URL of a backend that has none panics.\<close>

fun backend_with :: "string \<Rightarrow> string \<Rightarrow> nat \<Rightarrow> backend list \<Rightarrow> (string, nat option) outcome" where
  "backend_with chain u i [] = Done None"
| "backend_with chain u i (b # bs) =
     (if Chain b = chain then
        (case WSURL b of None \<Rightarrow> Panic | Some v \<Rightarrow> if v = u then Done (Some i) else backend_with chain u (Suc i) bs)
      else backend_with chain u (Suc i) bs)"

fun stale_backends :: "'f Config \<Rightarrow> int \<Rightarrow> stream \<Rightarrow> (string \<times> int) list \<Rightarrow> (string, nat list) outcome" where
  "stale_backends co t st [] = Done []"
| "stale_backends co t st ((key, t0) # xs) =
     (case split_key key of
        None \<Rightarrow> stale_backends co t st xs
      | Some (chain, u) \<Rightarrow>
          if staleAfter co chain < t - t0 then
            obind (backend_with chain u 0 (Backends co)) (\<lambda>found.
            obind (stale_backends co t st xs) (\<lambda>bs.
              Done (case found of None \<Rightarrow> bs
                    | Some b \<Rightarrow> if hasActiveBlockSubscriptions co b st then b # bs else bs)))
          else stale_backends co t st xs)"

definition checkBlockSanity :: "'f Config \<Rightarrow> int \<Rightarrow> stream \<Rightarrow> section_result" where
  "checkBlockSanity co t st =
     obind (stale_backends co t st (lastBlockTime st)) (\<lambda>bs. Done (st, map Resetting bs))"

definition resetBackendConnections :: "'f Config \<Rightarrow> nat \<Rightarrow> stream \<Rightarrow> section_result" where
  "resetBackendConnections co b st =
     (let affected = map snd (filter (\<lambda>x. wsurl co (SubBackend (the_sub st (snd x))) = wsurl co b) (subscriptions st)) in
      Done (st, if affected = [] then [] else [PickingNew b affected]))"

definition pick_new :: "'f Config \<Rightarrow> (string, nat) outcome \<Rightarrow> nat \<Rightarrow> nat list \<Rightarrow> stream \<Rightarrow> section_result" where
  "pick_new co picked b affected st =
     (case picked of
        Panic \<Rightarrow> Panic
      | Fail e \<Rightarrow> Done (st, [])
      | Done nb \<Rightarrow> if wsurl co nb = wsurl co b then Done (st, []) else Done (st, [Connecting (ForReset b affected) nb]))"

definition find_old :: "'f Config \<Rightarrow> nat \<Rightarrow> nat list \<Rightarrow> nat \<Rightarrow> nat \<Rightarrow> stream \<Rightarrow> section_result" where
  "find_old co b affected nb k st =
     with_url co b (\<lambda>u. Done (st, [Migrating b affected nb k (getWSConnection u b st)]))"

fun migrate :: "(nat \<Rightarrow> bool) \<Rightarrow> nat \<Rightarrow> nat \<Rightarrow> nat \<Rightarrow> nat option \<Rightarrow> nat list \<Rightarrow> stream \<Rightarrow> stream" where
  "migrate ok n nb k old [] st = st"
| "migrate ok n nb k old (s # ss) st =
     (let st1 = upd_sub s (\<lambda>sub. sub\<lparr>SubBackend := nb\<rparr>) st;
          sub = the_sub st1 s;
          st2 = (case old of None \<Rightarrow> st1
                 | Some o' \<Rightarrow> upd_conn o' (\<lambda>w. w\<lparr>WSubs := AList.delete (SubID sub) (WSubs w)\<rparr>) st1);
          st3 = upd_conn k (\<lambda>w. w\<lparr>WSubs := AList.update (SubID sub) s (WSubs w)\<rparr>) st2;
          st4 = snd (sendMessage (ok n) k (request_message (Some (JStr (SubID sub))) (SubMethod sub) (SubParams sub)) st3)
      in migrate ok (Suc n) nb k old ss st4)"

definition migrate_subscriptions ::
  "(nat \<Rightarrow> bool) \<Rightarrow> nat \<Rightarrow> nat list \<Rightarrow> nat \<Rightarrow> nat \<Rightarrow> nat option \<Rightarrow> stream \<Rightarrow> section_result" where
  "migrate_subscriptions ok b affected nb k old st = Done (migrate ok 0 nb k old affected st, [Sweeping b, Untracking b])"

definition closeBackendConnection :: "'f Config \<Rightarrow> nat \<Rightarrow> stream \<Rightarrow> section_result" where
  "closeBackendConnection co b st =
     Done (st, map Closing (filter (\<lambda>k. wsurl co (WBackend (the_conn st k)) = wsurl co b \<and> WSubs (the_conn st k) = [])
                              (concat (map snd (connections st)))))"

definition untrack_backend :: "'f Config \<Rightarrow> nat \<Rightarrow> stream \<Rightarrow> section_result" where
  "untrack_backend co b st =
     with_url co b (\<lambda>u.
       Done (st\<lparr>lastBlockTime := AList.delete (backend_key (Chain (Backends co ! b)) u) (lastBlockTime st)\<rparr>, []))"

section \<open>Goroutines\<close>

primrec run_task :: "'f Config \<Rightarrow> (string \<Rightarrow> string) \<Rightarrow> ws_env \<Rightarrow> task \<Rightarrow> stream \<Rightarrow> section_result" where
  "run_task co fnum env (Dispatching r m) st = handleClientMessage (env_now env) r m st"
| "run_task co fnum env (Subscribing r m) st = handleSubscribe (env_pick env) r m st"
| "run_task co fnum env (Recording r m b) st = record_subscription (env_now env) r m b st"
| "run_task co fnum env (Registering r m b s) st = register_subscription r m b s st"
| "run_task co fnum env (Connecting p b) st = getOrCreateWSConnection co p b st"
| "run_task co fnum env (Choosing p b snap) st = choose_connection co p b snap st"
| "run_task co fnum env (Dialing p b) st = createWSConnection co env p b st"
| "run_task co fnum env (Attaching r m s k) st = attach_subscription r m s k st"
| "run_task co fnum env (SendingSubscription r m s k) st = send_subscription (env_write env) r m s k st"
| "run_task co fnum env (Unsubscribing r m) st = handleUnsubscribe r m st"
| "run_task co fnum env (Deregistering r m sid s) st = deregister_subscription r m sid s st"
| "run_task co fnum env (FindingConnection r m sid s) st = find_connection co r m sid s st"
| "run_task co fnum env (Detaching r m sid k) st = detach_subscription r m sid k st"
| "run_task co fnum env (SendingUnsubscription r m k) st = send_unsubscription (env_write env) r m k st"
| "run_task co fnum env (Confirming r m) st = confirm_unsubscription r m st"
| "run_task co fnum env (Calling r m) st = handleRPCCall (env_pick env) r m st"
| "run_task co fnum env (SendingCall r m k) st = send_call (env_write env) r m k st"
| "run_task co fnum env (Ponging k) st = pong_received (env_now env) k st"
| "run_task co fnum env (Pinging k) st = pingPongLoop co env k st"
| "run_task co fnum env (Receiving k m) st = handleBackendMessages k m st"
| "run_task co fnum env (Forwarding k m) st = forwardBackendMessage co fnum k m st"
| "run_task co fnum env (Routing s m) st = route_message s m st"
| "run_task co fnum env (Writing r s m) st = write_message r m st"
| "run_task co fnum env (Announced chain b d) st = handleBlockNotification co (env_now env) chain b d st"
| "run_task co fnum env (Marking chain num hash d) st = mark_block co chain num hash d st"
| "run_task co fnum env (Notifying chain d) st = notifyBlockSubscribers chain d st"
| "run_task co fnum env (Closing k) st = closeWSConnection k st"
| "run_task co fnum env (Unlisting k) st = unlist_connection co k st"
| "run_task co fnum env (Dropping k) st = Done (drop_subscriptions (WSubs (the_conn st k)) st, [])"
| "run_task co fnum env (Leaving cid) st = removeClient cid st"
| "run_task co fnum env (Hanging r) st = Done (upd_client r (\<lambda>c. c\<lparr>Cclosed := True\<rparr>) st, [])"
| "run_task co fnum env (DroppingClient r) st = Done (drop_subscriptions (CSubs (the_client st r)) st, [])"
| "run_task co fnum env CheckingSanity st = checkBlockSanity co (env_now env) st"
| "run_task co fnum env (Resetting b) st = resetBackendConnections co b st"
| "run_task co fnum env (PickingNew b ss) st = pick_new co (env_pick env) b ss st"
| "run_task co fnum env (FindingOld b ss nb k) st = find_old co b ss nb k st"
| "run_task co fnum env (Migrating b ss nb k old) st = migrate_subscriptions (env_write env) b ss nb k old st"
| "run_task co fnum env (Sweeping b) st = closeBackendConnection co b st"
| "run_task co fnum env (Untracking b) st = untrack_backend co b st"
| "run_task co fnum env ClosingClients st = Shutdown_clients st"
| "run_task co fnum env ClosingConnections st = Shutdown_connections st"

end
