(* ===== verification/Stream_Machine.thy ===== *)
theory Stream_Machine
  imports Stream Machines "HOL-Library.Multiset_Order" "HOL-Library.Sublist"
begin

text \<open>
  The goroutines of the stream as a machine: clients come and go, messages arrive, timers tick, and the
  sections of all handlers interleave. The heaps only grow, and what identifies an object never
  changes, so that a fact about the identity of an object a goroutine holds stays true under the steps
  of the others.
\<close>

section \<open>The machine\<close>

definition pickBackend ::
  "'f float64 \<Rightarrow> ('l, 'r) rate_limiter \<Rightarrow> ('l, 'r) pick_env \<Rightarrow> string \<Rightarrow> 'f balancer \<times> (nat \<Rightarrow> 'l)
     \<Rightarrow> (string, nat) outcome" where
  "pickBackend F L pe chain lbl =
     obind (fst (Pick F L pe chain ''ws'' lbl)) (\<lambda>i. Done (members (fst lbl) chain ! i))"

text \<open>
  A pick of the balancer for a chain, at a moment when requests, heads and probes have changed all but the
  identity of its backends.
\<close>

definition picks ::
  "'f float64 \<Rightarrow> ('l, 'r) rate_limiter \<Rightarrow> 'f Config \<Rightarrow> string \<Rightarrow> (string, nat) outcome \<Rightarrow> bool" where
  "picks F L co chain r \<longleftrightarrow>
     (\<exists>pe lb lims. members lb = members (NewLoadBalancer F (Backends co) (seed lb))
        \<and> length (weights lb chain) = length (members lb chain)
        \<and> (\<forall>j < length (members lb chain). WSURL (read1 pe j) = wsurl co (members lb chain ! j)
              \<and> WSURL (read2 pe j) = wsurl co (members lb chain ! j))
        \<and> r = pickBackend F L pe chain (lb, lims))"

definition chain_at :: "'f Config \<Rightarrow> nat \<Rightarrow> string" where
  "chain_at co b = Chain (Backends co ! b)"

text \<open>The chain a task asks a backend for.\<close>

fun wanted :: "'f Config \<Rightarrow> stream \<Rightarrow> task \<Rightarrow> string" where
  "wanted co st (Subscribing r m) = CChain (the_client st r)"
| "wanted co st (Calling r m) = CChain (the_client st r)"
| "wanted co st (PickingNew b ss) = chain_at co b"
| "wanted co st t = []"

text \<open>What starts a goroutine or one round of its loop.\<close>

fun starts :: "stream \<Rightarrow> task \<Rightarrow> bool" where
  "starts st (Dispatching r m) \<longleftrightarrow> r < length (client_heap st)"
| "starts st (Receiving k m) \<longleftrightarrow> k < length (conn_heap st)"
| "starts st (Ponging k) \<longleftrightarrow> k < length (conn_heap st)"
| "starts st (Pinging k) \<longleftrightarrow> k < length (conn_heap st)"
| "starts st (Closing k) \<longleftrightarrow> k < length (conn_heap st)"
| "starts st (Leaving cid) \<longleftrightarrow> True"
| "starts st CheckingSanity \<longleftrightarrow> True"
| "starts st ClosingClients \<longleftrightarrow> True"
| "starts st t \<longleftrightarrow> False"

definition busy :: "task list list \<Rightarrow> nat" where
  "busy ts = length (filter (\<lambda>g. g \<noteq> []) ts)"

text \<open>\<open>G\<close> bounds the handlers that run at the same time.\<close>

inductive stream_step ::
  "'f float64 \<Rightarrow> ('l, 'r) rate_limiter \<Rightarrow> 'f Config \<Rightarrow> (string \<Rightarrow> string) \<Rightarrow> nat
     \<Rightarrow> stream \<times> task list list \<Rightarrow> stream \<times> task list list \<Rightarrow> bool"
  for F L co fnum G where
  run: "i < length ts \<Longrightarrow> ts ! i = t # rest \<Longrightarrow> picks F L co (wanted co st t) (env_pick env)
    \<Longrightarrow> run_task co fnum env t st = Done (st', new)
    \<Longrightarrow> stream_step F L co fnum G (st, ts) (st', ts[i := new @ rest])"
| accept: "HandleWebSocket now p st = Some st' \<Longrightarrow> stream_step F L co fnum G (st, ts) (st', ts)"
| start: "starts st t \<Longrightarrow> busy ts < G \<Longrightarrow> stream_step F L co fnum G (st, ts) (st, ts @ [[t]])"

section \<open>What identifies the objects\<close>

definition ws_backend :: "'f Config \<Rightarrow> nat \<Rightarrow> bool" where
  "ws_backend co b \<longleftrightarrow> b < length (Backends co) \<and> wsurl co b \<noteq> None"

text \<open>Whether no WebSocket URL serves two chains; only then chains are told apart.\<close>

definition one_chain_urls :: "'f Config \<Rightarrow> bool" where
  "one_chain_urls co \<longleftrightarrow>
     (\<forall>b b'. ws_backend co b \<longrightarrow> ws_backend co b' \<longrightarrow> wsurl co b = wsurl co b' \<longrightarrow> chain_at co b = chain_at co b')"

definition chain_tag :: "'f Config \<Rightarrow> string \<Rightarrow> string" where
  "chain_tag co c = (if one_chain_urls co then c else [])"

definition backend_tag :: "'f Config \<Rightarrow> nat \<Rightarrow> string" where
  "backend_tag co b = chain_tag co (chain_at co b)"

definition sub_key :: "'f Config \<Rightarrow> Subscription \<Rightarrow> string \<times> string \<times> string" where
  "sub_key co sub = (SubID sub, ClientID sub, backend_tag co (SubBackend sub))"

definition client_key :: "'f Config \<Rightarrow> WebsocketClient \<Rightarrow> string \<times> string" where
  "client_key co c = (CID c, chain_tag co (CChain c))"

record typing =
  sub_keys :: "(string \<times> string \<times> string) list"
  conn_keys :: "nat list"
  client_keys :: "(string \<times> string) list"

definition typing_of :: "'f Config \<Rightarrow> stream \<Rightarrow> typing" where
  "typing_of co st =
     \<lparr>sub_keys = map (sub_key co) (sub_heap st), conn_keys = map WBackend (conn_heap st),
      client_keys = map (client_key co) (client_heap st)\<rparr>"

definition extends :: "typing \<Rightarrow> typing \<Rightarrow> bool" where
  "extends T T' \<longleftrightarrow>
     prefix (sub_keys T) (sub_keys T') \<and> prefix (conn_keys T) (conn_keys T') \<and> prefix (client_keys T) (client_keys T')"

lemma extends_refl [simp]: "extends T T"
  by (simp add: extends_def)

lemma extends_trans: "extends T U \<Longrightarrow> extends U V \<Longrightarrow> extends T V"
  by (auto simp: extends_def)

lemma prefix_nth:
  assumes "prefix xs ys" and "i < length xs"
  shows "ys ! i = xs ! i" and "i < length ys"
  using assms by (auto simp: prefix_def nth_append)

lemma extends_nth:
  assumes "extends T T'"
  shows "s < length (sub_keys T) \<Longrightarrow> sub_keys T' ! s = sub_keys T ! s"
    and "s < length (sub_keys T) \<Longrightarrow> s < length (sub_keys T')"
    and "k < length (conn_keys T) \<Longrightarrow> conn_keys T' ! k = conn_keys T ! k"
    and "k < length (conn_keys T) \<Longrightarrow> k < length (conn_keys T')"
    and "r < length (client_keys T) \<Longrightarrow> client_keys T' ! r = client_keys T ! r"
    and "r < length (client_keys T) \<Longrightarrow> r < length (client_keys T')"
  using assms unfolding extends_def by (blast intro: prefix_nth)+

lemma same_url_same_chain:
  assumes "ws_backend co b" and "ws_backend co b'" and "wsurl co b = wsurl co b'"
  shows "backend_tag co b = backend_tag co b'"
proof (cases "one_chain_urls co")
  case True
  then have "chain_at co b = chain_at co b'" using assms unfolding one_chain_urls_def by blast
  then show ?thesis by (simp add: backend_tag_def)
qed (simp add: backend_tag_def chain_tag_def)

section \<open>Well-formed states\<close>

text \<open>A map from the identifiers of subscriptions to subscriptions of a kind.\<close>

definition sub_map :: "(string \<times> string \<times> string) list \<Rightarrow> (string \<times> string \<Rightarrow> bool) \<Rightarrow> (string \<times> nat) list \<Rightarrow> bool" where
  "sub_map K P al \<longleftrightarrow>
     distinct (map fst al) \<and> (\<forall>x \<in> set al. snd x < length K \<and> fst (K ! snd x) = fst x \<and> P (snd (K ! snd x)))"

definition clients_named :: "(string \<times> string) list \<Rightarrow> (string \<times> nat) list \<Rightarrow> bool" where
  "clients_named K al \<longleftrightarrow> distinct (map fst al) \<and> (\<forall>x \<in> set al. snd x < length K \<and> fst (K ! snd x) = fst x)"

definition conns_listed :: "'f Config \<Rightarrow> nat list \<Rightarrow> (string \<times> nat list) list \<Rightarrow> bool" where
  "conns_listed co K al \<longleftrightarrow>
     distinct (map fst al)
     \<and> (\<forall>x \<in> set al. distinct (snd x) \<and> (\<forall>k \<in> set (snd x). k < length K \<and> wsurl co (K ! k) = Some (fst x)))"

definition sub_ok :: "'f Config \<Rightarrow> Subscription \<Rightarrow> bool" where
  "sub_ok co sub \<longleftrightarrow> ws_backend co (SubBackend sub)"

definition conn_ok :: "'f Config \<Rightarrow> (string \<times> string \<times> string) list \<Rightarrow> WebsocketConnection \<Rightarrow> bool" where
  "conn_ok co K w \<longleftrightarrow> ws_backend co (WBackend w) \<and> sub_map K (\<lambda>x. snd x = backend_tag co (WBackend w)) (WSubs w)"

definition client_ok :: "'f Config \<Rightarrow> (string \<times> string \<times> string) list \<Rightarrow> WebsocketClient \<Rightarrow> bool" where
  "client_ok co K c \<longleftrightarrow> sub_map K (\<lambda>x. x = client_key co c) (CSubs c)"

definition stream_ok :: "'f Config \<Rightarrow> stream \<Rightarrow> bool" where
  "stream_ok co st \<longleftrightarrow>
     list_all (sub_ok co) (sub_heap st)
     \<and> list_all (conn_ok co (sub_keys (typing_of co st))) (conn_heap st)
     \<and> list_all (client_ok co (sub_keys (typing_of co st))) (client_heap st)
     \<and> sub_map (sub_keys (typing_of co st)) (\<lambda>x. True) (subscriptions st)
     \<and> clients_named (client_keys (typing_of co st)) (wclients st)
     \<and> conns_listed co (conn_keys (typing_of co st)) (connections st)"

text \<open>What a task relies on. A message that is passed on names the subscription it is passed on for.\<close>

primrec purpose_ok :: "'f Config \<Rightarrow> typing \<Rightarrow> nat \<Rightarrow> purpose \<Rightarrow> bool" where
  "purpose_ok co T b (ForSubscription r m s) \<longleftrightarrow>
     r < length (client_keys T) \<and> s < length (sub_keys T) \<and> snd (sub_keys T ! s) = client_keys T ! r
     \<and> snd (client_keys T ! r) = backend_tag co b"
| "purpose_ok co T b (ForCall r m) \<longleftrightarrow> r < length (client_keys T)"
| "purpose_ok co T b (ForReset old ss) \<longleftrightarrow>
     ws_backend co old \<and> (\<forall>s \<in> set ss. s < length (sub_keys T) \<and> snd (snd (sub_keys T ! s)) = backend_tag co b)"

definition conn_for :: "'f Config \<Rightarrow> typing \<Rightarrow> nat \<Rightarrow> nat \<Rightarrow> bool" where
  "conn_for co T b k \<longleftrightarrow> k < length (conn_keys T) \<and> ws_backend co (conn_keys T ! k) \<and> wsurl co (conn_keys T ! k) = wsurl co b"

definition attaches :: "'f Config \<Rightarrow> typing \<Rightarrow> nat \<Rightarrow> nat \<Rightarrow> bool" where
  "attaches co T s k \<longleftrightarrow>
     s < length (sub_keys T) \<and> k < length (conn_keys T) \<and> snd (snd (sub_keys T ! s)) = backend_tag co (conn_keys T ! k)"

text \<open>The subscription a notification names.\<close>

definition named_sub :: "Message \<Rightarrow> string option" where
  "named_sub m = (case as_any_slice (MParams m) of Some (JStr l # ps) \<Rightarrow> unquote l | _ \<Rightarrow> None)"

primrec task_ok :: "'f Config \<Rightarrow> typing \<Rightarrow> task \<Rightarrow> bool" where
  "task_ok co T (Dispatching r m) \<longleftrightarrow> r < length (client_keys T)"
| "task_ok co T (Subscribing r m) \<longleftrightarrow> r < length (client_keys T)"
| "task_ok co T (Recording r m b) \<longleftrightarrow>
     r < length (client_keys T) \<and> ws_backend co b \<and> snd (client_keys T ! r) = backend_tag co b"
| "task_ok co T (Registering r m b s) \<longleftrightarrow> ws_backend co b \<and> purpose_ok co T b (ForSubscription r m s)"
| "task_ok co T (Connecting p b) \<longleftrightarrow> ws_backend co b \<and> purpose_ok co T b p"
| "task_ok co T (Choosing p b snap) \<longleftrightarrow> ws_backend co b \<and> purpose_ok co T b p \<and> (\<forall>k \<in> set snap. conn_for co T b k)"
| "task_ok co T (Dialing p b) \<longleftrightarrow> ws_backend co b \<and> purpose_ok co T b p"
| "task_ok co T (Attaching r m s k) \<longleftrightarrow> r < length (client_keys T) \<and> attaches co T s k"
| "task_ok co T (SendingSubscription r m s k) \<longleftrightarrow> r < length (client_keys T) \<and> attaches co T s k"
| "task_ok co T (Unsubscribing r m) \<longleftrightarrow> r < length (client_keys T)"
| "task_ok co T (Deregistering r m sid s) \<longleftrightarrow> r < length (client_keys T) \<and> s < length (sub_keys T)"
| "task_ok co T (FindingConnection r m sid s) \<longleftrightarrow> r < length (client_keys T) \<and> s < length (sub_keys T)"
| "task_ok co T (Detaching r m sid k) \<longleftrightarrow> r < length (client_keys T) \<and> k < length (conn_keys T)"
| "task_ok co T (SendingUnsubscription r m k) \<longleftrightarrow> r < length (client_keys T) \<and> k < length (conn_keys T)"
| "task_ok co T (Confirming r m) \<longleftrightarrow> r < length (client_keys T)"
| "task_ok co T (Calling r m) \<longleftrightarrow> r < length (client_keys T)"
| "task_ok co T (SendingCall r m k) \<longleftrightarrow> r < length (client_keys T) \<and> k < length (conn_keys T)"
| "task_ok co T (Ponging k) \<longleftrightarrow> k < length (conn_keys T)"
| "task_ok co T (Pinging k) \<longleftrightarrow> k < length (conn_keys T)"
| "task_ok co T (Receiving k m) \<longleftrightarrow> k < length (conn_keys T)"
| "task_ok co T (Forwarding k m) \<longleftrightarrow> k < length (conn_keys T)"
| "task_ok co T (Routing s m) \<longleftrightarrow> s < length (sub_keys T) \<and> named_sub m = Some (fst (sub_keys T ! s))"
| "task_ok co T (Writing r s m) \<longleftrightarrow>
     r < length (client_keys T) \<and> s < length (sub_keys T) \<and> fst (client_keys T ! r) = fst (snd (sub_keys T ! s))
     \<and> named_sub m = Some (fst (sub_keys T ! s))"
| "task_ok co T (Announced chain b d) \<longleftrightarrow> ws_backend co b \<and> chain = chain_at co b"
| "task_ok co T (Marking chain num hash d) \<longleftrightarrow> True"
| "task_ok co T (Notifying chain d) \<longleftrightarrow> True"
| "task_ok co T (Closing k) \<longleftrightarrow> k < length (conn_keys T)"
| "task_ok co T (Unlisting k) \<longleftrightarrow> k < length (conn_keys T)"
| "task_ok co T (Dropping k) \<longleftrightarrow> k < length (conn_keys T)"
| "task_ok co T (Leaving cid) \<longleftrightarrow> True"
| "task_ok co T (Hanging r) \<longleftrightarrow> r < length (client_keys T)"
| "task_ok co T (DroppingClient r) \<longleftrightarrow> r < length (client_keys T)"
| "task_ok co T CheckingSanity \<longleftrightarrow> True"
| "task_ok co T (Resetting b) \<longleftrightarrow> ws_backend co b"
| "task_ok co T (PickingNew b ss) \<longleftrightarrow> ws_backend co b \<and> purpose_ok co T b (ForReset b ss)"
| "task_ok co T (FindingOld b ss nb k) \<longleftrightarrow> ws_backend co nb \<and> conn_for co T nb k \<and> purpose_ok co T nb (ForReset b ss)"
| "task_ok co T (Migrating b ss nb k old) \<longleftrightarrow>
     ws_backend co nb \<and> conn_for co T nb k \<and> purpose_ok co T nb (ForReset b ss)
     \<and> (\<forall>k'. old = Some k' \<longrightarrow> k' < length (conn_keys T))"
| "task_ok co T (Sweeping b) \<longleftrightarrow> ws_backend co b"
| "task_ok co T (Untracking b) \<longleftrightarrow> ws_backend co b"
| "task_ok co T ClosingClients \<longleftrightarrow> True"
| "task_ok co T ClosingConnections \<longleftrightarrow> True"

lemma purpose_ok_extends: "extends T T' \<Longrightarrow> purpose_ok co T b p \<Longrightarrow> purpose_ok co T' b p"
  by (cases p) (auto simp: extends_nth)

lemma conn_for_extends: "extends T T' \<Longrightarrow> conn_for co T b k \<Longrightarrow> conn_for co T' b k"
  by (auto simp: conn_for_def extends_nth)

lemma attaches_extends: "extends T T' \<Longrightarrow> attaches co T s k \<Longrightarrow> attaches co T' s k"
  by (auto simp: attaches_def extends_nth)

lemma task_ok_extends: "extends T T' \<Longrightarrow> task_ok co T t \<Longrightarrow> task_ok co T' t"
  by (cases t)
    (auto simp: extends_nth intro: purpose_ok_extends conn_for_extends attaches_extends simp del: purpose_ok.simps)

section \<open>Picks\<close>

lemma picks_ok:
  assumes "picks F L co chain r" and "length (Backends co) < 2 ^ 64"
  shows "r \<noteq> Panic" and "r = Done b \<Longrightarrow> ws_backend co b \<and> chain_at co b = chain"
proof -
  obtain pe lb lims where mem: "members lb = members (NewLoadBalancer F (Backends co) (seed lb))"
    and w: "length (weights lb chain) = length (members lb chain)"
    and rd: "\<forall>j < length (members lb chain). WSURL (read1 pe j) = wsurl co (members lb chain ! j)
              \<and> WSURL (read2 pe j) = wsurl co (members lb chain ! j)"
    and r: "r = pickBackend F L pe chain (lb, lims)"
    using assms(1) unfolding picks_def by blast
  have m: "members lb chain = filter (\<lambda>i. Chain (Backends co ! i) = chain) [0..<length (Backends co)]"
    using mem by (simp add: NewLoadBalancer_def Let_def)
  then have len: "length (members lb chain) < 2 ^ 64"
    using length_filter_le [of "\<lambda>i. Chain (Backends co ! i) = chain" "[0..<length (Backends co)]"] assms(2) by simp
  obtain q lb' lims' where p: "PickAtLeast F L pe pe chain ''ws'' 0 (lb, lims) = (q, lb', lims')" by (metis prod_cases3)
  have res: "r = obind q (\<lambda>i. Done (members lb chain ! i))" using r p by (simp add: pickBackend_def Pick_def)
  have q: "q \<noteq> Panic \<and> (\<forall>i. q = Done i \<longrightarrow> i < length (members lb chain) \<and> seen pe i ''ws'' 0)"
    using p
  proof (cases rule: PickAtLeast_cases)
    case (first x st)
    have "x \<noteq> Panic" "\<forall>i. x = Done (Some i) \<longrightarrow> i < length (members lb chain) \<and> seen pe i ''ws'' 0"
      using pick_once_sound [OF first(2) len] w by simp_all
    then show ?thesis using first(3,4) by (cases x) (auto split: option.splits)
  qed simp_all
  then show "r \<noteq> Panic" using res by (cases q) simp_all
  show "ws_backend co b \<and> chain_at co b = chain" if b: "r = Done b"
  proof -
    obtain i where i: "q = Done i" "b = members lb chain ! i" using b res by (cases q) auto
    then have "i < length (members lb chain)" and "candidate (read1 pe i) ''ws'' 0 \<or> candidate (read2 pe i) ''ws'' 0"
      using q by (auto simp: seen_def)
    then have "wsurl co b \<noteq> None" using rd i(2) by (auto simp: candidate_def split: if_splits)
    moreover have "b \<in> set (members lb chain)" using i(2) \<open>i < length (members lb chain)\<close> by simp
    ultimately show ?thesis using m by (auto simp: ws_backend_def chain_at_def)
  qed
qed

section \<open>Maps of references\<close>

lemma in_update:
  assumes "x \<in> set (AList.update i v al)" and "distinct (map fst al)"
  shows "x = (i, v) \<or> x \<in> set al"
  using assms by (induction al) (auto split: if_splits)

lemma sub_map_Nil [simp]: "sub_map K P []"
  by (simp add: sub_map_def)

lemma sub_map_update:
  assumes "sub_map K P al" and "s < length K" and "fst (K ! s) = i" and "P (snd (K ! s))"
  shows "sub_map K P (AList.update i s al)"
  using assms by (auto simp: sub_map_def distinct_update dest!: in_update)

lemma sub_map_delete: "sub_map K P al \<Longrightarrow> sub_map K P (AList.delete i al)"
  by (auto simp: sub_map_def AList.delete_eq distinct_map_filter)

lemma sub_map_filter: "sub_map K P al \<Longrightarrow> sub_map K P (filter Q al)"
  by (auto simp: sub_map_def distinct_map_filter)

lemma sub_map_extends:
  assumes "extends T T'" and "sub_map (sub_keys T) P al"
  shows "sub_map (sub_keys T') P al"
  using assms by (auto simp: sub_map_def extends_nth)

lemma sub_map_lookup:
  assumes "sub_map K P al" and "map_of al i = Some s"
  shows "s < length K" and "fst (K ! s) = i" and "P (snd (K ! s))"
  using assms by (auto simp: sub_map_def dest!: map_of_SomeD)

lemma clients_named_lookup:
  assumes "clients_named K al" and "map_of al i = Some r"
  shows "r < length K" and "fst (K ! r) = i"
  using assms by (auto simp: clients_named_def dest!: map_of_SomeD)

lemma clients_named_extends: "extends T T' \<Longrightarrow> clients_named (client_keys T) al \<Longrightarrow> clients_named (client_keys T') al"
  by (auto simp: clients_named_def extends_nth)

lemma conns_listed_extends:
  "extends T T' \<Longrightarrow> conns_listed co (conn_keys T) al \<Longrightarrow> conns_listed co (conn_keys T') al"
  by (auto simp: conns_listed_def extends_nth)

lemma conns_listed_at:
  assumes "conns_listed co K (connections st)" and "k \<in> set (conns_at u st)"
  shows "k < length K" and "wsurl co (K ! k) = Some u"
  using assms by (auto simp: conns_listed_def conns_at_def split: option.splits dest!: map_of_SomeD)

lemma conns_at_distinct: "conns_listed co K (connections st) \<Longrightarrow> distinct (conns_at u st)"
  by (auto simp: conns_listed_def conns_at_def split: option.splits dest!: map_of_SomeD)

lemma conns_listed_update:
  assumes "conns_listed co K al" and "distinct ks" and "\<And>k. k \<in> set ks \<Longrightarrow> k < length K \<and> wsurl co (K ! k) = Some u"
  shows "conns_listed co K (AList.update u ks al)"
  using assms by (auto simp: conns_listed_def distinct_update dest!: in_update)

section \<open>The basic changes\<close>

lemma map_update_same: "(k < length xs \<Longrightarrow> g y = g (xs ! k)) \<Longrightarrow> map g (xs[k := y]) = map g xs"
  by (cases "k < length xs") (simp_all add: map_update list_update_same_conv list_update_beyond)

lemma list_all_update: "list_all P xs \<Longrightarrow> P y \<Longrightarrow> list_all P (xs[k := y])"
  using set_update_subset_insert [of xs k y] by (auto simp: list_all_iff)

lemma list_all_nth: "list_all P xs \<Longrightarrow> i < length xs \<Longrightarrow> P (xs ! i)"
  by (simp add: list_all_length)

lemma keys_simps [simp]:
  "length (sub_keys (typing_of co st)) = length (sub_heap st)"
  "length (conn_keys (typing_of co st)) = length (conn_heap st)"
  "length (client_keys (typing_of co st)) = length (client_heap st)"
  "s < length (sub_heap st) \<Longrightarrow> sub_keys (typing_of co st) ! s = sub_key co (the_sub st s)"
  "k < length (conn_heap st) \<Longrightarrow> conn_keys (typing_of co st) ! k = WBackend (the_conn st k)"
  "r < length (client_heap st) \<Longrightarrow> client_keys (typing_of co st) ! r = client_key co (the_client st r)"
  by (simp_all add: typing_of_def)

lemma typing_maps [simp]:
  "typing_of co (st\<lparr>subscriptions := x1\<rparr>) = typing_of co st"
  "typing_of co (st\<lparr>wclients := x1\<rparr>) = typing_of co st"
  "typing_of co (st\<lparr>connections := x2\<rparr>) = typing_of co st"
  "typing_of co (st\<lparr>delivered := x3\<rparr>) = typing_of co st"
  "typing_of co (st\<lparr>lastBlockTime := x4\<rparr>) = typing_of co st"
  by (simp_all add: typing_of_def)

lemma typing_updates:
  "WBackend (f (the_conn st k)) = WBackend (the_conn st k) \<Longrightarrow> typing_of co (upd_conn k f st) = typing_of co st"
  "client_key co (g (the_client st r)) = client_key co (the_client st r) \<Longrightarrow> typing_of co (upd_client r g st) = typing_of co st"
  "sub_key co (h (the_sub st s)) = sub_key co (the_sub st s) \<Longrightarrow> typing_of co (upd_sub s h st) = typing_of co st"
  by (simp_all add: typing_of_def upd_conn_def upd_client_def upd_sub_def map_update_same)

lemma ok_maps:
  assumes "stream_ok co st"
  shows "sub_map (sub_keys (typing_of co st)) (\<lambda>x. True) al \<Longrightarrow> stream_ok co (st\<lparr>subscriptions := al\<rparr>)"
    and "clients_named (client_keys (typing_of co st)) bl \<Longrightarrow> stream_ok co (st\<lparr>wclients := bl\<rparr>)"
    and "conns_listed co (conn_keys (typing_of co st)) cl \<Longrightarrow> stream_ok co (st\<lparr>connections := cl\<rparr>)"
    and "stream_ok co (st\<lparr>delivered := dl\<rparr>)" and "stream_ok co (st\<lparr>lastBlockTime := el\<rparr>)"
  using assms by (simp_all add: stream_ok_def)

lemma ok_conn:
  assumes "stream_ok co st" and "WBackend (f (the_conn st k)) = WBackend (the_conn st k)"
    and "conn_ok co (sub_keys (typing_of co st)) (f (the_conn st k))"
  shows "stream_ok co (upd_conn k f st)"
  using assms typing_updates(1) [of f st k co]
  by (simp add: stream_ok_def upd_conn_def list_all_update)

lemma ok_client:
  assumes "stream_ok co st" and "client_key co (f (the_client st r)) = client_key co (the_client st r)"
    and "client_ok co (sub_keys (typing_of co st)) (f (the_client st r))"
  shows "stream_ok co (upd_client r f st)"
  using assms typing_updates(2) [of co f st r]
  by (simp add: stream_ok_def upd_client_def list_all_update)

lemma ok_sub:
  assumes "stream_ok co st" and "sub_key co (f (the_sub st s)) = sub_key co (the_sub st s)"
    and "sub_ok co (f (the_sub st s))"
  shows "stream_ok co (upd_sub s f st)"
  using assms typing_updates(3) [of co f st s]
  by (simp add: stream_ok_def upd_sub_def list_all_update)

lemma ok_parts:
  assumes "stream_ok co st"
  shows "s < length (sub_heap st) \<Longrightarrow> sub_ok co (the_sub st s)"
    and "k < length (conn_heap st) \<Longrightarrow> conn_ok co (sub_keys (typing_of co st)) (the_conn st k)"
    and "r < length (client_heap st) \<Longrightarrow> client_ok co (sub_keys (typing_of co st)) (the_client st r)"
    and "sub_map (sub_keys (typing_of co st)) (\<lambda>x. True) (subscriptions st)"
    and "clients_named (client_keys (typing_of co st)) (wclients st)"
    and "conns_listed co (conn_keys (typing_of co st)) (connections st)"
  using assms by (simp_all add: stream_ok_def list_all_nth)

text \<open>Changes that leave identities and maps alone.\<close>

lemma inert_client:
  assumes "stream_ok co st" and "r < length (client_heap st)"
    and "\<And>c. CID (f c) = CID c \<and> CChain (f c) = CChain c \<and> CSubs (f c) = CSubs c"
  shows "stream_ok co (upd_client r f st)" and "typing_of co (upd_client r f st) = typing_of co st"
  using ok_parts(3) [OF assms(1,2)] assms
  by (auto intro!: ok_client typing_updates simp: client_key_def client_ok_def)

lemma inert_conn:
  assumes "stream_ok co st" and "k < length (conn_heap st)"
    and "\<And>w. WBackend (f w) = WBackend w \<and> WSubs (f w) = WSubs w"
  shows "stream_ok co (upd_conn k f st)" and "typing_of co (upd_conn k f st) = typing_of co st"
  using ok_parts(2) [OF assms(1,2)] assms
  by (auto intro!: ok_conn typing_updates simp: conn_ok_def)

lemma sendToClient_ok:
  assumes "stream_ok co st" and "r < length (client_heap st)"
  shows "stream_ok co (sendToClient r m st)" and "typing_of co (sendToClient r m st) = typing_of co st"
  unfolding sendToClient_def by (rule inert_client [OF assms]; simp)+

lemma sendError_ok:
  assumes "stream_ok co st" and "r < length (client_heap st)"
  shows "stream_ok co (sendError r i c msg st)" and "typing_of co (sendError r i c msg st) = typing_of co st"
  using sendToClient_ok [OF assms] by (simp_all add: sendError_def)

lemma sendMessage_ok:
  assumes "stream_ok co st" and "k < length (conn_heap st)"
  shows "stream_ok co (snd (sendMessage ok k m st))"
    and "typing_of co (snd (sendMessage ok k m st)) = typing_of co st"
  using assms inert_conn [OF assms, of "\<lambda>w. w\<lparr>Wsent := Wsent w @ [m]\<rparr>"] by (simp_all add: sendMessage_def)

lemma typing_lengths:
  assumes "typing_of co st = typing_of co st'"
  shows "length (sub_heap st) = length (sub_heap st')" and "length (conn_heap st) = length (conn_heap st')"
    and "length (client_heap st) = length (client_heap st')"
  using arg_cong [OF assms, of "\<lambda>T. length (sub_keys T)"] arg_cong [OF assms, of "\<lambda>T. length (conn_keys T)"]
    arg_cong [OF assms, of "\<lambda>T. length (client_keys T)"] by simp_all

end
