(* ===== verification/Stream_Safety.thy ===== *)
theory Stream_Safety
  imports Stream_Machine
begin

text \<open>
  Every section keeps the state well-formed and hands well-formed tasks on, whatever the other goroutines
  did since the goroutine last ran.
\<close>

section \<open>The sections\<close>

lemma upd_lengths [simp]:
  "length (sub_heap (upd_sub s h st)) = length (sub_heap st)"
  "length (conn_heap (upd_conn k f st)) = length (conn_heap st)"
  "length (client_heap (upd_client r g st)) = length (client_heap st)"
  by (simp_all add: upd_sub_def upd_conn_def upd_client_def)

lemma upd_fields [simp]:
  "conn_heap (upd_sub s h st) = conn_heap st" "client_heap (upd_sub s h st) = client_heap st"
  "sub_heap (upd_conn k f st) = sub_heap st" "client_heap (upd_conn k f st) = client_heap st"
  "sub_heap (upd_client r g st) = sub_heap st" "conn_heap (upd_client r g st) = conn_heap st"
  "connections (upd_sub s h st) = connections st" "connections (upd_conn k f st) = connections st"
  "connections (upd_client r g st) = connections st"
  "wclients (upd_sub s h st) = wclients st" "wclients (upd_conn k f st) = wclients st"
  "wclients (upd_client r g st) = wclients st"
  "subscriptions (upd_sub s h st) = subscriptions st" "subscriptions (upd_conn k f st) = subscriptions st"
  "subscriptions (upd_client r g st) = subscriptions st"
  by (simp_all add: upd_sub_def upd_conn_def upd_client_def)

definition good :: "'f Config \<Rightarrow> typing \<Rightarrow> section_result \<Rightarrow> bool" where
  "good co T r \<longleftrightarrow>
     (case r of Done (st', new) \<Rightarrow>
        stream_ok co st' \<and> extends T (typing_of co st') \<and> list_all (task_ok co (typing_of co st')) new
      | _ \<Rightarrow> False)"

lemma good_Done [simp]:
  "good co T (Done (st', new)) \<longleftrightarrow>
     stream_ok co st' \<and> extends T (typing_of co st') \<and> list_all (task_ok co (typing_of co st')) new"
  "\<not> good co T Panic" "\<not> good co T (Fail e)"
  by (simp_all add: good_def)

lemma good_if: "(c \<Longrightarrow> good co T x) \<Longrightarrow> (\<not> c \<Longrightarrow> good co T y) \<Longrightarrow> good co T (if c then x else y)"
  by simp

lemma with_url_good:
  assumes "ws_backend co b" and "\<And>u. wsurl co b = Some u \<Longrightarrow> good co T (f u)"
  shows "good co T (with_url co b f)"
  using assms by (auto simp: with_url_def ws_backend_def)

lemma handleClientMessage_good:
  assumes "stream_ok co st" and "r < length (client_heap st)"
  shows "good co (typing_of co st) (handleClientMessage t r m st)"
  using inert_client [OF assms, of "\<lambda>c. c\<lparr>lastActivity := t\<rparr>"] assms(2) by (simp add: handleClientMessage_def Let_def)

lemma handleSubscribe_good:
  assumes "stream_ok co st" and "r < length (client_heap st)" and "picked \<noteq> Panic"
    and "\<And>b. picked = Done b \<Longrightarrow> ws_backend co b \<and> chain_at co b = CChain (the_client st r)"
  shows "good co (typing_of co st) (handleSubscribe picked r m st)"
  using assms sendError_ok [OF assms(1,2)]
  by (cases picked) (auto simp: handleSubscribe_def client_key_def backend_tag_def)

lemma handleRPCCall_good:
  assumes "stream_ok co st" and "r < length (client_heap st)" and "picked \<noteq> Panic"
    and "\<And>b. picked = Done b \<Longrightarrow> ws_backend co b"
  shows "good co (typing_of co st) (handleRPCCall picked r m st)"
  using assms sendError_ok [OF assms(1,2)] by (cases picked) (auto simp: handleRPCCall_def)

text \<open>The new subscription extends the heap; the maps of the others do not notice.\<close>

lemma ok_new_sub:
  assumes "stream_ok co st" and "sub_ok co sub"
  shows "stream_ok co (st\<lparr>sub_heap := sub_heap st @ [sub]\<rparr>)"
    and "extends (typing_of co st) (typing_of co (st\<lparr>sub_heap := sub_heap st @ [sub]\<rparr>))"
proof -
  let ?st = "st\<lparr>sub_heap := sub_heap st @ [sub]\<rparr>"
  show e: "extends (typing_of co st) (typing_of co ?st)" by (simp add: extends_def typing_of_def)
  note m = sub_map_extends [OF e]
  have "conn_ok co (sub_keys (typing_of co ?st)) w" if "conn_ok co (sub_keys (typing_of co st)) w" for w
    using that m by (simp add: conn_ok_def)
  moreover have "client_ok co (sub_keys (typing_of co ?st)) c" if "client_ok co (sub_keys (typing_of co st)) c" for c
    using that m by (simp add: client_ok_def)
  moreover have "client_keys (typing_of co ?st) = client_keys (typing_of co st)"
    "conn_keys (typing_of co ?st) = conn_keys (typing_of co st)" by (simp_all add: typing_of_def)
  ultimately show "stream_ok co ?st" using assms m by (auto simp: stream_ok_def list_all_iff)
qed

lemma record_subscription_good:
  assumes "stream_ok co st" and "r < length (client_heap st)" and "ws_backend co b"
    and "snd (client_key co (the_client st r)) = backend_tag co b"
  shows "good co (typing_of co st) (record_subscription t r m b st)"
proof -
  define sub where "sub = \<lparr>SubID = generateSubscriptionID t, SubMethod = MMethod m, SubParams = MParams m,
    ClientID = CID (the_client st r), SubBackend = b, Created = t\<rparr>"
  define st1 where "st1 = st\<lparr>sub_heap := sub_heap st @ [sub]\<rparr>"
  define f where "f = (\<lambda>c :: WebsocketClient. c\<lparr>CSubs := AList.update (generateSubscriptionID t) (length (sub_heap st)) (CSubs c)\<rparr>)"
  have ok: "stream_ok co st1" "extends (typing_of co st) (typing_of co st1)"
    using ok_new_sub [OF assms(1), of sub] assms(3) by (simp_all add: st1_def sub_ok_def sub_def)
  have r: "r < length (client_heap st1)" "the_client st1 r = the_client st r" using assms(2) by (simp_all add: st1_def)
  have key: "sub_keys (typing_of co st1) ! length (sub_heap st)
      = (generateSubscriptionID t, client_key co (the_client st r))"
    using assms(4) by (simp add: st1_def typing_of_def nth_append sub_key_def sub_def client_key_def)
  have "client_ok co (sub_keys (typing_of co st1)) (f (the_client st1 r))"
    using ok_parts(3) [OF ok(1) r(1)] key r(2)
    by (auto simp: client_ok_def f_def client_key_def intro!: sub_map_update) (simp add: st1_def typing_of_def)
  moreover have same: "client_key co (f (the_client st1 r)) = client_key co (the_client st1 r)"
    by (simp add: f_def client_key_def)
  ultimately have "stream_ok co (upd_client r f st1)" using ok_client [OF ok(1)] by blast
  moreover have t: "typing_of co (upd_client r f st1) = typing_of co st1" using same by (rule typing_updates)
  moreover have "length (sub_keys (typing_of co st1)) = Suc (length (sub_heap st))"
    "client_keys (typing_of co st1) ! r = client_key co (the_client st r)"
    using r by (simp_all add: st1_def)
  ultimately show ?thesis
    using ok(2) key assms(3,4) r(1)
    by (simp add: record_subscription_def Let_def t flip: sub_def f_def st1_def)
qed

lemma register_subscription_good:
  assumes "stream_ok co st" and "task_ok co (typing_of co st) (Registering r m b s)"
  shows "good co (typing_of co st) (register_subscription r m b s st)"
proof -
  have "s < length (sub_heap st)" using assms(2) by simp
  then have "sub_map (sub_keys (typing_of co st)) (\<lambda>x. True) (AList.update (SubID (the_sub st s)) s (subscriptions st))"
    by (intro sub_map_update ok_parts(4) [OF assms(1)]) (simp_all add: sub_key_def)
  from ok_maps(1) [OF assms(1) this] show ?thesis
    using assms(2) unfolding register_subscription_def good_Done typing_maps by auto
qed

lemma attach_subscription_good:
  assumes "stream_ok co st" and "r < length (client_heap st)" and "attaches co (typing_of co st) s k"
  shows "good co (typing_of co st) (attach_subscription r m s k st)"
proof -
  let ?f = "\<lambda>w. w\<lparr>WSubs := AList.update (SubID (the_sub st s)) s (WSubs w)\<rparr>"
  have sk: "s < length (sub_heap st)" "k < length (conn_heap st)" using assms(3) by (simp_all add: attaches_def)
  have "conn_ok co (sub_keys (typing_of co st)) (?f (the_conn st k))"
    using ok_parts(2) [OF assms(1) sk(2)] assms(3) sk
    by (auto simp: conn_ok_def attaches_def sub_key_def intro!: sub_map_update)
  then have "stream_ok co (upd_conn k ?f st)" and "typing_of co (upd_conn k ?f st) = typing_of co st"
    using assms(1) by (auto intro!: ok_conn typing_updates)
  then show ?thesis using assms(2,3) by (simp add: attach_subscription_def)
qed

lemma send_subscription_good:
  assumes "stream_ok co st" and "r < length (client_heap st)" and "k < length (conn_heap st)"
  shows "good co (typing_of co st) (send_subscription ok r m s k st)"
proof -
  obtain sent st1 where s: "sendMessage (ok 0) k m st = (sent, st1)" by fastforce
  have ok: "stream_ok co st1" "typing_of co st1 = typing_of co st" using sendMessage_ok [OF assms(1,3), of "ok 0" m] s by simp_all
  then have r: "r < length (client_heap st1)" using assms(2) typing_lengths(3) [OF ok(2)] by simp
  then show ?thesis
    using ok sendToClient_ok [OF ok(1) r] sendError_ok [OF ok(1) r] by (simp add: send_subscription_def s)
qed

lemma send_call_good:
  assumes "stream_ok co st" and "r < length (client_heap st)" and "k < length (conn_heap st)"
  shows "good co (typing_of co st) (send_call ok r m k st)"
proof -
  obtain sent st1 where s: "sendMessage (ok 0) k m st = (sent, st1)" by fastforce
  have ok: "stream_ok co st1" "typing_of co st1 = typing_of co st" using sendMessage_ok [OF assms(1,3), of "ok 0" m] s by simp_all
  then have r: "r < length (client_heap st1)" using assms(2) typing_lengths(3) [OF ok(2)] by simp
  then show ?thesis
    using ok sendError_ok [OF ok(1) r] by (simp add: send_call_def s)
qed

text \<open>Removing a subscription from the map of a client or of a connection.\<close>

lemma client_forgets:
  assumes "stream_ok co st" and "r < length (client_heap st)"
  shows "stream_ok co (upd_client r (\<lambda>c. c\<lparr>CSubs := AList.delete i (CSubs c)\<rparr>) st)"
    and "typing_of co (upd_client r (\<lambda>c. c\<lparr>CSubs := AList.delete i (CSubs c)\<rparr>) st) = typing_of co st"
  using ok_parts(3) [OF assms] assms
  by (auto intro!: ok_client typing_updates sub_map_delete simp: client_key_def client_ok_def)

lemma conn_forgets:
  assumes "stream_ok co st" and "k < length (conn_heap st)"
  shows "stream_ok co (upd_conn k (\<lambda>w. w\<lparr>WSubs := AList.delete i (WSubs w)\<rparr>) st)"
    and "typing_of co (upd_conn k (\<lambda>w. w\<lparr>WSubs := AList.delete i (WSubs w)\<rparr>) st) = typing_of co st"
  using ok_parts(2) [OF assms] assms
  by (auto intro!: ok_conn typing_updates sub_map_delete simp: conn_ok_def)

lemma handleUnsubscribe_good:
  assumes "stream_ok co st" and "r < length (client_heap st)"
  shows "good co (typing_of co st) (handleUnsubscribe r m st)"
proof (cases "as_string (MParams m)")
  case None
  then show ?thesis using sendError_ok [OF assms] by (simp add: handleUnsubscribe_def)
next
  case (Some i)
  define st1 where "st1 = upd_client r (\<lambda>c. c\<lparr>CSubs := AList.delete i (CSubs c)\<rparr>) st"
  have ok: "stream_ok co st1" "typing_of co st1 = typing_of co st" using client_forgets [OF assms] by (simp_all add: st1_def)
  have r: "r < length (client_heap st1)" using assms(2) typing_lengths(3) [OF ok(2)] by simp
  show ?thesis
  proof (cases "map_of (CSubs (the_client st r)) i")
    case None
    then show ?thesis using Some ok sendError_ok [OF ok(1) r] by (simp add: handleUnsubscribe_def Let_def flip: st1_def)
  next
    case s: (Some s)
    then have "s < length (sub_heap st)"
      using sub_map_lookup(1) ok_parts(3) [OF assms] by (fastforce simp: client_ok_def)
    then show ?thesis using Some s ok assms(2) by (simp add: handleUnsubscribe_def Let_def flip: st1_def)
  qed
qed

lemma deregister_subscription_good:
  assumes "stream_ok co st" and "r < length (client_heap st)" and "s < length (sub_heap st)"
  shows "good co (typing_of co st) (deregister_subscription r m sid s st)"
  using ok_maps(1) [OF assms(1) sub_map_delete [OF ok_parts(4) [OF assms(1)]]] assms
  by (simp add: deregister_subscription_def)

lemma getWSConnection_listed:
  assumes "stream_ok co st" and "getWSConnection u b st = Some k"
  shows "k < length (conn_heap st)"
proof -
  have "k \<in> set (conns_at u st)" using assms(2) by (auto simp: getWSConnection_def find_Some_iff)
  then show ?thesis using conns_listed_at(1) [OF ok_parts(6) [OF assms(1)]] by simp
qed

lemma find_connection_good:
  assumes "stream_ok co st" and "r < length (client_heap st)" and "s < length (sub_heap st)"
  shows "good co (typing_of co st) (find_connection co r m sid s st)"
  unfolding find_connection_def
  using ok_parts(1) [OF assms(1,3)] assms(1,2) getWSConnection_listed [OF assms(1)]
  by (auto simp: sub_ok_def intro!: with_url_good split: option.splits)

lemma detach_subscription_good:
  assumes "stream_ok co st" and "r < length (client_heap st)" and "k < length (conn_heap st)"
  shows "good co (typing_of co st) (detach_subscription r m sid k st)"
  using conn_forgets [OF assms(1,3)] assms(2,3) by (simp add: detach_subscription_def)

lemma send_unsubscription_good:
  assumes "stream_ok co st" and "r < length (client_heap st)" and "k < length (conn_heap st)"
  shows "good co (typing_of co st) (send_unsubscription ok r m k st)"
  using sendMessage_ok [OF assms(1,3)] assms(2) by (simp add: send_unsubscription_def)

lemma confirm_unsubscription_good:
  assumes "stream_ok co st" and "r < length (client_heap st)"
  shows "good co (typing_of co st) (confirm_unsubscription r m st)"
  using sendToClient_ok [OF assms] by (simp add: confirm_unsubscription_def)

subsection \<open>Connections\<close>

text \<open>A connection chosen for a backend suits the purpose the backend was picked for.\<close>

lemma connected_ok:
  assumes "ws_backend co b" and "purpose_ok co T b p" and "conn_for co T b k"
  shows "task_ok co T (connected p b k)"
proof (cases p)
  case (ForSubscription r m s)
  have "backend_tag co b = backend_tag co (conn_keys T ! k)"
    using assms(1,3) same_url_same_chain [of co b "conn_keys T ! k"] by (simp add: conn_for_def)
  then show ?thesis using assms(2,3) ForSubscription by (auto simp: attaches_def conn_for_def)
qed (use assms in \<open>auto simp: conn_for_def\<close>)

lemma not_connected_ok:
  assumes "stream_ok co st" and "purpose_ok co (typing_of co st) b p"
  shows "stream_ok co (not_connected p st)" and "typing_of co (not_connected p st) = typing_of co st"
  using assms sendError_ok [OF assms(1)] by (cases p; simp)+

lemma getOrCreateWSConnection_good:
  assumes "stream_ok co st" and "ws_backend co b" and "purpose_ok co (typing_of co st) b p"
  shows "good co (typing_of co st) (getOrCreateWSConnection co p b st)"
  unfolding getOrCreateWSConnection_def
proof (rule with_url_good [OF assms(2)])
  fix u assume u: "wsurl co b = Some u"
  have "conn_for co (typing_of co st) b k" if "k \<in> set (conns_at u st)" for k
  proof -
    note L = conns_listed_at [OF ok_parts(6) [OF assms(1)] that]
    have "ws_backend co (WBackend (the_conn st k))" using ok_parts(2) [OF assms(1)] L(1) by (simp add: conn_ok_def)
    then show ?thesis using L u by (simp add: conn_for_def)
  qed
  then show "good co (typing_of co st) (Done (st, [Choosing p b (conns_at u st)]))" using assms by simp
qed

lemma least_loaded_member: "least_loaded st n best ks = Some k \<Longrightarrow> best = Some k \<or> k \<in> set ks"
  by (induction st n best ks rule: least_loaded.induct) (auto split: if_splits)

lemma choose_connection_good:
  assumes "stream_ok co st" and "task_ok co (typing_of co st) (Choosing p b snap)"
  shows "good co (typing_of co st) (choose_connection co p b snap st)"
proof -
  have b: "ws_backend co b" and p: "purpose_ok co (typing_of co st) b p"
    and for_b: "\<And>k. k \<in> set snap \<Longrightarrow> conn_for co (typing_of co st) b k" using assms(2) by simp_all
  have con: "good co (typing_of co st) (Done (st, [connected p b k]))" if "k \<in> set snap" for k
    using connected_ok [OF b p for_b [OF that]] assms(1) by simp
  have "k \<in> set snap" if "find P snap = Some k" for P k using that by (auto simp: find_Some_iff)
  moreover have "k \<in> set snap" if "least_loaded st n None snap = Some k" for n k using least_loaded_member [OF that] by simp
  ultimately show ?thesis
    using con b p assms(1) not_connected_ok [OF assms(1) p] unfolding choose_connection_def
    by (auto split: option.splits)
qed

lemma ok_new_conn:
  assumes "stream_ok co st" and "conn_ok co [] w"
  shows "stream_ok co (st\<lparr>conn_heap := conn_heap st @ [w]\<rparr>)"
    and "extends (typing_of co st) (typing_of co (st\<lparr>conn_heap := conn_heap st @ [w]\<rparr>))"
proof -
  let ?st = "st\<lparr>conn_heap := conn_heap st @ [w]\<rparr>"
  show e: "extends (typing_of co st) (typing_of co ?st)" by (simp add: extends_def typing_of_def)
  have same: "sub_keys (typing_of co ?st) = sub_keys (typing_of co st)" "client_keys (typing_of co ?st) = client_keys (typing_of co st)"
    by (simp_all add: typing_of_def)
  have "WSubs w = []" using assms(2) by (cases "WSubs w") (auto simp: conn_ok_def sub_map_def)
  then have "conn_ok co K w" for K using assms(2) by (simp add: conn_ok_def)
  then show "stream_ok co ?st"
    using assms(1) conns_listed_extends [OF e, of co "connections st"] by (auto simp: stream_ok_def same)
qed

lemma createWSConnection_good:
  assumes "stream_ok co st" and "ws_backend co b" and "purpose_ok co (typing_of co st) b p"
  shows "good co (typing_of co st) (createWSConnection co env p b st)"
  unfolding createWSConnection_def
proof (intro with_url_good [OF assms(2)] good_if)
  fix u assume u: "wsurl co b = Some u"
  define w where "w = \<lparr>WBackend = b, WSubs = [], Wclosed = False, lastPing = env_now env, lastPong = env_now env,
    messageCount = 0, Wsent = []\<rparr>"
  define st1 where "st1 = st\<lparr>conn_heap := conn_heap st @ [w]\<rparr>"
  define k where "k = length (conn_heap st)"
  have ok: "stream_ok co st1" "extends (typing_of co st) (typing_of co st1)"
    using ok_new_conn [OF assms(1), of w] assms(2) by (simp_all add: st1_def conn_ok_def w_def)
  have k: "k < length (conn_heap st1)" "WBackend (the_conn st1 k) = b" by (simp_all add: st1_def k_def w_def)
  have at: "conns_at u st1 = conns_at u st" by (simp add: conns_at_def st1_def)
  note L = ok_parts(6) [OF ok(1)] and L0 = ok_parts(6) [OF assms(1)]
  have "k \<notin> set (conns_at u st)" using conns_listed_at(1) [OF L0] by (auto simp: k_def)
  then have "conns_listed co (conn_keys (typing_of co st1)) (AList.update u (conns_at u st @ [k]) (connections st1))"
    using conns_at_distinct [OF L, of u] conns_listed_at [OF L, of _ u] k u at
    by (intro conns_listed_update [OF L]) auto
  then have "stream_ok co (st1\<lparr>connections := AList.update u (conns_at u st @ [k]) (connections st1)\<rparr>)"
    by (rule ok_maps(3) [OF ok(1)])
  moreover have "task_ok co (typing_of co st1) (connected p b k)"
    using k assms(2) by (intro connected_ok purpose_ok_extends [OF ok(2)] assms(2,3)) (simp add: conn_for_def)
  ultimately have "good co (typing_of co st)
      (Done (st1\<lparr>connections := AList.update u (conns_at u st @ [k]) (connections st1)\<rparr>, [connected p b k]))"
    using ok(2) by simp
  then show "good co (typing_of co st)
     (let k = length (conn_heap st);
          w = \<lparr>WBackend = b, WSubs = [], Wclosed = False, lastPing = env_now env, lastPong = env_now env,
               messageCount = 0, Wsent = []\<rparr>
      in Done (st\<lparr>conn_heap := conn_heap st @ [w], connections := AList.update u (conns_at u st @ [k]) (connections st)\<rparr>,
               [connected p b k]))"
    by (simp add: Let_def st1_def flip: w_def k_def)
next
  show "good co (typing_of co st) (Done (not_connected p st, []))" using not_connected_ok [OF assms(1,3)] by simp
qed

lemma pingPongLoop_good:
  assumes "stream_ok co st" and "k < length (conn_heap st)"
  shows "good co (typing_of co st) (pingPongLoop co env k st)"
  using inert_conn [OF assms, of "\<lambda>w. w\<lparr>lastPing := env_now env\<rparr>"] assms
  by (simp add: pingPongLoop_def Let_def)

lemma pong_received_good:
  assumes "stream_ok co st" and "k < length (conn_heap st)"
  shows "good co (typing_of co st) (pong_received t k st)"
  using inert_conn [OF assms, of "\<lambda>w. w\<lparr>lastPong := t\<rparr>"] by (simp add: pong_received_def)

lemma handleBackendMessages_good:
  assumes "stream_ok co st" and "k < length (conn_heap st)"
  shows "good co (typing_of co st) (handleBackendMessages k m st)"
  using inert_conn [OF assms, of "\<lambda>w. w\<lparr>messageCount := messageCount w + 1\<rparr>"] assms(2)
  by (simp add: handleBackendMessages_def)

lemma closeWSConnection_good:
  assumes "stream_ok co st" and "k < length (conn_heap st)"
  shows "good co (typing_of co st) (closeWSConnection k st)"
  using inert_conn [OF assms, of "\<lambda>w. w\<lparr>Wclosed := True\<rparr>"] assms by (simp add: closeWSConnection_def)

lemma unlist_connection_good:
  assumes "stream_ok co st" and "k < length (conn_heap st)"
  shows "good co (typing_of co st) (unlist_connection co k st)"
  unfolding unlist_connection_def
proof (rule with_url_good)
  show "ws_backend co (WBackend (the_conn st k))" using ok_parts(2) [OF assms] by (simp add: conn_ok_def)
  fix u
  note L = ok_parts(6) [OF assms(1)]
  have "conns_listed co (conn_keys (typing_of co st)) (AList.update u (remove1 k (conns_at u st)) (connections st))"
    using conns_at_distinct [OF L, of u] conns_listed_at [OF L, of _ u] set_remove1_subset [of k "conns_at u st"]
    by (intro conns_listed_update [OF L]) auto
  from ok_maps(3) [OF assms(1) this]
  show "good co (typing_of co st) (Done (st\<lparr>connections := AList.update u (remove1 k (conns_at u st)) (connections st)\<rparr>, []))"
    by simp
qed

lemma drop_subscriptions_ok:
  assumes "stream_ok co st"
  shows "stream_ok co (drop_subscriptions ids st)" and "typing_of co (drop_subscriptions ids st) = typing_of co st"
  using ok_maps(1) [OF assms sub_map_filter [OF ok_parts(4) [OF assms]]] by (simp_all add: drop_subscriptions_def)

subsection \<open>Messages of backends\<close>

lemma fold_ok:
  assumes "\<And>x st'. x \<in> set xs \<Longrightarrow> stream_ok co st' \<Longrightarrow> typing_of co st' = T \<Longrightarrow>
      stream_ok co (f x st') \<and> typing_of co (f x st') = T"
    and "stream_ok co st" and "typing_of co st = T"
  shows "stream_ok co (fold f xs st)" and "typing_of co (fold f xs st) = T"
proof -
  have "stream_ok co (fold f xs st) \<and> typing_of co (fold f xs st) = T"
    using assms by (induction xs arbitrary: st) auto
  then show "stream_ok co (fold f xs st)" and "typing_of co (fold f xs st) = T" by simp_all
qed

text \<open>A change of the registered clients, one by one.\<close>

lemma fold_clients_ok:
  assumes "stream_ok co st"
    and "\<And>r st'. stream_ok co st' \<Longrightarrow> r < length (client_heap st') \<Longrightarrow>
      stream_ok co (f r st') \<and> typing_of co (f r st') = typing_of co st'"
  shows "stream_ok co (fold (\<lambda>(i, r). f r) (wclients st) st)"
    and "typing_of co (fold (\<lambda>(i, r). f r) (wclients st) st) = typing_of co st"
proof -
  have "snd x < length (client_heap st)" if "x \<in> set (wclients st)" for x
    using ok_parts(5) [OF assms(1)] that by (auto simp: clients_named_def)
  then have step: "stream_ok co ((\<lambda>(i, r). f r) x st') \<and> typing_of co ((\<lambda>(i, r). f r) x st') = typing_of co st"
    if "x \<in> set (wclients st)" "stream_ok co st'" "typing_of co st' = typing_of co st" for x st'
    using that assms(2) [OF that(2)] typing_lengths(3) [OF that(3)] by (cases x) auto
  show "stream_ok co (fold (\<lambda>(i, r). f r) (wclients st) st)"
    "typing_of co (fold (\<lambda>(i, r). f r) (wclients st) st) = typing_of co st"
    by (rule fold_ok [OF step]; (assumption | rule assms refl))+
qed

lemma broadcast_ok:
  assumes "stream_ok co st"
  shows "stream_ok co (broadcast Q m st)" and "typing_of co (broadcast Q m st) = typing_of co st"
proof -
  have step: "stream_ok co (if Q st' r then sendToClient r m st' else st')
      \<and> typing_of co (if Q st' r then sendToClient r m st' else st') = typing_of co st'"
    if "stream_ok co st'" "r < length (client_heap st')" for r st'
    using sendToClient_ok [OF that] that by simp
  show "stream_ok co (broadcast Q m st)" "typing_of co (broadcast Q m st) = typing_of co st"
    unfolding broadcast_def using fold_clients_ok [OF assms step] by simp_all
qed

lemma forwardBackendMessage_good:
  assumes "stream_ok co st" and "k < length (conn_heap st)"
  shows "good co (typing_of co st) (forwardBackendMessage co fnum k m st)"
proof -
  let ?w = "the_conn st k"
  have w: "ws_backend co (WBackend ?w)" "sub_map (sub_keys (typing_of co st)) (\<lambda>x. snd x = backend_tag co (WBackend ?w)) (WSubs ?w)"
    using ok_parts(2) [OF assms] by (simp_all add: conn_ok_def)
  have s: "s < length (sub_heap st) \<and> sid = SubID (the_sub st s)" if "map_of (WSubs ?w) sid = Some s" for sid s
    using sub_map_lookup(1,2) [OF w(2) that] by (auto simp: sub_key_def)
  show ?thesis
    using assms(1) s w(1) broadcast_ok [OF assms(1)]
    by (auto simp: forwardBackendMessage_def chain_at_def named_sub_def sub_key_def split: option.splits list.splits json.splits)
qed

lemma route_message_good:
  assumes "stream_ok co st" and "s < length (sub_heap st)" and "named_sub m = Some (SubID (the_sub st s))"
  shows "good co (typing_of co st) (route_message s m st)"
proof (cases "map_of (wclients st) (ClientID (the_sub st s))")
  case (Some r)
  have "r < length (client_heap st)" "CID (the_client st r) = ClientID (the_sub st s)"
    using clients_named_lookup [OF ok_parts(5) [OF assms(1)] Some] by (simp_all add: client_key_def)
  then show ?thesis using assms Some by (simp add: route_message_def client_key_def sub_key_def)
qed (use assms in \<open>simp add: route_message_def\<close>)

lemma write_message_good:
  assumes "stream_ok co st" and "r < length (client_heap st)"
  shows "good co (typing_of co st) (write_message r m st)"
  using sendToClient_ok [OF assms] assms by (simp add: write_message_def)

lemma handleBlockNotification_good:
  assumes "stream_ok co st" and "ws_backend co b"
  shows "good co (typing_of co st) (handleBlockNotification co t chain b d st)"
  using with_url_good [OF assms(2)] ok_maps(5) [OF assms(1)] assms(1)
  by (auto simp: handleBlockNotification_def split: prod.splits intro!: with_url_good [OF assms(2)])

lemma mark_block_good:
  assumes "stream_ok co st"
  shows "good co (typing_of co st) (mark_block co chain num hash d st)"
  using ok_maps(4) [OF assms] by (auto simp: mark_block_def markDelivered_def split: prod.splits)

lemma notifyBlockSubscribers_good:
  assumes "stream_ok co st"
  shows "good co (typing_of co st) (notifyBlockSubscribers chain d st)"
  using broadcast_ok [OF assms] by (simp add: notifyBlockSubscribers_def)

lemma removeClient_good:
  assumes "stream_ok co st"
  shows "good co (typing_of co st) (removeClient cid st)"
proof -
  have named: "clients_named (client_keys (typing_of co st)) (wclients st)" by (rule ok_parts(5) [OF assms])
  then have "clients_named (client_keys (typing_of co st)) (AList.delete cid (wclients st))"
    by (auto simp: clients_named_def AList.delete_eq distinct_map_filter)
  note ok = ok_maps(2) [OF assms this]
  show ?thesis
  proof (cases "map_of (wclients st) cid")
    case (Some r)
    then have "r < length (client_heap st)" using clients_named_lookup(1) [OF named] by fastforce
    then show ?thesis using ok Some by (simp add: removeClient_def Let_def)
  qed (use ok in \<open>simp add: removeClient_def Let_def\<close>)
qed

subsection \<open>Stale backends\<close>

lemma backend_with_Done:
  "backend_with chain u i bs = Done (Some b) \<Longrightarrow> i \<le> b \<and> b < i + length bs \<and> WSURL (bs ! (b - i)) = Some u"
proof (induction bs arbitrary: i)
  case (Cons x bs)
  have rec: "i \<le> b \<and> b < i + length (x # bs) \<and> WSURL ((x # bs) ! (b - i)) = Some u"
    if "backend_with chain u (Suc i) bs = Done (Some b)"
    using Cons.IH [OF that] by (auto simp: nth_Cons')
  show ?case using Cons.prems rec by (auto split: if_splits option.splits)
qed simp

lemma stale_backends_ok: "stale_backends co t st xs = Done bs \<Longrightarrow> list_all (ws_backend co) bs"
proof (induction xs arbitrary: bs)
  case (Cons x xs)
  obtain key t0 where x: "x = (key, t0)" by fastforce
  have found: "ws_backend co b" if "backend_with chain u 0 (Backends co) = Done (Some b)" for chain u b
    using backend_with_Done [OF that] by (simp add: ws_backend_def wsurl_def)
  show ?case
    using Cons.prems Cons.IH found
    by (auto simp: x split: option.splits prod.splits if_splits elim!: obind_DoneE)
qed simp

lemma backend_with_no_fail: "backend_with c u i bs \<noteq> Fail e"
  by (induction c u i bs rule: backend_with.induct) (auto split: option.splits)

lemma stale_backends_no_fail: "stale_backends co t st xs \<noteq> Fail e"
proof (induction xs)
  case (Cons x xs)
  obtain key t0 where x: "x = (key, t0)" by fastforce
  have "obind (backend_with c u 0 (Backends co)) (\<lambda>found. obind (stale_backends co t st xs) (\<lambda>bs. Done (g found bs))) \<noteq> Fail e"
    for c u and g :: "nat option \<Rightarrow> nat list \<Rightarrow> nat list"
    using backend_with_no_fail [of c u 0 "Backends co" e] Cons
    by (cases "backend_with c u 0 (Backends co)"; cases "stale_backends co t st xs") auto
  then show ?case using Cons by (auto simp: x split: option.splits prod.splits)
qed simp

lemma checkBlockSanity_good:
  assumes "stream_ok co st" and "checkBlockSanity co t st \<noteq> Panic"
  shows "good co (typing_of co st) (checkBlockSanity co t st)"
proof (cases "stale_backends co t st (lastBlockTime st)")
  case (Done bs)
  then show ?thesis using assms(1) stale_backends_ok [OF Done] by (simp add: checkBlockSanity_def list_all_iff)
next
  case (Fail e)
  then show ?thesis using stale_backends_no_fail [of co t st "lastBlockTime st" e] by blast
qed (use assms in \<open>simp add: checkBlockSanity_def\<close>)

lemma resetBackendConnections_good:
  assumes "stream_ok co st" and "ws_backend co b"
  shows "good co (typing_of co st) (resetBackendConnections co b st)"
proof -
  have "snd x < length (sub_heap st) \<and> snd (snd (sub_key co (the_sub st (snd x)))) = backend_tag co b"
    if "x \<in> set (subscriptions st)" "wsurl co (SubBackend (the_sub st (snd x))) = wsurl co b" for x
  proof -
    have s: "snd x < length (sub_heap st)" using ok_parts(4) [OF assms(1)] that(1) by (auto simp: sub_map_def)
    then have "ws_backend co (SubBackend (the_sub st (snd x)))" using ok_parts(1) [OF assms(1)] by (simp add: sub_ok_def)
    then show ?thesis using s same_url_same_chain [OF _ assms(2) that(2)] by (simp add: sub_key_def)
  qed
  then show ?thesis using assms by (auto simp: resetBackendConnections_def Let_def)
qed

lemma pick_new_good:
  assumes "stream_ok co st" and "task_ok co (typing_of co st) (PickingNew b ss)" and "picked \<noteq> Panic"
    and "\<And>nb. picked = Done nb \<Longrightarrow> ws_backend co nb \<and> chain_at co nb = chain_at co b"
  shows "good co (typing_of co st) (pick_new co picked b ss st)"
  using assms by (cases picked) (auto simp: pick_new_def backend_tag_def)

lemma find_old_good:
  assumes "stream_ok co st" and "task_ok co (typing_of co st) (FindingOld b ss nb k)"
  shows "good co (typing_of co st) (find_old co b ss nb k st)"
  unfolding find_old_def
proof (rule with_url_good)
  show "ws_backend co b" using assms(2) by simp
  show "good co (typing_of co st) (Done (st, [Migrating b ss nb k (getWSConnection u b st)]))" for u
    using assms getWSConnection_listed [OF assms(1)] by auto
qed

text \<open>Moving one subscription to a backend of the same chain, and to a connection of that backend.\<close>

definition migrate_one :: "bool \<Rightarrow> nat \<Rightarrow> nat \<Rightarrow> nat option \<Rightarrow> nat \<Rightarrow> stream \<Rightarrow> stream" where
  "migrate_one ok nb k old s st =
     (let st1 = upd_sub s (\<lambda>sub. sub\<lparr>SubBackend := nb\<rparr>) st;
          sub = the_sub st1 s;
          st2 = (case old of None \<Rightarrow> st1
                 | Some o' \<Rightarrow> upd_conn o' (\<lambda>w. w\<lparr>WSubs := AList.delete (SubID sub) (WSubs w)\<rparr>) st1);
          st3 = upd_conn k (\<lambda>w. w\<lparr>WSubs := AList.update (SubID sub) s (WSubs w)\<rparr>) st2
      in snd (sendMessage ok k (request_message (Some (JStr (SubID sub))) (SubMethod sub) (SubParams sub)) st3))"

lemma migrate_Cons: "migrate ok n nb k old (s # ss) st = migrate ok (Suc n) nb k old ss (migrate_one (ok n) nb k old s st)"
  by (simp add: migrate_one_def Let_def)

lemma migrate_one_ok:
  assumes "stream_ok co st" and "s < length (sub_heap st)" and "snd (snd (sub_key co (the_sub st s))) = backend_tag co nb"
    and "ws_backend co nb" and "conn_for co (typing_of co st) nb k" and "\<forall>k'. old = Some k' \<longrightarrow> k' < length (conn_heap st)"
  shows "stream_ok co (migrate_one w nb k old s st) \<and> typing_of co (migrate_one w nb k old s st) = typing_of co st"
proof -
  define st1 where "st1 = upd_sub s (\<lambda>sub. sub\<lparr>SubBackend := nb\<rparr>) st"
  define i where "i = SubID (the_sub st1 s)"
  define st2 where "st2 = (case old of None \<Rightarrow> st1 | Some o' \<Rightarrow> upd_conn o' (\<lambda>w. w\<lparr>WSubs := AList.delete i (WSubs w)\<rparr>) st1)"
  define st3 where "st3 = upd_conn k (\<lambda>w. w\<lparr>WSubs := AList.update i s (WSubs w)\<rparr>) st2"
  have "sub_key co ((the_sub st s)\<lparr>SubBackend := nb\<rparr>) = sub_key co (the_sub st s)" using assms(3) by (simp add: sub_key_def)
  then have ok1: "stream_ok co st1" "typing_of co st1 = typing_of co st"
    unfolding st1_def using ok_sub [OF assms(1)] typing_updates(3) assms(4) by (simp_all add: sub_ok_def)
  have len1: "length (conn_heap st1) = length (conn_heap st)" "length (sub_heap st1) = length (sub_heap st)"
    by (simp_all add: st1_def)
  have ok2: "stream_ok co st2" "typing_of co st2 = typing_of co st"
    using ok1 conn_forgets [OF ok1(1)] assms(6) len1 by (auto simp: st2_def split: option.splits)
  have k: "k < length (conn_heap st2)" "s < length (sub_heap st2)"
    using assms(2,5) typing_lengths [OF ok2(2)] by (simp_all add: conn_for_def)
  have key: "sub_keys (typing_of co st2) ! s = sub_key co (the_sub st1 s)"
    using ok2(2) ok1(2) keys_simps(4) [of s st1 co] assms(2) len1(2) by simp
  have "wsurl co (WBackend (the_conn st2 k)) = wsurl co nb" "ws_backend co (WBackend (the_conn st2 k))"
    using assms(5) ok2(2) keys_simps(5) [OF k(1), of co] by (auto simp: conn_for_def)
  then have "backend_tag co (WBackend (the_conn st2 k)) = backend_tag co nb" using same_url_same_chain assms(4) by blast
  moreover have "sub_key co (the_sub st1 s) = sub_key co (the_sub st s)"
    using arg_cong [OF ok1(2), of "\<lambda>T. sub_keys T ! s"] assms(2) len1(2) by simp
  ultimately have "conn_ok co (sub_keys (typing_of co st2)) ((the_conn st2 k)\<lparr>WSubs := AList.update i s (WSubs (the_conn st2 k))\<rparr>)"
    using ok_parts(2) [OF ok2(1) k(1)] k(2) key assms(3)
    by (auto simp: conn_ok_def i_def sub_key_def intro!: sub_map_update)
  then have "stream_ok co st3" and "typing_of co st3 = typing_of co st2"
    unfolding st3_def by (intro ok_conn [OF ok2(1)] typing_updates; simp)+
  then have ok3: "stream_ok co st3" "typing_of co st3 = typing_of co st" using ok2(2) by simp_all
  have k3: "k < length (conn_heap st3)" using k by (simp add: st3_def)
  show ?thesis
    using sendMessage_ok [OF ok3(1) k3] ok3(2) unfolding migrate_one_def Let_def st1_def st2_def st3_def i_def by simp
qed

lemma migrate_ok:
  assumes "stream_ok co st" and "ws_backend co nb" and "conn_for co (typing_of co st) nb k"
    and "\<forall>k'. old = Some k' \<longrightarrow> k' < length (conn_heap st)"
    and "\<forall>s \<in> set ss. s < length (sub_keys (typing_of co st)) \<and> snd (snd (sub_keys (typing_of co st) ! s)) = backend_tag co nb"
  shows "stream_ok co (migrate ok n nb k old ss st) \<and> typing_of co (migrate ok n nb k old ss st) = typing_of co st"
  using assms
proof (induction ss arbitrary: n st)
  case (Cons s ss)
  define st1 where "st1 = migrate_one (ok n) nb k old s st"
  have one: "stream_ok co st1" "typing_of co st1 = typing_of co st"
    unfolding st1_def using migrate_one_ok [OF Cons.prems(1) _ _ Cons.prems(2,3,4)] Cons.prems(5) by auto
  have "\<forall>k'. old = Some k' \<longrightarrow> k' < length (conn_heap st1)"
    using Cons.prems(4) typing_lengths(2) [OF one(2)] by (simp only:)
  then show ?case
    unfolding migrate_Cons st1_def [symmetric]
    using Cons.IH [OF one(1) Cons.prems(2), unfolded one(2), OF Cons.prems(3), of "Suc n"] Cons.prems(5) by simp
qed simp

lemma migrate_subscriptions_good:
  assumes "stream_ok co st" and "task_ok co (typing_of co st) (Migrating b ss nb k old)"
  shows "good co (typing_of co st) (migrate_subscriptions ok b ss nb k old st)"
proof -
  have "stream_ok co (migrate ok 0 nb k old ss st) \<and> typing_of co (migrate ok 0 nb k old ss st) = typing_of co st"
    using assms(2) by (intro migrate_ok [OF assms(1)]) auto
  then show ?thesis using assms(2) by (simp add: migrate_subscriptions_def)
qed

lemma closeBackendConnection_good:
  assumes "stream_ok co st"
  shows "good co (typing_of co st) (closeBackendConnection co b st)"
proof -
  have "k < length (conn_heap st)" if "x \<in> set (connections st)" "k \<in> set (snd x)" for x k
    using ok_parts(6) [OF assms] that by (auto simp: conns_listed_def)
  then show ?thesis using assms by (auto simp: closeBackendConnection_def list_all_iff)
qed

lemma untrack_backend_good:
  assumes "stream_ok co st" and "ws_backend co b"
  shows "good co (typing_of co st) (untrack_backend co b st)"
  unfolding untrack_backend_def using ok_maps(5) [OF assms(1)] by (intro with_url_good [OF assms(2)]) simp

subsection \<open>Shutdown\<close>

lemma Shutdown_clients_good:
  assumes "stream_ok co st"
  shows "good co (typing_of co st) (Shutdown_clients st)"
proof -
  have "stream_ok co (upd_client r (\<lambda>c. c\<lparr>Cclosed := True\<rparr>) st')
      \<and> typing_of co (upd_client r (\<lambda>c. c\<lparr>Cclosed := True\<rparr>) st') = typing_of co st'"
    if "stream_ok co st'" "r < length (client_heap st')" for r st'
    using inert_client [OF that, of "\<lambda>c. c\<lparr>Cclosed := True\<rparr>"] by simp
  from fold_clients_ok [OF assms this] show ?thesis by (simp add: Shutdown_clients_def)
qed

lemma Shutdown_connections_good:
  assumes "stream_ok co st"
  shows "good co (typing_of co st) (Shutdown_connections st)"
proof -
  have "k < length (conn_heap st)" if "k \<in> set (concat (map snd (connections st)))" for k
    using ok_parts(6) [OF assms] that by (auto simp: conns_listed_def)
  then have "stream_ok co (upd_conn k (\<lambda>w. w\<lparr>Wclosed := True\<rparr>) st')
      \<and> typing_of co (upd_conn k (\<lambda>w. w\<lparr>Wclosed := True\<rparr>) st') = typing_of co st"
    if "k \<in> set (concat (map snd (connections st)))" "stream_ok co st'" "typing_of co st' = typing_of co st" for k st'
    using that inert_conn [OF that(2), of k "\<lambda>w. w\<lparr>Wclosed := True\<rparr>"] typing_lengths(2) [OF that(3)] by simp
  note all = this
  have "stream_ok co (fold (\<lambda>k. upd_conn k (\<lambda>w. w\<lparr>Wclosed := True\<rparr>)) (concat (map snd (connections st))) st)"
    "typing_of co (fold (\<lambda>k. upd_conn k (\<lambda>w. w\<lparr>Wclosed := True\<rparr>)) (concat (map snd (connections st))) st) = typing_of co st"
    by (rule fold_ok [OF all assms refl]; assumption)+
  then show ?thesis unfolding Shutdown_connections_def good_Done by (simp only: extends_refl list.pred_inject simp_thms)
qed

section \<open>Every task\<close>

lemma run_task_good:
  assumes ok: "stream_ok co st" and t: "task_ok co (typing_of co st) t"
    and pick: "env_pick env \<noteq> Panic" "\<And>b. env_pick env = Done b \<Longrightarrow> ws_backend co b \<and> chain_at co b = wanted co st t"
    and sane: "t = CheckingSanity \<longrightarrow> run_task co fnum env t st \<noteq> Panic"
  shows "good co (typing_of co st) (run_task co fnum env t st)"
proof (cases t)
  case (Choosing p b snap)
  show ?thesis unfolding Choosing run_task.simps by (rule choose_connection_good [OF ok t [unfolded Choosing]])
next
  case (Attaching r m s k)
  show ?thesis
    unfolding Attaching run_task.simps using t Attaching by (intro attach_subscription_good [OF ok]) simp_all
next
  case (Migrating b ss nb k old)
  show ?thesis unfolding Migrating run_task.simps by (rule migrate_subscriptions_good [OF ok t [unfolded Migrating]])
next
  case (PickingNew b ss)
  show ?thesis
    unfolding PickingNew run_task.simps
    by (rule pick_new_good [OF ok t [unfolded PickingNew] pick(1)]) (simp add: pick(2) PickingNew)
next
  case (FindingOld b ss nb k)
  show ?thesis unfolding FindingOld run_task.simps by (rule find_old_good [OF ok t [unfolded FindingOld]])
next
  case (Registering r m b s)
  show ?thesis unfolding Registering run_task.simps by (rule register_subscription_good [OF ok t [unfolded Registering]])
next
  case (SendingSubscription r m s k)
  show ?thesis
    unfolding SendingSubscription run_task.simps using t SendingSubscription
    by (intro send_subscription_good [OF ok]) (simp_all add: attaches_def)
next
  case (Recording r m b)
  show ?thesis
    unfolding Recording run_task.simps using t Recording by (intro record_subscription_good [OF ok]) auto
next
  case (Routing s m)
  show ?thesis
    unfolding Routing run_task.simps using t Routing by (intro route_message_good [OF ok]) (auto simp: sub_key_def)
next
  case CheckingSanity
  then show ?thesis using checkBlockSanity_good [OF ok] sane by simp
next
  case (Subscribing r m)
  show ?thesis
    unfolding Subscribing run_task.simps using t Subscribing pick(2) by (intro handleSubscribe_good [OF ok _ pick(1)]) simp_all
next
  case (Calling r m)
  show ?thesis
    unfolding Calling run_task.simps using t Calling pick(2) by (intro handleRPCCall_good [OF ok _ pick(1)]) simp_all
qed (use t ok in \<open>simp_all add: handleClientMessage_good getOrCreateWSConnection_good createWSConnection_good handleUnsubscribe_good
  deregister_subscription_good find_connection_good detach_subscription_good send_unsubscription_good
  confirm_unsubscription_good send_call_good pong_received_good pingPongLoop_good handleBackendMessages_good
  forwardBackendMessage_good route_message_good write_message_good handleBlockNotification_good mark_block_good
  notifyBlockSubscribers_good closeWSConnection_good unlist_connection_good removeClient_good drop_subscriptions_ok
  inert_client resetBackendConnections_good closeBackendConnection_good untrack_backend_good Shutdown_clients_good
  Shutdown_connections_good del: purpose_ok.simps\<close>)

section \<open>The machine\<close>

lemma HandleWebSocket_ok:
  assumes "stream_ok co st" and "HandleWebSocket t p st = Some st'"
  shows "stream_ok co st'" and "extends (typing_of co st) (typing_of co st')"
proof -
  define c where "c = \<lparr>CID = generateClientID t, CChain = chain_of p, CSubs = [], Cclosed = False, lastActivity = t, Csent = []\<rparr>"
  define st1 where "st1 = st\<lparr>client_heap := client_heap st @ [c]\<rparr>"
  have st': "st' = st1\<lparr>wclients := AList.update (CID c) (length (client_heap st)) (wclients st1)\<rparr>"
    using assms(2) by (simp add: HandleWebSocket_def Let_def st1_def c_def split: if_splits)
  have e: "extends (typing_of co st) (typing_of co st1)" by (simp add: extends_def typing_of_def st1_def)
  have same: "sub_keys (typing_of co st1) = sub_keys (typing_of co st)" "conn_keys (typing_of co st1) = conn_keys (typing_of co st)"
    by (simp_all add: typing_of_def st1_def)
  have "client_ok co (sub_keys (typing_of co st)) c" by (simp add: client_ok_def c_def)
  then have ok: "stream_ok co st1"
    using assms(1) clients_named_extends [OF e, of "wclients st"] by (auto simp: stream_ok_def same) (auto simp: st1_def)
  have "clients_named (client_keys (typing_of co st1)) (AList.update (CID c) (length (client_heap st)) (wclients st1))"
    using ok_parts(5) [OF ok] keys_simps(6) [of "length (client_heap st)" st1 co]
    by (auto simp: clients_named_def distinct_update st1_def client_key_def dest!: in_update)
  from ok_maps(2) [OF ok this] e show "stream_ok co st'" "extends (typing_of co st) (typing_of co st')" by (simp_all add: st')
qed

lemma starts_ok: "starts st t \<Longrightarrow> task_ok co (typing_of co st) t"
  by (cases t) simp_all

definition machine_ok :: "'f Config \<Rightarrow> stream \<times> task list list \<Rightarrow> bool" where
  "machine_ok co s \<longleftrightarrow> stream_ok co (fst s) \<and> (\<forall>g \<in> set (snd s). list_all (task_ok co (typing_of co (fst s))) g)"

lemma machine_ok_extends:
  assumes "\<forall>g \<in> set ts. list_all (task_ok co T) g" and "extends T T'"
  shows "\<forall>g \<in> set ts. list_all (task_ok co T') g"
  using assms task_ok_extends [OF assms(2)] by (auto simp: list_all_iff)

lemma stream_step_ok:
  assumes "machine_ok co s" and "stream_step F L co fnum G s s'" and len: "length (Backends co) < 2 ^ 64"
  shows "machine_ok co s'"
  using assms(2)
proof (cases rule: stream_step.cases)
  case (run i ts t rest st env st' new)
  have t: "list_all (task_ok co (typing_of co st)) (t # rest)" and ok: "stream_ok co st"
    using assms(1) run(1,3,4) nth_mem by (fastforce simp: machine_ok_def)+
  have "good co (typing_of co st) (run_task co fnum env t st)"
    by (rule run_task_good [OF ok]) (use t picks_ok [OF run(5) len] run(6) in \<open>auto simp del: run_task.simps\<close>)
  then have g: "stream_ok co st'" "extends (typing_of co st) (typing_of co st')" "list_all (task_ok co (typing_of co st')) new"
    using run(6) by simp_all
  have "\<forall>g \<in> set ts. list_all (task_ok co (typing_of co st)) g" using assms(1) run(1) by (simp add: machine_ok_def)
  then have "\<forall>g \<in> set ts. list_all (task_ok co (typing_of co st')) g" by (rule machine_ok_extends [OF _ g(2)])
  moreover have "list_all (task_ok co (typing_of co st')) (new @ rest)"
    using g t task_ok_extends [OF g(2)] by (auto simp: list_all_iff)
  ultimately show ?thesis
    using g(1) run(2) set_update_subset_insert [of ts i "new @ rest"] by (auto simp: machine_ok_def)
next
  case (accept t p st st' ts)
  then show ?thesis
    using HandleWebSocket_ok [of co st t p st'] assms(1) machine_ok_extends by (fastforce simp: machine_ok_def)
next
  case (start st t ts)
  then show ?thesis using assms(1) starts_ok [OF start(3), of co] by (auto simp: machine_ok_def)
qed

interpretation streaming: invariant_machine "(NewStream, [])" "stream_step F L co fnum G"
  "\<lambda>s. length (Backends co) < 2 ^ 64 \<longrightarrow> machine_ok co s" for F L co fnum G
proof
  show "length (Backends co) < 2 ^ 64 \<longrightarrow> machine_ok co (NewStream, [])"
    by (simp add: machine_ok_def stream_ok_def NewStream_def clients_named_def conns_listed_def)
  show "length (Backends co) < 2 ^ 64 \<longrightarrow> machine_ok co s'"
    if "length (Backends co) < 2 ^ 64 \<longrightarrow> machine_ok co s" "stream_step F L co fnum G s s'" for s s'
    using that stream_step_ok by blast
qed

end
