(* ===== verification/Stream_Samples.thy ===== *)
theory Stream_Samples
  imports Stream_Safety
begin

text \<open>
  A run of the stream on a concrete configuration: a chain with a node that only answers requests and one
  that streams, a client that subscribes to logs, and a log that reaches it.
\<close>

definition http_node :: backend where
  "http_node = (sample_backend ''a'' 3)\<lparr>limiter := None\<rparr>"

definition ws_node :: backend where
  "ws_node = (sample_backend ''b'' 7)\<lparr>WSURL := Some ''ws://b'', limiter := None\<rparr>"

definition sample_stream :: "int Config" where
  "sample_stream =
     \<lparr>Sabre = \<lparr>Listen = '':3000'', SMaxAttempts = 2\<rparr>, Health = sample_health, Performance = sample_perf,
      SubscriptionsC = subscriptions_config None, BatchC = batch_config None, MulticallC = sample_cfg,
      CacheC = sample_cache_cfg\<lparr>Chains := [''eth'' \<mapsto> \<lparr>MaxReorgDepth = 64, ChainBlockTime = 12000000000\<rparr>]\<rparr>,
      Backends = [http_node, ws_node], BackendsCt = [''eth'' \<mapsto> 2], Processor = None, HasWebSocket = True\<rparr>"

lemma sample_stream_simps [simp]:
  "Backends sample_stream = [http_node, ws_node]" "SubscriptionsC sample_stream = subscriptions_config None"
  "wsurl sample_stream 0 = None" "wsurl sample_stream (Suc 0) = Some ''ws://b''"
  "chain_at sample_stream 0 = ''eth''" "chain_at sample_stream (Suc 0) = ''eth''"
  by (simp_all add: sample_stream_def wsurl_def chain_at_def http_node_def ws_node_def sample_backend_def)

section \<open>Picks\<close>

definition stream_balancer :: "int balancer" where
  "stream_balancer = NewLoadBalancer sample_floats [http_node, ws_node] 1"

definition stream_picks :: "(nat, unit) pick_env" where
  "stream_picks =
     \<lparr>clock1 = int, clock2 = int, read1 = (!) [http_node, ws_node], read2 = (!) [http_node, ws_node], gone = None\<rparr>"

lemma stream_balancer_simps [simp]:
  "members stream_balancer ''eth'' = [0, 1]" "weights stream_balancer ''eth'' = [10, 10]"
  "members stream_balancer [] = []" "weights stream_balancer [] = []" "seed stream_balancer = 1"
  by (simp_all add: stream_balancer_def NewLoadBalancer_def Let_def upt_rec http_node_def ws_node_def sample_backend_def
      sample_floats_def)

lemma picksI:
  assumes "members bl = members (NewLoadBalancer F (Backends co) (seed bl))"
    and "pickBackend F L pe chain (bl, lims) = r" and "length (weights bl chain) = length (members bl chain)"
    and "\<forall>j < length (members bl chain). WSURL (read1 pe j) = wsurl co (members bl chain ! j)
      \<and> WSURL (read2 pe j) = wsurl co (members bl chain ! j)"
  shows "picks F L co chain r"
  using assms unfolding picks_def by blast

lemma stream_balancer_members:
  "members stream_balancer = members (NewLoadBalancer sample_floats (Backends sample_stream) (seed stream_balancer))"
  by (simp add: stream_balancer_def NewLoadBalancer_def Let_def)

lemma picks_ws: "picks sample_floats sample_limiter sample_stream ''eth'' (Done 1)"
proof -
  have "PickAtLeast sample_floats sample_limiter stream_picks stream_picks ''eth'' ''ws'' 0 (stream_balancer, (\<lambda>_. 0))
      = (Done 1, stream_balancer, (\<lambda>_. 0))"
    by (simp add: PickAtLeast_def pick_once_def select_ready_def Let_def upt_rec stream_picks_def candidate_def
        http_node_def ws_node_def sample_backend_def)
  then have "pickBackend sample_floats sample_limiter stream_picks ''eth'' (stream_balancer, (\<lambda>_. 0)) = Done 1"
    by (simp add: pickBackend_def Pick_def)
  then show ?thesis
    by (rule picksI [OF stream_balancer_members])
      (auto simp: less_Suc_eq stream_picks_def http_node_def ws_node_def sample_backend_def)
qed

definition no_chain :: "(string, nat) outcome" where
  "no_chain = Fail (''no backends for chain '' @ quoted [])"

lemma picks_none: "picks sample_floats sample_limiter sample_stream [] no_chain"
proof -
  have "pickBackend sample_floats sample_limiter stream_picks [] (stream_balancer, (\<lambda>_. 0)) = no_chain"
    by (simp add: pickBackend_def Pick_def PickAtLeast_def no_chain_def)
  then show ?thesis by (rule picksI [OF stream_balancer_members]) simp_all
qed

section \<open>Driving one goroutine\<close>

definition env_at :: "int \<Rightarrow> (string, nat) outcome \<Rightarrow> ws_env" where
  "env_at t p = \<lparr>env_now = t, env_dial = True, env_write = (\<lambda>_. True), env_pick = p\<rparr>"

definition sample_num :: "string \<Rightarrow> string" where
  "sample_num l = l"

abbreviation sample_step :: "stream \<times> task list list \<Rightarrow> stream \<times> task list list \<Rightarrow> bool" where
  "sample_step \<equiv> stream_step sample_floats sample_limiter sample_stream sample_num 4"

text \<open>The sections of one goroutine, one after the other, at the given times.\<close>

fun drive :: "int list \<Rightarrow> stream \<times> task list \<Rightarrow> (stream \<times> task list) option" where
  "drive [] s = Some s"
| "drive (t # ticks) (st, tk # rest) =
     (let w = wanted sample_stream st tk in
      if w \<noteq> [] \<and> w \<noteq> ''eth'' then None
      else
        (case run_task sample_stream sample_num (env_at t (if w = [] then no_chain else Done 1)) tk st of
           Done (st', new) \<Rightarrow> drive ticks (st', new @ rest)
         | _ \<Rightarrow> None))"
| "drive (t # ticks) s = None"

lemma drive_steps: "drive ticks (st, g) = Some (st', g') \<Longrightarrow> sample_step\<^sup>*\<^sup>* (st, gs @ [g]) (st', gs @ [g'])"
proof (induction ticks "(st, g)" arbitrary: st g rule: drive.induct)
  case (2 t ticks st tk rest)
  let ?w = "wanted sample_stream st tk"
  let ?env = "env_at t (if ?w = [] then no_chain else Done 1)"
  have w: "?w = [] \<or> ?w = ''eth''" using "2.prems" by (simp add: Let_def split: if_splits)
  then obtain st1 new where r: "run_task sample_stream sample_num ?env tk st = Done (st1, new)"
    and d: "drive ticks (st1, new @ rest) = Some (st', g')"
    using "2.prems" by (cases "run_task sample_stream sample_num ?env tk st") (auto simp: Let_def simp del: run_task.simps)
  have "picks sample_floats sample_limiter sample_stream ?w (env_pick ?env)"
    using w picks_ws picks_none by (auto simp: env_at_def)
  then have "sample_step (st, gs @ [tk # rest]) (st1, (gs @ [tk # rest])[length gs := new @ rest])"
    using r by (intro stream_step.run [where i = "length gs"]) auto
  moreover have "sample_step\<^sup>*\<^sup>* (st1, gs @ [new @ rest]) (st', gs @ [g'])"
    using "2.hyps" [OF refl _ r refl d] w by auto
  ultimately show ?case by simp
qed simp_all

text \<open>A goroutine that starts while the others have ended.\<close>

lemma started_steps:
  assumes "sample_step\<^sup>*\<^sup>* s (st, gs)" and "starts st t" and "\<forall>g \<in> set gs. g = []" and "drive ticks (st, [t]) = Some (st', g')"
  shows "sample_step\<^sup>*\<^sup>* s (st', gs @ [g'])"
proof -
  have "busy gs = 0" using assms(3) by (simp add: busy_def filter_empty_conv)
  then have "sample_step (st, gs) (st, gs @ [[t]])" using assms(2) by (intro stream_step.start) simp_all
  then show ?thesis using assms(1) drive_steps [OF assms(4)] by (meson rtranclp.rtrancl_into_rtrancl rtranclp_trans)
qed

section \<open>A subscription to logs, and a log\<close>

definition logs_request :: Message where
  "logs_request = request_message (Some (JNum ''1'')) ''eth_subscribe'' (Some (JArr [JStr ''logs'', JObj []]))"

definition log_message :: Message where
  "log_message = request_message None ''eth_subscription'' (Some (JArr [JStr ''0x7'', JObj [(''data'', JStr ''0x'')]]))"

definition client_joined :: stream where
  "client_joined = the (HandleWebSocket 5 ''/eth'' NewStream)"

definition logs_sub :: Subscription where
  "logs_sub =
     \<lparr>SubID = ''0x7'', SubMethod = ''eth_subscribe'', SubParams = Some (JArr [JStr ''logs'', JObj []]),
      ClientID = ''client_5'', SubBackend = 1, Created = 7\<rparr>"

definition subscribed :: stream where
  "subscribed =
     \<lparr>connections = [(''ws://b'', [0])], subscriptions = [(''0x7'', 0)], wclients = [(''client_5'', 0)], delivered = [],
      lastBlockTime = [], sub_heap = [logs_sub],
      conn_heap = [\<lparr>WBackend = 1, WSubs = [(''0x7'', 0)], Wclosed = False, lastPing = 7, lastPong = 7, messageCount = 0,
                    Wsent = [logs_request]\<rparr>],
      client_heap = [\<lparr>CID = ''client_5'', CChain = ''eth'', CSubs = [(''0x7'', 0)], Cclosed = False, lastActivity = 7,
                      Csent = [result_message (Some (JNum ''1'')) (JStr ''0x7'')]\<rparr>]\<rparr>"

lemma sample_ids:
  "generateSubscriptionID 7 = ''0x7''" "generateClientID 5 = ''client_5''" "jstring ''0x7'' = JStr ''0x7''"
  "chain_of ''/eth'' = ''eth''"
  by code_simp+

lemma client_joined_eq:
  "HandleWebSocket 5 ''/eth'' NewStream = Some client_joined"
  "client_joined = NewStream\<lparr>client_heap := [\<lparr>CID = ''client_5'', CChain = ''eth'', CSubs = [], Cclosed = False,
      lastActivity = 5, Csent = []\<rparr>], wclients := [(''client_5'', 0)]\<rparr>"
  by (simp_all add: client_joined_def HandleWebSocket_def Let_def NewStream_def sample_ids)

lemma logs_run:
  "drive [7, 7, 7, 7, 7, 7, 7, 7, 7] (client_joined, [Dispatching 0 logs_request]) = Some (subscribed, [])"
  by (simp add: client_joined_eq(2) NewStream_def handleClientMessage_def logs_request_def request_message_def upd_client_def
      handleSubscribe_def env_at_def record_subscription_def sample_ids
      register_subscription_def getOrCreateWSConnection_def with_url_def conns_at_def choose_connection_def
      subscriptions_config_def createWSConnection_def Let_def attach_subscription_def upd_conn_def send_subscription_def
      sendMessage_def sendToClient_def subscribed_def logs_sub_def result_message_def)

definition received :: stream where
  "received = upd_conn 0 (\<lambda>w. w\<lparr>messageCount := 1\<rparr>) subscribed"

lemma log_run:
  "drive [9, 9, 9] (subscribed, [Receiving 0 log_message]) = Some (received, [Writing 0 0 log_message])"
  by (simp add: handleBackendMessages_def forwardBackendMessage_def log_message_def request_message_def subscribed_to_def
      route_message_def received_def subscribed_def upd_conn_def logs_sub_def as_any_slice_def Let_def json_eval)

lemma reach_subscribed: "sample_step\<^sup>*\<^sup>* (NewStream, []) (subscribed, [[]])"
proof -
  have "sample_step\<^sup>*\<^sup>* (NewStream, []) (client_joined, [])" using stream_step.accept [OF client_joined_eq(1)] by blast
  from started_steps [OF this _ _ logs_run] show ?thesis by (simp add: client_joined_eq(2))
qed

lemma reach_received: "sample_step\<^sup>*\<^sup>* (NewStream, []) (received, [[], [Writing 0 0 log_message]])"
  using started_steps [OF reach_subscribed _ _ log_run] by (simp add: subscribed_def)

end
