(* ===== verification/Stream_Isolation.thy ===== *)
theory Stream_Isolation
  imports Stream_Samples
begin

text \<open>
  What the clients are sent: the answer to a subscription goes to the client that asked for it.
\<close>

section \<open>What a section writes to clients\<close>

text \<open>Every client keeps what it was sent and gets only messages that are allowed.\<close>

definition delivers :: "(nat \<Rightarrow> Message \<Rightarrow> bool) \<Rightarrow> stream \<Rightarrow> stream \<Rightarrow> bool" where
  "delivers P st st' \<longleftrightarrow>
     length (client_heap st) \<le> length (client_heap st')
     \<and> (\<forall>r < length (client_heap st). \<exists>new. Csent (the_client st' r) = Csent (the_client st r) @ new \<and> (\<forall>m \<in> set new. P r m))"

lemma delivers_refl [simp]: "delivers P st st"
  by (simp add: delivers_def)

lemma delivers_trans:
  assumes "delivers P st st1" and "delivers P st1 st2"
  shows "delivers P st st2"
  unfolding delivers_def
proof (intro conjI allI impI)
  show "length (client_heap st) \<le> length (client_heap st2)" using assms by (simp add: delivers_def)
  fix r assume r: "r < length (client_heap st)"
  obtain n1 where 1: "Csent (the_client st1 r) = Csent (the_client st r) @ n1" "\<forall>m \<in> set n1. P r m"
    using assms(1) r unfolding delivers_def by blast
  have "r < length (client_heap st1)" using assms(1) r by (simp add: delivers_def)
  then obtain n2 where 2: "Csent (the_client st2 r) = Csent (the_client st1 r) @ n2" "\<forall>m \<in> set n2. P r m"
    using assms(2) unfolding delivers_def by blast
  show "\<exists>new. Csent (the_client st2 r) = Csent (the_client st r) @ new \<and> (\<forall>m \<in> set new. P r m)"
    using 1 2 by (intro exI [of _ "n1 @ n2"]) auto
qed

lemma delivers_same: "client_heap st' = client_heap st \<Longrightarrow> delivers P st st'"
  by (simp add: delivers_def)

lemma delivers_upd:
  assumes "\<And>c. \<exists>new. Csent (f c) = Csent c @ new \<and> (\<forall>m \<in> set new. P r m)"
  shows "delivers P st (upd_client r f st)"
  unfolding delivers_def
proof (intro conjI allI impI)
  fix i assume i: "i < length (client_heap st)"
  show "\<exists>new. Csent (the_client (upd_client r f st) i) = Csent (the_client st i) @ new \<and> (\<forall>m \<in> set new. P i m)"
    using assms [of "the_client st r"] i by (cases "i = r") (simp_all add: upd_client_def)
qed simp

lemma delivers_client:
  assumes "delivers P st st1" and "\<And>c. Csent (f c) = Csent c"
  shows "delivers P st (upd_client r f st1)"
  by (rule delivers_trans [OF assms(1) delivers_upd]) (simp add: assms(2))

lemma delivers_message:
  assumes "delivers P st st1" and "P r m"
  shows "delivers P st (sendToClient r m st1)"
  unfolding sendToClient_def by (rule delivers_trans [OF assms(1) delivers_upd]) (simp add: assms(2))

lemma delivers_error: "delivers P st st1 \<Longrightarrow> P r (error_message i c msg) \<Longrightarrow> delivers P st (sendError r i c msg st1)"
  by (simp add: sendError_def delivers_message)

lemma delivers_fold:
  assumes "\<And>x st. delivers P st (f x st)"
  shows "delivers P st (fold f xs st)"
  by (induction xs arbitrary: st) (auto intro: delivers_trans assms)

lemma client_heap_sendMessage [simp]: "client_heap (snd (sendMessage ok k m st)) = client_heap st"
  by (simp add: sendMessage_def)

lemma client_heap_migrate [simp]: "client_heap (migrate ok n nb k old ss st) = client_heap st"
  by (induction ss arbitrary: n st) (auto simp: Let_def split: option.splits)

text \<open>A test of the clients that what they were sent does not change.\<close>

lemma delivers_broadcast:
  assumes test: "\<And>st r r' m. Q (sendToClient r' m st) r = Q st r"
    and "\<And>r. Q st r \<Longrightarrow> P r m"
  shows "delivers P st (broadcast Q m st)"
proof -
  have "delivers P st0 (fold (\<lambda>(i, r) st. if Q st r then sendToClient r m st else st) xs st0)"
    if "\<forall>r. Q st0 r = Q st r" for xs st0
    using that
  proof (induction xs arbitrary: st0)
    case (Cons x xs)
    obtain i r where x: "x = (i, r)" by fastforce
    let ?st1 = "if Q st0 r then sendToClient r m st0 else st0"
    have "delivers P st0 ?st1" using Cons.prems assms(2) by (auto intro: delivers_message)
    moreover have "\<forall>r. Q ?st1 r = Q st r" using Cons.prems test by simp
    ultimately show ?case using delivers_trans [OF _ Cons.IH [of ?st1]] by (simp add: x)
  qed simp
  note all = this
  show ?thesis unfolding broadcast_def by (rule all) simp
qed

lemma test_closed: "\<not> Cclosed (the_client (sendToClient r' m st) r) \<longleftrightarrow> \<not> Cclosed (the_client st r)"
  by (cases "r = r'"; cases "r < length (client_heap st)")
    (simp_all add: sendToClient_def upd_client_def nth_list_update list_update_beyond)

lemma test_heads: "wants_heads chain (sendToClient r' m st) r = wants_heads chain st r"
  by (cases "r = r'"; cases "r < length (client_heap st)")
    (simp_all add: wants_heads_def sendToClient_def upd_client_def nth_list_update list_update_beyond)

section \<open>Every task\<close>

text \<open>The messages a task may write to a client.\<close>

definition may_send :: "stream \<Rightarrow> task \<Rightarrow> nat \<Rightarrow> Message \<Rightarrow> bool" where
  "may_send st t r m \<longleftrightarrow>
     MMethod m \<noteq> ''eth_subscription''
     \<or> (\<exists>s. t = Writing r s m) \<or> (\<exists>chain d. t = Notifying chain d \<and> m = notification d \<and> wants_heads chain st r)"

lemma may_send_plain [simp]:
  "may_send st t r (error_message i c msg)" "may_send st t r (result_message i v)"
  by (simp_all add: may_send_def error_message_def result_message_def)

lemma not_connected_delivers: "delivers (may_send st0 t) st (not_connected p st)"
  by (cases p) (simp_all add: delivers_error)

lemma run_task_delivers:
  assumes "run_task co fnum env t st = Done (st', new)"
  shows "delivers (may_send st t) st st'"
proof (cases t)
  case (Forwarding k m)
  then show ?thesis
    using assms
    by (auto simp: forwardBackendMessage_def may_send_def delivers_broadcast [OF test_closed]
        split: if_splits option.splits list.splits json.splits)
next
  case (Notifying chain d)
  then have "st' = broadcast (wants_heads chain) (notification d) st" using assms by (simp add: notifyBlockSubscribers_def)
  moreover have "may_send st t r (notification d)" if "wants_heads chain st r" for r
    using that Notifying by (simp add: may_send_def)
  ultimately show ?thesis using delivers_broadcast [where Q = "wants_heads chain", OF test_heads] by blast
next
  case (Writing r s m)
  then show ?thesis
    using assms by (auto simp: write_message_def may_send_def intro!: delivers_message split: if_splits)
next
  case (Choosing p b snap)
  then show ?thesis
    using assms not_connected_delivers by (auto simp: choose_connection_def split: option.splits if_splits)
next
  case (Dialing p b)
  then show ?thesis
    using assms
    by (auto simp: createWSConnection_def with_url_def Let_def intro: not_connected_delivers delivers_same split: option.splits if_splits)
qed (use assms in \<open>auto simp: handleClientMessage_def handleSubscribe_def record_subscription_def register_subscription_def
   getOrCreateWSConnection_def attach_subscription_def send_subscription_def handleUnsubscribe_def deregister_subscription_def
   find_connection_def detach_subscription_def send_unsubscription_def confirm_unsubscription_def handleRPCCall_def send_call_def
   pong_received_def pingPongLoop_def handleBackendMessages_def route_message_def handleBlockNotification_def mark_block_def
   markDelivered_def closeWSConnection_def unlist_connection_def drop_subscriptions_def removeClient_def checkBlockSanity_def
   resetBackendConnections_def pick_new_def find_old_def migrate_subscriptions_def closeBackendConnection_def untrack_backend_def
   Shutdown_clients_def Shutdown_connections_def with_url_def sendMessage_def Let_def
   intro!: delivers_error delivers_message delivers_client delivers_fold intro: delivers_same
   split: option.splits outcome.splits if_splits prod.splits elim!: obind_DoneE\<close>)

lemma backend_with_no_panic: "\<forall>b \<in> set bs. WSURL b \<noteq> None \<Longrightarrow> backend_with chain u i bs \<noteq> Panic"
  by (induction chain u i bs rule: backend_with.induct) (auto split: option.splits)

lemma checkBlockSanity_no_panic:
  assumes "\<forall>b < length (Backends co). wsurl co b \<noteq> None"
  shows "checkBlockSanity co t st \<noteq> Panic"
proof -
  have urls: "\<forall>b \<in> set (Backends co). WSURL b \<noteq> None" using assms by (auto simp: wsurl_def in_set_conv_nth)
  have "stale_backends co t st xs \<noteq> Panic" for xs
  proof (induction xs)
    case (Cons x xs)
    obtain key t0 where x: "x = (key, t0)" by fastforce
    have "obind (backend_with c u 0 (Backends co)) (\<lambda>found. obind (stale_backends co t st xs) (\<lambda>bs. Done (g found bs))) \<noteq> Panic"
      for c u and g :: "nat option \<Rightarrow> nat list \<Rightarrow> nat list"
      using backend_with_no_panic [OF urls] Cons
      by (intro obind_neq_Panic) simp_all
    then show ?case using Cons.IH by (auto simp: x split: option.splits)
  qed simp
  then show ?thesis unfolding checkBlockSanity_def by (intro obind_neq_Panic) simp_all
qed

section \<open>What holds under every interleaving\<close>

lemma sub_map_member:
  assumes "sub_map (sub_keys (typing_of co st)) P al" and "x \<in> set al"
  shows "snd x < length (sub_heap st) \<and> fst (sub_key co (the_sub st (snd x))) = fst x \<and> P (snd (sub_key co (the_sub st (snd x))))"
  using assms by (auto simp: sub_map_def)

text \<open>
  C13. However the handlers of clients, of messages and of timers interleave, the maps of the stream agree with
  the objects they name: a client holds subscriptions made for it, under their own identifiers; a
  connection streams from a backend that can stream, and is listed once, under the URL of its backend;
  and when no URL serves two chains, the subscriptions of a client, and those of a connection, are held
  with backends of its chain, also after they were moved away from a stale backend.
\<close>

theorem stream_consistent:
  assumes "(stream_step F L co fnum G)\<^sup>*\<^sup>* (NewStream, []) (st, ts)" and "length (Backends co) < 2 ^ 64"
  shows "(\<forall>c \<in> set (client_heap st). \<forall>x \<in> set (CSubs c). snd x < length (sub_heap st)
        \<and> SubID (the_sub st (snd x)) = fst x \<and> ClientID (the_sub st (snd x)) = CID c
        \<and> (one_chain_urls co \<longrightarrow> chain_at co (SubBackend (the_sub st (snd x))) = CChain c))
    \<and> (\<forall>w \<in> set (conn_heap st). wsurl co (WBackend w) \<noteq> None
        \<and> (\<forall>x \<in> set (WSubs w). snd x < length (sub_heap st) \<and> SubID (the_sub st (snd x)) = fst x
              \<and> (one_chain_urls co \<longrightarrow> chain_at co (SubBackend (the_sub st (snd x))) = chain_at co (WBackend w))))
    \<and> (\<forall>x \<in> set (subscriptions st). snd x < length (sub_heap st) \<and> SubID (the_sub st (snd x)) = fst x)
    \<and> (\<forall>x \<in> set (wclients st). snd x < length (client_heap st) \<and> CID (the_client st (snd x)) = fst x)
    \<and> (\<forall>x \<in> set (connections st). distinct (snd x)
        \<and> (\<forall>k \<in> set (snd x). k < length (conn_heap st) \<and> wsurl co (WBackend (the_conn st k)) = Some (fst x)))"
proof -
  have ok: "stream_ok co st" using streaming.reachable [OF assms(1)] assms(2) by (simp add: machine_ok_def)
  have clients: "snd x < length (sub_heap st) \<and> SubID (the_sub st (snd x)) = fst x \<and> ClientID (the_sub st (snd x)) = CID c
      \<and> (one_chain_urls co \<longrightarrow> chain_at co (SubBackend (the_sub st (snd x))) = CChain c)"
    if "c \<in> set (client_heap st)" "x \<in> set (CSubs c)" for c x
  proof -
    have "client_ok co (sub_keys (typing_of co st)) c" using ok that(1) by (simp add: stream_ok_def list_all_iff)
    from sub_map_member [OF this [unfolded client_ok_def] that(2)] show ?thesis
      by (auto simp: sub_key_def client_key_def backend_tag_def chain_tag_def)
  qed
  have conns: "wsurl co (WBackend w) \<noteq> None
      \<and> (\<forall>x \<in> set (WSubs w). snd x < length (sub_heap st) \<and> SubID (the_sub st (snd x)) = fst x
            \<and> (one_chain_urls co \<longrightarrow> chain_at co (SubBackend (the_sub st (snd x))) = chain_at co (WBackend w)))"
    if "w \<in> set (conn_heap st)" for w
  proof -
    have w: "conn_ok co (sub_keys (typing_of co st)) w" using ok that by (simp add: stream_ok_def list_all_iff)
    show ?thesis
      using w sub_map_member [OF conjunct2 [OF w [unfolded conn_ok_def]]]
      by (auto simp: conn_ok_def ws_backend_def sub_key_def backend_tag_def chain_tag_def)
  qed
  have subs: "snd x < length (sub_heap st) \<and> SubID (the_sub st (snd x)) = fst x" if "x \<in> set (subscriptions st)" for x
    using sub_map_member [OF ok_parts(4) [OF ok] that] by (simp add: sub_key_def)
  have named: "snd x < length (client_heap st) \<and> CID (the_client st (snd x)) = fst x" if "x \<in> set (wclients st)" for x
    using ok_parts(5) [OF ok] that by (auto simp: clients_named_def client_key_def)
  have listed: "distinct (snd x) \<and> (\<forall>k \<in> set (snd x). k < length (conn_heap st) \<and> wsurl co (WBackend (the_conn st k)) = Some (fst x))"
    if "x \<in> set (connections st)" for x
    using ok_parts(6) [OF ok] that by (fastforce simp: conns_listed_def)
  show ?thesis using clients conns subs named listed by blast
qed

text \<open>
  Where a task on the way of a notification comes from: a message of a backend is passed on for the
  subscription of its own connection that it names, a head under the chain of the backend that sent it, and
  each further task carries on the same.
\<close>

definition head_of :: "(string \<Rightarrow> string) \<Rightarrow> Message \<Rightarrow> json option" where
  "head_of fnum m = (case as_any_slice (MParams m) of Some (l # p # ps) \<Rightarrow> Some (canonical fnum p) | _ \<Rightarrow> None)"

definition names_on :: "stream \<Rightarrow> nat \<Rightarrow> Message \<Rightarrow> nat \<Rightarrow> bool" where
  "names_on st k m s \<longleftrightarrow>
     MMethod m = ''eth_subscription'' \<and> (\<exists>sid. named_sub m = Some sid \<and> map_of (WSubs (the_conn st k)) sid = Some s)"

fun passed_on :: "'f Config \<Rightarrow> (string \<Rightarrow> string) \<Rightarrow> stream \<Rightarrow> task \<Rightarrow> task \<Rightarrow> bool" where
  "passed_on co fnum st t (Routing s m) \<longleftrightarrow> (\<exists>k. t = Forwarding k m \<and> names_on st k m s)"
| "passed_on co fnum st t (Writing r s m) \<longleftrightarrow> t = Routing s m"
| "passed_on co fnum st t (Announced chain b d) \<longleftrightarrow>
     (\<exists>k m s. t = Forwarding k m \<and> names_on st k m s \<and> subscribed_to ''newHeads'' (the_sub st s)
        \<and> b = WBackend (the_conn st k) \<and> chain = chain_at co b \<and> head_of fnum m = Some d)"
| "passed_on co fnum st t (Marking chain num hash d) \<longleftrightarrow>
     (\<exists>b. t = Announced chain b d \<and> ExtractBlockInfo (Some d) = (num, hash))"
| "passed_on co fnum st t (Notifying chain d) \<longleftrightarrow> (\<exists>num hash. t = Marking chain num hash d)"
| "passed_on co fnum st t (Forwarding k m) \<longleftrightarrow> t = Receiving k m"
| "passed_on co fnum st t t' \<longleftrightarrow> True"

lemma passed_on_connected [simp]: "passed_on co fnum st t (connected p b k)"
  by (cases p) simp_all

lemma run_task_passes_on:
  assumes "run_task co fnum env t st = Done (st', new)" and "t' \<in> set new"
  shows "passed_on co fnum st t t'"
proof (cases t)
  case (Forwarding k m)
  then show ?thesis
    using assms
    by (auto simp: forwardBackendMessage_def names_on_def named_sub_def head_of_def chain_at_def neq_Nil_conv
        split: if_splits option.splits list.splits json.splits)
qed (use assms in \<open>auto simp: handleClientMessage_def handleSubscribe_def record_subscription_def register_subscription_def
   getOrCreateWSConnection_def choose_connection_def createWSConnection_def attach_subscription_def send_subscription_def
   handleUnsubscribe_def deregister_subscription_def find_connection_def detach_subscription_def send_unsubscription_def
   confirm_unsubscription_def handleRPCCall_def send_call_def pong_received_def pingPongLoop_def handleBackendMessages_def
   route_message_def write_message_def handleBlockNotification_def mark_block_def notifyBlockSubscribers_def
   closeWSConnection_def unlist_connection_def removeClient_def checkBlockSanity_def resetBackendConnections_def pick_new_def
   find_old_def migrate_subscriptions_def closeBackendConnection_def untrack_backend_def Shutdown_clients_def
   Shutdown_connections_def with_url_def Let_def
   split: option.splits outcome.splits if_splits prod.splits elim!: obind_DoneE\<close>)


text \<open>
  C19. No section of a handler panics: the URLs the handlers read are those of backends that stream. The
  search for stale backends reads those of the configuration, so there each of them has to have one. (What
  the runtime reports for a map that is accessed without its lock is not part of the model.)
\<close>

theorem stream_no_panic:
  assumes "(stream_step F L co fnum G)\<^sup>*\<^sup>* (NewStream, []) (st, ts)" and "length (Backends co) < 2 ^ 64"
    and "i < length ts" and "ts ! i = t # rest" and "picks F L co (wanted co st t) (env_pick env)"
    and "t = CheckingSanity \<longrightarrow> (\<forall>b < length (Backends co). wsurl co b \<noteq> None)"
  shows "\<exists>st' new. run_task co fnum env t st = Done (st', new)"
proof -
  have m: "machine_ok co (st, ts)" using streaming.reachable [OF assms(1)] assms(2) by simp
  then have "\<forall>g \<in> set ts. list_all (task_ok co (typing_of co st)) g" by (simp add: machine_ok_def)
  then have t: "task_ok co (typing_of co st) t" using assms(3,4) nth_mem by fastforce
  have ok: "stream_ok co st" using m by (simp add: machine_ok_def)
  have "run_task co fnum env t st \<noteq> Panic" if "t = CheckingSanity"
    using checkBlockSanity_no_panic [of co "env_now env" st] assms(6) that by simp
  then have "good co (typing_of co st) (run_task co fnum env t st)"
    using run_task_good [OF ok t] picks_ok [OF assms(5,2)] by blast
  then show ?thesis by (cases "run_task co fnum env t st") auto
qed

section \<open>Witnesses\<close>

lemma stream_consistent_witness:
  "subscriptions subscribed = [(''0x7'', 0)] \<and> SubID (the_sub subscribed 0) = ''0x7''
   \<and> ClientID (the_sub subscribed 0) = CID (the_client subscribed 0)
   \<and> chain_at sample_stream (SubBackend (the_sub subscribed 0)) = CChain (the_client subscribed 0)"
proof -
  have one: "one_chain_urls sample_stream"
    by (auto simp: one_chain_urls_def ws_backend_def less_Suc_eq)
  have "\<exists>c \<in> set (client_heap subscribed). c = the_client subscribed 0 \<and> (''0x7'', 0) \<in> set (CSubs c)"
    by (simp add: subscribed_def)
  then have "SubID (the_sub subscribed 0) = ''0x7'' \<and> ClientID (the_sub subscribed 0) = CID (the_client subscribed 0)
      \<and> chain_at sample_stream (SubBackend (the_sub subscribed 0)) = CChain (the_client subscribed 0)"
    using stream_consistent [OF reach_subscribed] one by force
  then show ?thesis by (simp add: subscribed_def)
qed


lemma stream_no_panic_witness:
  "\<exists>st' new. run_task sample_stream sample_num (env_at 9 no_chain) (Writing 0 0 log_message) received = Done (st', new)"
  using stream_no_panic [OF reach_received, of 1 "Writing 0 0 log_message" "[]" "env_at 9 no_chain"] picks_none
  by (simp add: env_at_def)

end
