(* ===== verification/Stream_Heads.thy ===== *)
theory Stream_Heads
  imports Stream_Isolation
begin

text \<open>
  The heads a stream delivers: which headers are news, how many heights are remembered, and how often the
  backends are checked for having gone quiet.
\<close>

section \<open>News\<close>

text \<open>
  The headers of all chains in the order in which they are marked; marking holds one lock, so there is such
  an order under every interleaving.
\<close>

definition mark_all :: "'f Config \<Rightarrow> (string \<times> u64 \<times> string) list \<Rightarrow> stream \<Rightarrow> stream" where
  "mark_all co heads st = fold (\<lambda>(c, n, h) st. snd (markDelivered co c n h st)) heads st"

text \<open>The hash last marked at a height of a chain.\<close>

definition last_hash :: "(string \<times> u64 \<times> string) list \<Rightarrow> string \<Rightarrow> u64 \<Rightarrow> string option" where
  "last_hash heads c n = map_of (rev (map (\<lambda>(c, n, h). ((c, n), h)) heads)) (c, n)"

definition reorg_depth :: "'f Config \<Rightarrow> string \<Rightarrow> nat" where
  "reorg_depth co c = unat (ReorgDepth (CacheC co) c)"

text \<open>No header of the chain lies more than the reorganization depth above the height.\<close>

definition in_window :: "'f Config \<Rightarrow> (string \<times> u64 \<times> string) list \<Rightarrow> string \<Rightarrow> u64 \<Rightarrow> bool" where
  "in_window co heads c n \<longleftrightarrow> (\<forall>(c', n', h') \<in> set heads. c' = c \<longrightarrow> unat n' \<le> unat n + reorg_depth co c)"

lemma last_hash_Nil [simp]: "last_hash [] c n = None"
  by (simp add: last_hash_def)

lemma last_hash_snoc [simp]:
  "last_hash (heads @ [(c', n', h)]) c n = (if c' = c \<and> n' = n then Some h else last_hash heads c n)"
  by (simp add: last_hash_def)

lemma in_window_snoc [simp]:
  "in_window co (heads @ [(c', n', h)]) c n \<longleftrightarrow> in_window co heads c n \<and> (c' = c \<longrightarrow> unat n' \<le> unat n + reorg_depth co c)"
  by (auto simp: in_window_def)

lemma map_of_filter_key:
  "map_of (filter (\<lambda>x. P (fst x)) al) k = (if P k then map_of al k else None)"
  by (induction al) auto

lemma heights_of_mark:
  "heights_of c (snd (markDelivered co c' n h st))
     = (if c = c' then snd (mark_height (ReorgDepth (CacheC co) c) n h (heights_of c st)) else heights_of c st)"
  by (simp add: markDelivered_def heights_of_def AList.update_conv' split: prod.splits)

lemma mark_news: "fst (markDelivered co c n h st) = fst (mark_height (ReorgDepth (CacheC co) c) n h (heights_of c st))"
  by (simp add: markDelivered_def split: prod.splits)

text \<open>The heights remembered for a chain agree with what was last marked, and miss none in the window.\<close>

definition heights_ok :: "'f Config \<Rightarrow> (string \<times> u64 \<times> string) list \<Rightarrow> string \<Rightarrow> (u64 \<times> string) list \<Rightarrow> bool" where
  "heights_ok co heads c hs \<longleftrightarrow>
     distinct (map fst hs)
     \<and> (\<forall>n h. map_of hs n = Some h \<longrightarrow> last_hash heads c n = Some h)
     \<and> (\<forall>n. in_window co heads c n \<longrightarrow> map_of hs n = last_hash heads c n)"

lemma heights_okD:
  assumes "heights_ok co heads c hs"
  shows "distinct (map fst hs)" and "map_of hs n = Some h \<Longrightarrow> last_hash heads c n = Some h"
    and "in_window co heads c n \<Longrightarrow> map_of hs n = last_hash heads c n"
  using assms unfolding heights_ok_def by blast+

lemma heights_okI:
  assumes "distinct (map fst hs)" and "\<And>n h. map_of hs n = Some h \<Longrightarrow> last_hash heads c n = Some h"
    and "\<And>n. in_window co heads c n \<Longrightarrow> map_of hs n = last_hash heads c n"
  shows "heights_ok co heads c hs"
  using assms unfolding heights_ok_def by blast

lemma mark_height_ok:
  assumes ok: "heights_ok co heads c hs" and h: "h \<noteq> []"
  shows "heights_ok co (heads @ [(c, n, h)]) c (snd (mark_height (ReorgDepth (CacheC co) c) n h hs))"
proof (cases "map_of hs n = Some h")
  case True
  then have "snd (mark_height (ReorgDepth (CacheC co) c) n h hs) = hs" by (simp add: mark_height_def)
  moreover have "heights_ok co (heads @ [(c, n, h)]) c hs"
  proof (rule heights_okI)
    show "distinct (map fst hs)" by (rule heights_okD [OF ok])
    show "last_hash (heads @ [(c, n, h)]) c k = Some v" if "map_of hs k = Some v" for k v
      using heights_okD(2) [OF ok that] that True by (cases "n = k") (simp_all only: last_hash_snoc, simp_all)
    show "map_of hs k = last_hash (heads @ [(c, n, h)]) c k" if "in_window co (heads @ [(c, n, h)]) c k" for k
      using heights_okD(3) [OF ok, of k] that True by auto
  qed
  ultimately show ?thesis by simp
next
  case False
  let ?d = "ReorgDepth (CacheC co) c" and ?hs = "AList.update n h hs"
  have new: "(case map_of hs n of None \<Rightarrow> [] | Some h \<Rightarrow> h) \<noteq> h" using False h by (auto split: option.splits)
  have upd: "map_of ?hs = (map_of hs)(n \<mapsto> h)" "distinct (map fst ?hs)"
    using heights_okD(1) [OF ok] by (simp_all add: AList.update_conv' distinct_update)
  have base: "heights_ok co (heads @ [(c, n, h)]) c ?hs"
    using heights_okD [OF ok] upd by (intro heights_okI) (auto split: if_splits)
  show ?thesis
  proof (cases "?d < of_nat (length ?hs) \<and> ?d < n")
    case False
    then have "snd (mark_height ?d n h hs) = ?hs" using new by (auto simp: mark_height_def Let_def)
    then show ?thesis using base by simp
  next
    case True
    then have f: "snd (mark_height ?d n h hs) = filter (\<lambda>x. \<not> fst x < n - ?d) ?hs" using new by (simp add: mark_height_def Let_def)
    have kept: "\<not> k < n - ?d" if "in_window co (heads @ [(c, n, h)]) c k" for k
    proof -
      have "unat n \<le> unat k + unat ?d" using that by (simp add: reorg_depth_def)
      moreover have "unat (n - ?d) = unat n - unat ?d" using True unat_sub [of ?d n] by auto
      ultimately show ?thesis by (simp add: word_less_nat_alt)
    qed
    show ?thesis unfolding f
    proof (rule heights_okI)
      show "distinct (map fst (filter (\<lambda>x. \<not> fst x < n - ?d) ?hs))" using heights_okD(1) [OF base] by (rule distinct_map_filter)
      show "last_hash (heads @ [(c, n, h)]) c k = Some v"
        if "map_of (filter (\<lambda>x. \<not> fst x < n - ?d) ?hs) k = Some v" for k v
        using that heights_okD(2) [OF base, of k v] map_of_filter_key [of "\<lambda>k. \<not> k < n - ?d" ?hs k]
        by (simp split: if_splits)
      show "map_of (filter (\<lambda>x. \<not> fst x < n - ?d) ?hs) k = last_hash (heads @ [(c, n, h)]) c k"
        if "in_window co (heads @ [(c, n, h)]) c k" for k
        using kept [OF that] heights_okD(3) [OF base that] map_of_filter_key [of "\<lambda>k. \<not> k < n - ?d" ?hs k] by simp
    qed
  qed
qed

lemma mark_all_ok:
  assumes "\<forall>(c, n, h) \<in> set heads. h \<noteq> []"
  shows "heights_ok co heads c (heights_of c (mark_all co heads NewStream))"
  using assms
proof (induction heads rule: rev_induct)
  case Nil
  then show ?case by (simp add: mark_all_def heights_ok_def heights_of_def NewStream_def)
next
  case (snoc x heads)
  obtain c' n h where x: "x = (c', n, h)" by (cases x)
  have IH: "heights_ok co heads c (heights_of c (mark_all co heads NewStream))" and h: "h \<noteq> []"
    using snoc by (auto simp: x)
  have step: "mark_all co (heads @ [x]) NewStream = snd (markDelivered co c' n h (mark_all co heads NewStream))"
    by (simp add: mark_all_def x)
  show ?case
  proof (cases "c = c'")
    case True
    then show ?thesis using mark_height_ok [OF IH h] unfolding step heights_of_mark unfolding x by simp
  next
    case False
    then show ?thesis using heights_okD [OF IH] unfolding step heights_of_mark unfolding x by (intro heights_okI) auto
  qed
qed

text \<open>
  C20. The heads of a chain are delivered once. Whatever headers the backends of all chains sent, in whatever
  order, a header is delivered if its hash is not the one last delivered at its height, so that a block
  that replaces another is; and as long as no header of the chain lies more than the reorganization
  depth above it, it is delivered only then, so that the copies of the other backends are not.
\<close>

theorem heads_delivered_once:
  assumes "\<forall>(c, n, h) \<in> set heads. h \<noteq> []" and "hash \<noteq> []"
  shows "(last_hash heads c num \<noteq> Some hash \<longrightarrow> fst (markDelivered co c num hash (mark_all co heads NewStream)))
    \<and> (in_window co heads c num \<longrightarrow>
         (fst (markDelivered co c num hash (mark_all co heads NewStream)) \<longleftrightarrow> last_hash heads c num \<noteq> Some hash))"
proof -
  let ?hs = "heights_of c (mark_all co heads NewStream)"
  have ok: "heights_ok co heads c ?hs" by (rule mark_all_ok [OF assms(1)])
  have "fst (markDelivered co c num hash (mark_all co heads NewStream)) \<longleftrightarrow> map_of ?hs num \<noteq> Some hash"
    using assms(2) by (auto simp: mark_news mark_height_def Let_def split: option.splits)
  then show ?thesis using heights_okD(2) [OF ok, of num hash] heights_okD(3) [OF ok, of num] by metis
qed

text \<open>
  Memory of the delivered heads is bounded. Right after a header that is news and lies above all
  headers of its chain before it, at most one height more than the reorganization depth is remembered,
  and none below that depth when more are.
\<close>

theorem heights_bounded:
  assumes "\<forall>(c, n, h) \<in> set heads. h \<noteq> []" and "hash \<noteq> []"
    and "\<forall>(c', n, h) \<in> set heads. c' = c \<longrightarrow> n \<le> num"
    and "fst (markDelivered co c num hash (mark_all co heads NewStream))" and "unat num < 2 ^ 64 - 1"
  shows "length (heights_of c (snd (markDelivered co c num hash (mark_all co heads NewStream)))) \<le> reorg_depth co c + 1"
proof -
  let ?st = "mark_all co heads NewStream" and ?d = "ReorgDepth (CacheC co) c"
  let ?hs = "AList.update num hash (heights_of c ?st)"
  define hs' where "hs' = heights_of c (snd (markDelivered co c num hash ?st))"
  have mark: "hs' = (if ?d < of_nat (length ?hs) \<and> ?d < num then filter (\<lambda>x. \<not> fst x < num - ?d) ?hs else ?hs)"
    using assms(4) by (simp add: hs'_def heights_of_mark mark_news mark_height_def Let_def split: if_splits)
  have ok: "heights_ok co (heads @ [(c, num, hash)]) c hs'"
    unfolding hs'_def heights_of_mark using mark_height_ok [OF mark_all_ok [OF assms(1)] assms(2)] by simp
  have top: "unat k \<le> unat num" if k: "k \<in> fst ` set hs'" for k
  proof -
    obtain h where "map_of hs' k = Some h" using k by (metis map_of_eq_None_iff not_None_eq)
    then have "last_hash (heads @ [(c, num, hash)]) c k = Some h" using ok by (auto simp: heights_ok_def)
    then have "k = num \<or> (\<exists>h. (c, k, h) \<in> set heads)"
      by (auto simp: last_hash_def split: if_splits dest!: map_of_SomeD)
    then show ?thesis using assms(3) by (auto simp: word_le_nat_alt)
  qed
  have len: "length hs' = card (unat ` fst ` set hs')"
    using distinct_card [OF heights_okD(1) [OF ok]]
    by (simp add: card_image inj_on_inverseI [where g = "of_nat :: nat \<Rightarrow> u64"])
  show ?thesis
  proof (cases "?d < num")
    case False
    then have "unat ` fst ` set hs' \<subseteq> {..reorg_depth co c}"
      using top by (fastforce simp: reorg_depth_def word_less_nat_alt)
    then have "card (unat ` fst ` set hs') \<le> card {..reorg_depth co c}" by (intro card_mono) simp_all
    then show ?thesis using len hs'_def by simp
  next
    case True
    show ?thesis
    proof (cases "?d < of_nat (length ?hs)")
      case True
      have "unat (num - ?d) = unat num - reorg_depth co c"
        using \<open>?d < num\<close> unat_sub [of ?d num] by (simp add: reorg_depth_def)
      moreover have "\<not> k < num - ?d" if "k \<in> fst ` set hs'" for k using that mark True \<open>?d < num\<close> by auto
      ultimately have "unat ` fst ` set hs' \<subseteq> {unat num - reorg_depth co c..unat num}"
        using top by (fastforce simp: word_less_nat_alt)
      then have "card (unat ` fst ` set hs') \<le> card {unat num - reorg_depth co c..unat num}" by (intro card_mono) simp_all
      also have "\<dots> \<le> reorg_depth co c + 1" by simp
      finally show ?thesis using len hs'_def by simp
    next
      case False
      then have hs': "hs' = ?hs" using mark by simp
      have "unat ` fst ` set hs' \<subseteq> {..unat num}" using top by auto
      then have "card (unat ` fst ` set hs') \<le> card {..unat num}" by (intro card_mono) simp_all
      then have "length ?hs < 2 ^ 64" using len hs' assms(5) by simp
      then have "length ?hs = unat (of_nat (length ?hs) :: u64)" by (simp add: unat_of_nat_u64)
      also have "\<dots> \<le> reorg_depth co c" using False by (simp add: word_less_nat_alt reorg_depth_def)
      finally show ?thesis using hs' hs'_def by simp
    qed
  qed
qed

section \<open>Checking for quiet backends\<close>

definition streamed_times :: "(backend \<Rightarrow> int) \<Rightarrow> backend list \<Rightarrow> int set" where
  "streamed_times g bs = {g b | b. b \<in> set bs \<and> WSURL b \<noteq> None \<and> 0 < g b}"

lemma sanity_fold:
  "foldl (\<lambda>interval b. if WSURL b = None then interval
              else (let bt = g b in if 0 < bt \<and> (interval = 0 \<or> bt < interval) then bt else interval)) 0 bs
     = (if streamed_times g bs = {} then 0 else Min (streamed_times g bs))"
proof (induction bs rule: rev_induct)
  case Nil
  then show ?case by (simp add: streamed_times_def)
next
  case (snoc b bs)
  have fin: "finite (streamed_times g xs)" for xs
  proof -
    have "streamed_times g xs \<subseteq> g ` set xs" by (auto simp: streamed_times_def)
    then show ?thesis by (rule finite_subset) simp
  qed
  have pos: "0 < x" if "x \<in> streamed_times g bs" for x using that by (auto simp: streamed_times_def)
  show ?case
  proof (cases "WSURL b \<noteq> None \<and> 0 < g b")
    case False
    then have "streamed_times g (bs @ [b]) = streamed_times g bs" by (auto simp: streamed_times_def)
    then show ?thesis using snoc False by (auto simp: Let_def)
  next
    case True
    then have t: "streamed_times g (bs @ [b]) = insert (g b) (streamed_times g bs)" by (auto simp: streamed_times_def)
    show ?thesis
    proof (cases "streamed_times g bs = {}")
      case True
      then show ?thesis using snoc \<open>WSURL b \<noteq> None \<and> 0 < g b\<close> by (simp add: t Let_def)
    next
      case False
      then have "0 < Min (streamed_times g bs)" using pos Min_in [OF fin False] by blast
      moreover have "Min (insert (g b) (streamed_times g bs)) = (if g b < Min (streamed_times g bs) then g b else Min (streamed_times g bs))"
        unfolding Min_insert [OF fin False] by (simp add: min_def)
      ultimately show ?thesis using snoc False \<open>WSURL b \<noteq> None \<and> 0 < g b\<close> unfolding t by (auto simp: Let_def)
    qed
  qed
qed

text \<open>
  The stream looks for quiet backends as often as the fastest chain it streams has blocks: the interval
  is the least block time among the chains with a WebSocket backend, and an accepted configuration with
  such a backend gives a positive one, so that the ticker of the loop, which panics otherwise, starts.
\<close>

theorem sanity_interval:
  assumes "ParseConfig F parse_url quoting f = Done (co, rates)" and "HasWebSocket co"
  shows "0 < sanityInterval co
    \<and> sanityInterval co \<in> {BlockTime (CacheC co) (Chain b) | b. b \<in> set (Backends co) \<and> WSURL b \<noteq> None}
    \<and> (\<forall>b \<in> set (Backends co). WSURL b \<noteq> None \<longrightarrow> sanityInterval co \<le> BlockTime (CacheC co) (Chain b))"
proof -
  obtain cc bs ws where ws: "check_backends cc bs = Done ws" and co: "co = assemble F f cc bs ws"
    using assms(1) by (auto simp: ParseConfig_def split: if_splits elim!: obind_DoneE)
  let ?g = "\<lambda>b. BlockTime (CacheC co) (Chain b)"
  let ?T = "streamed_times ?g (Backends co)"
  have "ws" using assms(2) by (simp add: co assemble_simps)
  then have some: "\<exists>b \<in> set (Backends co). WSURL b \<noteq> None" and pos: "\<forall>b \<in> set (Backends co). WSURL b \<noteq> None \<longrightarrow> 0 < ?g b"
    using check_backends_ok [OF ws] by (auto simp: co assemble_simps)
  then have ne: "?T \<noteq> {}" by (auto simp: streamed_times_def)
  have "?T \<subseteq> ?g ` set (Backends co)" by (auto simp: streamed_times_def)
  then have fin: "finite ?T" by (rule finite_subset) simp
  have "sanityInterval co = Min ?T" unfolding sanityInterval_def sanity_fold using ne by simp
  moreover obtain b where "b \<in> set (Backends co)" "WSURL b \<noteq> None" "Min ?T = ?g b"
    using Min_in [OF fin ne] by (auto simp: streamed_times_def)
  moreover have "Min ?T \<le> ?g b" if "b \<in> set (Backends co)" "WSURL b \<noteq> None" for b
    by (rule Min_le [OF fin]) (use that pos in \<open>auto simp: streamed_times_def\<close>)
  ultimately show ?thesis using pos by auto
qed

section \<open>Witnesses\<close>

definition sample_heads :: "(string \<times> u64 \<times> string) list" where
  "sample_heads = [(''eth'', 5, ''0xa''), (''base'', 9, ''0xc''), (''eth'', 5, ''0xb'')]"

lemma sample_depth [simp]: "ReorgDepth (CacheC sample_stream) ''eth'' = 64"
  by (simp add: ReorgDepth_def chain_config_def sample_stream_def)

lemma heads_delivered_once_witness:
  "fst (markDelivered sample_stream ''eth'' 5 ''0xa'' (mark_all sample_stream sample_heads NewStream))
   \<and> \<not> fst (markDelivered sample_stream ''eth'' 5 ''0xb'' (mark_all sample_stream sample_heads NewStream))"
proof -
  have w: "in_window sample_stream sample_heads ''eth'' 5" by (simp add: in_window_def sample_heads_def reorg_depth_def)
  show ?thesis
    using heads_delivered_once [of sample_heads "''0xa''" "''eth''" 5 sample_stream]
      heads_delivered_once [of sample_heads "''0xb''" "''eth''" 5 sample_stream] w
    by (simp add: sample_heads_def last_hash_def)
qed

lemma heights_bounded_witness:
  "heights_of ''eth'' (snd (markDelivered sample_stream ''eth'' 6 ''0xd'' (mark_all sample_stream sample_heads NewStream)))
     = [(5, ''0xb''), (6, ''0xd'')]
   \<and> length (heights_of ''eth'' (snd (markDelivered sample_stream ''eth'' 6 ''0xd''
         (mark_all sample_stream sample_heads NewStream)))) \<le> 65"
proof -
  have hs: "heights_of ''eth'' (mark_all sample_stream sample_heads NewStream) = [(5, ''0xb'')]"
    by (simp add: mark_all_def sample_heads_def heights_of_mark mark_height_def Let_def) (simp add: heights_of_def NewStream_def)
  then have "fst (markDelivered sample_stream ''eth'' 6 ''0xd'' (mark_all sample_stream sample_heads NewStream))"
    by (simp add: mark_news mark_height_def Let_def)
  from heights_bounded [OF _ _ _ this] hs show ?thesis
    by (simp add: sample_heads_def reorg_depth_def heights_of_mark mark_height_def Let_def)
qed

lemma sanity_interval_witness:
  "\<exists>c. ParseConfig sample_floats Inr (\<lambda>s. s) sample_file = Done (c, [40]) \<and> 0 < sanityInterval c"
proof -
  obtain c where c: "ParseConfig sample_floats Inr (\<lambda>s. s) sample_file = Done (c, [40])" "HasWebSocket c"
    using sample_file_parsed by (elim exE conjE) (rule that)
  show ?thesis using c(1) sanity_interval [OF c] by (intro exI [of _ c]) simp
qed

end
