(* ===== verification/Stream_Limits.thy ===== *)
theory Stream_Limits
  imports Stream_Isolation
begin

text \<open>
  The goroutines of a stream come to an end, and the connections to a backend are limited.
\<close>

section \<open>Handlers end\<close>

text \<open>One section of one goroutine, with whatever it meets outside.\<close>

inductive section_step ::
  "'f Config \<Rightarrow> (string \<Rightarrow> string) \<Rightarrow> stream \<times> task list list \<Rightarrow> stream \<times> task list list \<Rightarrow> bool"
  for co fnum where
  "i < length ts \<Longrightarrow> ts ! i = t # rest \<Longrightarrow> run_task co fnum env t st = Done (st', new)
    \<Longrightarrow> section_step co fnum (st, ts) (st', ts[i := new @ rest])"

text \<open>How far a task is from the end of its handler.\<close>

primrec rank :: "task \<Rightarrow> nat" where
  "rank (Dispatching r m) = 11"
| "rank (Subscribing r m) = 10"
| "rank (Recording r m b) = 9"
| "rank (Registering r m b s) = 8"
| "rank (Connecting p b) = 7"
| "rank (Choosing p b snap) = 6"
| "rank (Dialing p b) = 5"
| "rank (Attaching r m s k) = 2"
| "rank (SendingSubscription r m s k) = 1"
| "rank (Unsubscribing r m) = 5"
| "rank (Deregistering r m sid s) = 4"
| "rank (FindingConnection r m sid s) = 3"
| "rank (Detaching r m sid k) = 2"
| "rank (SendingUnsubscription r m k) = 1"
| "rank (Confirming r m) = 0"
| "rank (Calling r m) = 8"
| "rank (SendingCall r m k) = 0"
| "rank (Ponging k) = 0"
| "rank (Pinging k) = 2"
| "rank (Receiving k m) = 4"
| "rank (Forwarding k m) = 3"
| "rank (Routing s m) = 1"
| "rank (Writing r s m) = 0"
| "rank (Announced chain b d) = 2"
| "rank (Marking chain num hash d) = 1"
| "rank (Notifying chain d) = 0"
| "rank (Closing k) = 1"
| "rank (Unlisting k) = 0"
| "rank (Dropping k) = 0"
| "rank (Leaving cid) = 1"
| "rank (Hanging r) = 0"
| "rank (DroppingClient r) = 0"
| "rank CheckingSanity = 10"
| "rank (Resetting b) = 9"
| "rank (PickingNew b ss) = 8"
| "rank (FindingOld b ss nb k) = 4"
| "rank (Migrating b ss nb k old) = 3"
| "rank (Sweeping b) = 2"
| "rank (Untracking b) = 0"
| "rank ClosingClients = 1"
| "rank ClosingConnections = 0"

lemma rank_connected [simp]: "rank (connected p b k) < 5" "rank (connected p b k) < 6"
  by (cases p; simp)+

lemmas sections_def =
  handleClientMessage_def handleSubscribe_def record_subscription_def register_subscription_def
  getOrCreateWSConnection_def choose_connection_def createWSConnection_def attach_subscription_def send_subscription_def
  handleUnsubscribe_def deregister_subscription_def find_connection_def detach_subscription_def send_unsubscription_def
  confirm_unsubscription_def handleRPCCall_def send_call_def pong_received_def pingPongLoop_def handleBackendMessages_def
  forwardBackendMessage_def route_message_def write_message_def handleBlockNotification_def mark_block_def
  notifyBlockSubscribers_def closeWSConnection_def unlist_connection_def removeClient_def checkBlockSanity_def
  resetBackendConnections_def pick_new_def find_old_def migrate_subscriptions_def closeBackendConnection_def
  untrack_backend_def Shutdown_clients_def Shutdown_connections_def with_url_def

lemma run_task_rank:
  assumes "run_task co fnum env t st = Done (st', new)"
  shows "\<forall>t' \<in> set new. rank t' < rank t"
  using assms
  by (cases t)
    (auto simp: sections_def Let_def split: option.splits outcome.splits if_splits prod.splits list.splits json.splits
      elim!: obind_DoneE)

lemma mset_goroutines:
  assumes "i < length ts" and "ts ! i = t # rest"
  shows "mset (concat ts) = add_mset t (mset (concat (ts[i := rest])))"
    and "mset (concat (ts[i := new @ rest])) = mset new + mset (concat (ts[i := rest]))"
proof -
  have ts: "ts = take i ts @ (t # rest) # drop (Suc i) ts" using assms by (metis id_take_nth_drop)
  have upd: "ts[i := g] = take i ts @ g # drop (Suc i) ts" for g using assms(1) by (rule upd_conv_take_nth_drop)
  show "mset (concat ts) = add_mset t (mset (concat (ts[i := rest])))" by (subst ts) (simp add: upd)
  show "mset (concat (ts[i := new @ rest])) = mset new + mset (concat (ts[i := rest]))" by (simp add: upd)
qed

lemma section_step_decreases:
  assumes "section_step co fnum s s'"
  shows "(mset (map rank (concat (snd s'))), mset (map rank (concat (snd s)))) \<in> mult {(x, y). x < y}"
  using assms
proof (cases rule: section_step.cases)
  case (1 i ts t rest env st st' new)
  let ?I = "image_mset rank (mset (concat (ts[i := rest])))"
  have "mset (map rank (concat ts)) = ?I + {#rank t#}" and "mset (map rank (concat (ts[i := new @ rest]))) = ?I + mset (map rank new)"
    using mset_goroutines [OF 1(3,4)] by simp_all
  moreover have "(?I + mset (map rank new), ?I + {#rank t#}) \<in> mult {(x, y). x < y}"
    using run_task_rank [OF 1(5)] by (intro one_step_implies_mult) auto
  ultimately show ?thesis using 1(1,2) by simp
qed

text \<open>
  Every handler comes to an end. No state of the stream, whatever it holds and whatever goroutines are
  in it, has an infinite run of sections: neither the handlers of messages nor the moves of
  subscriptions from stale backends can go on for ever, or set each other off for ever.
\<close>

theorem handlers_end: "\<not> (\<exists>run. \<forall>n. section_step co fnum (run n) (run (Suc n)))"
proof
  assume "\<exists>run. \<forall>n. section_step co fnum (run n) (run (Suc n))"
  then obtain run where "\<forall>n. section_step co fnum (run n) (run (Suc n))" by blast
  then have "\<forall>n. ((\<lambda>n. mset (map rank (concat (snd (run n))))) (Suc n), (\<lambda>n. mset (map rank (concat (snd (run n))))) n)
      \<in> mult {(x, y). x < y}"
    by (intro allI) (rule section_step_decreases, blast)
  then have "\<exists>f. \<forall>n. (f (Suc n), f n) \<in> mult {(x, y). x < (y :: nat)}"
    by (rule exI [of _ "\<lambda>n. mset (map rank (concat (snd (run n))))"])
  moreover have "wf (mult {(x, y). x < (y :: nat)})" by (intro wf_mult wf_less)
  ultimately show False unfolding wf_iff_no_infinite_down_chain by simp
qed

section \<open>The number of connections\<close>

text \<open>A task that has seen room for another connection to the URL.\<close>

fun may_dial :: "'f Config \<Rightarrow> string \<Rightarrow> task \<Rightarrow> bool" where
  "may_dial co u (Choosing p b snap) \<longleftrightarrow>
     wsurl co b = Some u \<and> int (length snap) < MaxConnectionsPerBackend (SubscriptionsC co)"
| "may_dial co u (Dialing p b) \<longleftrightarrow> wsurl co b = Some u"
| "may_dial co u t \<longleftrightarrow> False"

fun head_dials :: "'f Config \<Rightarrow> string \<Rightarrow> task list \<Rightarrow> bool" where
  "head_dials co u [] \<longleftrightarrow> False"
| "head_dials co u (t # ts) \<longleftrightarrow> may_dial co u t"

lemma not_dials_connected [simp]: "\<not> may_dial co u (connected p b k)"
  by (cases p) simp_all

lemma connections_fields [simp]:
  "connections (sendToClient r m st) = connections st" "connections (sendError r i c msg st) = connections st"
  "connections (snd (sendMessage ok k m st)) = connections st" "connections (not_connected p st) = connections st"
  by (simp_all add: sendToClient_def sendError_def sendMessage_def) (cases p; simp add: sendError_def sendToClient_def)

lemma connections_fold: "(\<And>x st. connections (f x st) = connections st) \<Longrightarrow> connections (fold f xs st) = connections st"
  by (induction xs arbitrary: st) simp_all

lemma connections_broadcast [simp]: "connections (broadcast Q m st) = connections st"
  unfolding broadcast_def by (rule connections_fold) auto

lemma connections_migrate [simp]: "connections (migrate ok n nb k old ss st) = connections st"
  by (induction ss arbitrary: n st) (auto simp: Let_def split: option.splits)

lemma run_task_connections:
  assumes "run_task co fnum env t st = Done (st', new)" and "\<nexists>p b. t = Dialing p b" and "\<nexists>k. t = Unlisting k"
  shows "connections st' = connections st"
  using assms
  by (cases t)
    (auto simp: sections_def sendMessage_def markDelivered_def drop_subscriptions_def Let_def connections_fold
      split: option.splits outcome.splits if_splits prod.splits list.splits json.splits elim!: obind_DoneE)

lemma conns_at_update: "conns_at u (st\<lparr>connections := AList.update v ks al\<rparr>) = (if u = v then ks else conns_at u (st\<lparr>connections := al\<rparr>))"
  by (simp add: conns_at_def AList.update_conv')

lemma quiet_tasks [simp]:
  "\<not> head_dials co u (map Resetting bs)" "\<not> head_dials co u (map Closing ks)"
  "t \<in> set (tl (map Resetting bs)) \<Longrightarrow> \<not> may_dial co u t" "t \<in> set (tl (map Closing ks)) \<Longrightarrow> \<not> may_dial co u t"
  by (cases bs; cases ks; auto)+

text \<open>A section opens a connection only if it dials, and sees room only if there is some.\<close>

lemma run_task_dials:
  assumes "run_task co fnum env t st = Done (st', new)"
  shows "(\<forall>t' \<in> set (tl new). \<not> may_dial co u t')
    \<and> (length (conns_at u st') + of_bool (head_dials co u new) \<le> length (conns_at u st) + of_bool (may_dial co u t)
       \<or> int (length (conns_at u st')) < MaxConnectionsPerBackend (SubscriptionsC co))"
proof -
  have conns: "conns_at u st' = conns_at u st" if "\<nexists>p b. t = Dialing p b" "\<nexists>k. t = Unlisting k"
    using run_task_connections [OF assms that] by (simp add: conns_at_def)
  show ?thesis
  proof (cases t)
    case (Dialing p b)
    then show ?thesis
      using assms by (auto simp: createWSConnection_def with_url_def Let_def conns_at_def AList.update_conv' split: option.splits if_splits)
  next
    case (Unlisting k)
    then obtain v where v: "st' = st\<lparr>connections := AList.update v (remove1 k (conns_at v st)) (connections st)\<rparr>" "new = []"
      using assms by (auto simp: unlist_connection_def with_url_def split: option.splits)
    then have "conns_at u st' = (if u = v then remove1 k (conns_at u st) else conns_at u st)"
      by (simp add: conns_at_update)
    then show ?thesis using v(2) by (auto simp: length_remove1)
  next
    case (Choosing p b snap)
    then show ?thesis
      using assms conns by (auto simp: choose_connection_def split: option.splits if_splits)
  next
    case (Connecting p b)
    then show ?thesis
      using assms conns by (auto simp: getOrCreateWSConnection_def with_url_def split: option.splits)
  qed (use assms conns in \<open>auto simp: sections_def Let_def
      split: option.splits outcome.splits if_splits prod.splits list.splits json.splits elim!: obind_DoneE\<close>)
qed

lemma length_filter_update:
  assumes "i < length xs"
  shows "length (filter P (xs[i := y])) + of_bool (P (xs ! i)) = length (filter P xs) + of_bool (P y)"
proof -
  have xs: "xs = take i xs @ xs ! i # drop (Suc i) xs" using assms by (rule id_take_nth_drop)
  have upd: "xs[i := y] = take i xs @ y # drop (Suc i) xs" using assms by (rule upd_conv_take_nth_drop)
  show ?thesis unfolding upd by (subst (3) xs) simp
qed

definition within_limit :: "'f Config \<Rightarrow> string \<Rightarrow> nat \<Rightarrow> stream \<times> task list list \<Rightarrow> bool" where
  "within_limit co u G s \<longleftrightarrow>
     (\<forall>g \<in> set (snd s). \<forall>t \<in> set (tl g). \<not> may_dial co u t) \<and> busy (snd s) \<le> G
     \<and> int (length (conns_at u (fst s))) + int (length (filter (head_dials co u) (snd s)))
        \<le> MaxConnectionsPerBackend (SubscriptionsC co) - 1 + int G"

lemma dials_busy: "length (filter (head_dials co u) ts) \<le> busy ts"
proof (induction ts)
  case (Cons g ts)
  then show ?case by (cases g) (simp_all add: busy_def)
qed (simp add: busy_def)

lemma within_limit_step:
  assumes lim: "within_limit co u G s" and "stream_step F L co fnum G s s'"
  shows "within_limit co u G s'"
  using assms(2)
proof (cases rule: stream_step.cases)
  case (run i ts t rest st env st' new)
  note D = run_task_dials [OF run(6), of u]
  let ?n = "\<lambda>ts. length (filter (head_dials co u) ts)" and ?ts = "ts[i := new @ rest]"
  have rest: "\<not> may_dial co u t'" if "t' \<in> set rest" for t'
    using lim run(1,3,4) that nth_mem [OF run(3)] by (fastforce simp: within_limit_def)
  have head: "head_dials co u (new @ rest) \<longleftrightarrow> head_dials co u new"
    using rest by (cases new; cases rest) simp_all
  have tails: "\<forall>t' \<in> set (tl (new @ rest)). \<not> may_dial co u t'"
    using D rest by (cases new; cases rest) auto
  have count: "?n ?ts + of_bool (may_dial co u t) = ?n ts + of_bool (head_dials co u new)"
    using length_filter_update [OF run(3), of "head_dials co u" "new @ rest"] run(4) head by simp
  have busy: "busy ?ts \<le> G"
    using length_filter_update [OF run(3), of "\<lambda>g. g \<noteq> []" "new @ rest"] run(4) lim run(1)
    by (auto simp: within_limit_def busy_def of_bool_def split: if_splits)
  have "int (length (conns_at u st')) + int (?n ?ts) \<le> MaxConnectionsPerBackend (SubscriptionsC co) - 1 + int G"
    using D
  proof (elim conjE disjE)
    assume "length (conns_at u st') + of_bool (head_dials co u new) \<le> length (conns_at u st) + of_bool (may_dial co u t)"
    then have "length (conns_at u st') + ?n ?ts \<le> length (conns_at u st) + ?n ts"
      using count by (auto simp: of_bool_def split: if_splits)
    moreover have "int (length (conns_at u st)) + int (?n ts) \<le> MaxConnectionsPerBackend (SubscriptionsC co) - 1 + int G"
      using lim run(1) by (simp add: within_limit_def)
    ultimately show ?thesis by linarith
  next
    assume "int (length (conns_at u st')) < MaxConnectionsPerBackend (SubscriptionsC co)"
    moreover have "?n ?ts \<le> G" using dials_busy [of co u ?ts] busy by linarith
    ultimately show ?thesis by linarith
  qed
  moreover have "\<forall>g \<in> set ?ts. \<forall>t' \<in> set (tl g). \<not> may_dial co u t'"
    using lim run(1) tails set_update_subset_insert [of ts i "new @ rest"] by (auto simp: within_limit_def)
  ultimately show ?thesis using busy run(2) by (simp add: within_limit_def)
next
  case (accept t p st st' ts)
  then have "conns_at u st' = conns_at u st" by (auto simp: HandleWebSocket_def Let_def conns_at_def split: if_splits)
  then show ?thesis using lim accept by (simp add: within_limit_def)
next
  case (start st t ts)
  have "\<not> may_dial co u t" using start(3) by (cases t) simp_all
  then show ?thesis using lim start by (auto simp: within_limit_def busy_def)
qed

interpretation limiting: invariant_machine "(NewStream, [])" "stream_step F L co fnum G"
  "\<lambda>s. 1 \<le> MaxConnectionsPerBackend (SubscriptionsC co) \<longrightarrow> within_limit co u G s" for F L co fnum G u
proof
  show "1 \<le> MaxConnectionsPerBackend (SubscriptionsC co) \<longrightarrow> within_limit co u G (NewStream, [])"
    by (simp add: within_limit_def busy_def conns_at_def NewStream_def)
  show "1 \<le> MaxConnectionsPerBackend (SubscriptionsC co) \<longrightarrow> within_limit co u G s'"
    if "1 \<le> MaxConnectionsPerBackend (SubscriptionsC co) \<longrightarrow> within_limit co u G s" "stream_step F L co fnum G s s'" for s s'
    using that within_limit_step by blast
qed

text \<open>
  C24. The connections to a backend are limited: with at most \<open>G\<close> handlers at a time, a URL never has more than
  the configured number of connections and \<open>G - 1\<close>. The code reads the list and adds to it under
  different locks, so that handlers that read it at the same time may each add a connection.
\<close>

theorem connections_limited:
  assumes "(stream_step F L co fnum G)\<^sup>*\<^sup>* (NewStream, []) (st, ts)"
    and "1 \<le> MaxConnectionsPerBackend (SubscriptionsC co)"
  shows "int (length (conns_at u st)) \<le> MaxConnectionsPerBackend (SubscriptionsC co) + int G - 1"
  using limiting.reachable [OF assms(1), of u] assms(2) by (simp add: within_limit_def)

lemma connections_limited_witness:
  "conns_at ''ws://b'' subscribed = [0] \<and> int (length (conns_at ''ws://b'' subscribed)) \<le> 103"
  using connections_limited [OF reach_subscribed, of "''ws://b''"]
  by (simp add: subscriptions_config_def) (simp add: conns_at_def subscribed_def)

end
