(* ===== verification/Stream_Loops.thy ===== *)
theory Stream_Loops
  imports Stream_Limits
begin

text \<open>
  The loops of the goroutines of the stream, which \<open>Stream_Machine\<close> leaves out: there the rounds of all loops
  start of themselves. Here each goroutine has its loop and the sections of the round it is in; clients,
  connections and the stream itself start the goroutines the code starts. Every run with the loops is a run of
  the machine without them, and a goroutine ends once its connection is closed.
\<close>

section \<open>Goroutines with their loops\<close>

text \<open>
  The loop over the messages of a client (\<open>HandleWebSocket\<close>) and of a backend (\<open>handleBackendMessages\<close>), the
  loop that pings (\<open>pingPongLoop\<close>), and the loop that looks for stale backends (\<open>sanityCheckLoop\<close>).
\<close>

datatype loop = ReadingClient nat | ReadingBackend nat | PingPong nat | SanityTicks

text \<open>What a read gives: an error, a pong, on which the library calls the handler and reads on, or a message.\<close>

datatype arrival = Broken | Ponged | Arrived Message

text \<open>A goroutine: its loop, unless it has left it or has none, and the sections still to run before the next round.\<close>

type_synonym goroutine = "loop option \<times> task list"

text \<open>Of a closed connection the library reads errors only.\<close>

primrec loop_closed :: "stream \<Rightarrow> loop \<Rightarrow> bool" where
  "loop_closed st (ReadingClient r) \<longleftrightarrow> Cclosed (the_client st r)"
| "loop_closed st (ReadingBackend k) \<longleftrightarrow> Wclosed (the_conn st k)"
| "loop_closed st (PingPong k) \<longleftrightarrow> Wclosed (the_conn st k)"
| "loop_closed st SanityTicks \<longleftrightarrow> False"

definition arrives :: "stream \<Rightarrow> loop \<Rightarrow> arrival \<Rightarrow> bool" where
  "arrives st lo a \<longleftrightarrow> (loop_closed st lo \<longrightarrow> a = Broken)"

text \<open>One tick of \<open>pingPongLoop\<close>, and whether the loop goes on after it.\<close>

definition ping_tick :: "'f Config \<Rightarrow> ws_env \<Rightarrow> nat \<Rightarrow> stream \<Rightarrow> stream \<times> task list \<times> bool" where
  "ping_tick co env k st =
     (let w = the_conn st k in
      if Wclosed w then (st, [], False)
      else if PingInterval (SubscriptionsC co) \<le> env_now env - lastPing w then
        (if \<not> env_write env 0 then (st, [Closing k], False)
         else
           (let st1 = upd_conn k (\<lambda>w. w\<lparr>lastPing := env_now env\<rparr>) st in
            if PongWait (SubscriptionsC co) < env_now env - lastPong w then (st1, [Closing k], False)
            else (st1, [], True)))
      else if PongWait (SubscriptionsC co) < env_now env - lastPong w then (st, [Closing k], False)
      else (st, [], True))"

text \<open>
  One round of a loop: the state after it, the loop if it goes on, and the sections that follow. On leaving,
  the deferred calls run: \<open>removeClient\<close> and \<open>closeWSConnection\<close>.
\<close>

primrec turn :: "'f Config \<Rightarrow> ws_env \<Rightarrow> arrival \<Rightarrow> loop \<Rightarrow> stream \<Rightarrow> stream \<times> loop option \<times> task list" where
  "turn co env a (ReadingClient r) st =
     (case a of
        Broken \<Rightarrow> (st, None, [Leaving (CID (the_client st r))])
      | Ponged \<Rightarrow> (st, Some (ReadingClient r), [])
      | Arrived m \<Rightarrow> (st, Some (ReadingClient r), [Dispatching r m]))"
| "turn co env a (ReadingBackend k) st =
     (case a of
        Broken \<Rightarrow> (st, None, [Closing k])
      | Ponged \<Rightarrow> (st, Some (ReadingBackend k), [Ponging k])
      | Arrived m \<Rightarrow> (st, Some (ReadingBackend k), [Receiving k m]))"
| "turn co env a (PingPong k) st =
     (case ping_tick co env k st of (st', new, on) \<Rightarrow> (st', if on then Some (PingPong k) else None, new))"
| "turn co env a SanityTicks st = (st, Some SanityTicks, [CheckingSanity])"

text \<open>\<open>createWSConnection\<close> starts the two goroutines of its connection.\<close>

fun spawned :: "ws_env \<Rightarrow> stream \<Rightarrow> task \<Rightarrow> goroutine list" where
  "spawned env st (Dialing p b) =
     (if env_dial env
      then [(Some (PingPong (length (conn_heap st))), []), (Some (ReadingBackend (length (conn_heap st))), [])] else [])"
| "spawned env st t = []"

lemma pingPongLoop_tick: "pingPongLoop co env k st = (case ping_tick co env k st of (st', new, on) \<Rightarrow> Done (st', new))"
  by (simp add: pingPongLoop_def ping_tick_def Let_def)

lemma ping_tick_pick: "ping_tick co (env\<lparr>env_pick := r\<rparr>) k st = ping_tick co env k st"
  by (simp add: ping_tick_def Let_def)

section \<open>The machine with loops\<close>

text \<open>
  A goroutine runs its next section, or goes round its loop when it has none; a client comes with its
  goroutine; the goroutine that waits for a signal shuts the stream down. \<open>G\<close> bounds, as in \<open>stream_step\<close>, the
  goroutines that are in a round at the same time.
\<close>

inductive loop_step ::
  "'f float64 \<Rightarrow> ('l, 'r) rate_limiter \<Rightarrow> 'f Config \<Rightarrow> (string \<Rightarrow> string) \<Rightarrow> nat
     \<Rightarrow> stream \<times> goroutine list \<Rightarrow> stream \<times> goroutine list \<Rightarrow> bool"
  for F L co fnum G where
  ran: "i < length gs \<Longrightarrow> gs ! i = (lo, t # rest) \<Longrightarrow> picks F L co (wanted co st t) (env_pick env)
    \<Longrightarrow> run_task co fnum env t st = Done (st', new)
    \<Longrightarrow> loop_step F L co fnum G (st, gs) (st', gs[i := (lo, new @ rest)] @ spawned env st t)"
| turned: "i < length gs \<Longrightarrow> gs ! i = (Some lo, []) \<Longrightarrow> arrives st lo a \<Longrightarrow> busy (map snd gs) < G
    \<Longrightarrow> turn co env a lo st = (st', lo', new)
    \<Longrightarrow> loop_step F L co fnum G (st, gs) (st', gs[i := (lo', new)])"
| joined: "HandleWebSocket now p st = Some st'
    \<Longrightarrow> loop_step F L co fnum G (st, gs) (st', gs @ [(Some (ReadingClient (length (client_heap st))), [])])"
| signalled: "busy (map snd gs) < G \<Longrightarrow> loop_step F L co fnum G (st, gs) (st, gs @ [(None, [ClosingClients])])"

text \<open>\<open>NewStream\<close> starts the search for stale backends if a chain with streaming backends has a block time.\<close>

definition new_loops :: "'f Config \<Rightarrow> stream \<times> goroutine list" where
  "new_loops co = (NewStream, if 0 < sanityInterval co then [(Some SanityTicks, [])] else [])"

section \<open>The loops refine the spontaneous rounds\<close>

text \<open>The objects of a loop are there.\<close>

primrec loop_known :: "stream \<Rightarrow> loop \<Rightarrow> bool" where
  "loop_known st (ReadingClient r) \<longleftrightarrow> r < length (client_heap st)"
| "loop_known st (ReadingBackend k) \<longleftrightarrow> k < length (conn_heap st)"
| "loop_known st (PingPong k) \<longleftrightarrow> k < length (conn_heap st)"
| "loop_known st SanityTicks \<longleftrightarrow> True"

definition loops_known :: "stream \<Rightarrow> goroutine list \<Rightarrow> bool" where
  "loops_known st gs \<longleftrightarrow> (\<forall>g \<in> set gs. \<forall>lo. fst g = Some lo \<longrightarrow> loop_known st lo)"

definition grows :: "stream \<Rightarrow> stream \<Rightarrow> bool" where
  "grows st st' \<longleftrightarrow> length (conn_heap st) \<le> length (conn_heap st') \<and> length (client_heap st) \<le> length (client_heap st')"

lemma loop_known_grows: "loop_known st lo \<Longrightarrow> grows st st' \<Longrightarrow> loop_known st' lo"
  by (cases lo) (auto simp: grows_def)

lemma heap_sizes [simp]:
  "length (conn_heap (sendToClient r m st)) = length (conn_heap st)"
  "length (conn_heap (sendError r i c msg st)) = length (conn_heap st)"
  "length (conn_heap (snd (sendMessage ok k m st))) = length (conn_heap st)"
  "length (conn_heap (not_connected p st)) = length (conn_heap st)"
  by (simp_all add: sendToClient_def sendError_def sendMessage_def) (cases p; simp add: sendError_def sendToClient_def)

lemma conn_heap_fold:
  "(\<And>x st. length (conn_heap (f x st)) = length (conn_heap st)) \<Longrightarrow> length (conn_heap (fold f xs st)) = length (conn_heap st)"
  by (induction xs arbitrary: st) simp_all

lemma conn_heap_broadcast [simp]: "length (conn_heap (broadcast Q m st)) = length (conn_heap st)"
  unfolding broadcast_def by (rule conn_heap_fold) auto

lemma conn_heap_migrate [simp]: "length (conn_heap (migrate ok n nb k old ss st)) = length (conn_heap st)"
  by (induction ss arbitrary: n st) (auto simp: Let_def split: option.splits)

lemma run_task_conn_heap:
  assumes "run_task co fnum env t st = Done (st', new)"
  shows "length (conn_heap st') = length (conn_heap st) + (if spawned env st t = [] then 0 else 1)"
  using assms
  by (cases t)
    (auto simp: sections_def sendMessage_def markDelivered_def drop_subscriptions_def Let_def conn_heap_fold
      split: option.splits outcome.splits if_splits prod.splits list.splits json.splits elim!: obind_DoneE)

lemma run_task_grows: "run_task co fnum env t st = Done (st', new) \<Longrightarrow> grows st st'"
  using run_task_conn_heap run_task_delivers by (fastforce simp: grows_def delivers_def)

lemma picks_exist: "\<exists>r. picks F L co chain r"
proof -
  let ?bl = "NewLoadBalancer F (Backends co) 0"
  let ?pe = "\<lparr>clock1 = (\<lambda>_. 0), clock2 = (\<lambda>_. 0), read1 = (\<lambda>j. Backends co ! (members ?bl chain ! j)),
    read2 = (\<lambda>j. Backends co ! (members ?bl chain ! j)), gone = None\<rparr>"
  have "picks F L co chain (pickBackend F L ?pe chain (?bl, lims))" for lims
    unfolding picks_def
    by (rule exI [of _ ?pe], rule exI [of _ ?bl], rule exI [of _ lims])
      (simp add: NewLoadBalancer_def Let_def wsurl_def)
  then show ?thesis by blast
qed

text \<open>The goroutines that are in a round, as the machine without loops has them.\<close>

definition in_round :: "task list list \<Rightarrow> task list multiset" where
  "in_round ts = filter_mset (\<lambda>g. g \<noteq> []) (mset ts)"

lemma in_round_simps [simp]:
  "in_round [] = {#}" "in_round (xs @ ys) = in_round xs + in_round ys"
  "in_round (g # ts) = (if g = [] then in_round ts else add_mset g (in_round ts))"
  by (simp_all add: in_round_def)

lemma in_round_update: "i < length ts \<Longrightarrow> in_round (ts[i := g]) + in_round [ts ! i] = in_round ts + in_round [g]"
proof -
  assume i: "i < length ts"
  then have ts: "ts = take i ts @ ts ! i # drop (Suc i) ts" by (rule id_take_nth_drop)
  have upd: "ts[i := g] = take i ts @ g # drop (Suc i) ts" using i by (rule upd_conv_take_nth_drop)
  show ?thesis unfolding upd by (subst (4) ts) simp
qed

lemma busy_in_round: "busy ts = size (in_round ts)"
  unfolding busy_def in_round_def by (metis mset_filter size_mset)

lemma in_round_spawned [simp]: "in_round (map snd (spawned env st t)) = {#}"
  by (cases t) simp_all

text \<open>A task that a machine without loops can start, and the section it may run at once.\<close>

lemma start_matched:
  assumes "(stream_step F L co fnum G)\<^sup>*\<^sup>* s (st, ts)" and "starts st t" and "size (in_round ts) < G"
  shows "(stream_step F L co fnum G)\<^sup>*\<^sup>* s (st, ts @ [[t]])"
proof -
  have "busy ts < G" using assms(3) by (simp add: busy_in_round)
  from rtranclp.rtrancl_into_rtrancl [OF assms(1) stream_step.start [OF assms(2) this]] show ?thesis .
qed

lemma run_matched:
  assumes "(stream_step F L co fnum G)\<^sup>*\<^sup>* s (st, ts)" and "(t # rest) \<in># in_round ts"
    and "picks F L co (wanted co st t) (env_pick env)" and "run_task co fnum env t st = Done (st', new)"
  shows "\<exists>ts'. (stream_step F L co fnum G)\<^sup>*\<^sup>* s (st', ts')
    \<and> in_round ts' = in_round ts - {#t # rest#} + in_round [new @ rest]"
proof -
  obtain j where j: "j < length ts" "ts ! j = t # rest"
    using assms(2) by (auto simp: in_round_def in_set_conv_nth)
  have "(stream_step F L co fnum G)\<^sup>*\<^sup>* s (st', ts[j := new @ rest])"
    using assms(1) stream_step.run [OF j assms(3,4)] by (rule rtranclp.rtrancl_into_rtrancl)
  moreover have "in_round (ts[j := new @ rest]) = in_round ts - {#t # rest#} + in_round [new @ rest]"
  proof -
    obtain M where M: "in_round ts = add_mset (t # rest) M" using multi_member_split [OF assms(2)] by blast
    have "in_round (ts[j := new @ rest]) + in_round [t # rest] = in_round ts + in_round [new @ rest]"
      using in_round_update [OF j(1), of "new @ rest"] by (simp only: j(2))
    then show ?thesis by (simp add: M)
  qed
  ultimately show ?thesis by blast
qed

definition matched ::
  "'f float64 \<Rightarrow> ('l, 'r) rate_limiter \<Rightarrow> 'f Config \<Rightarrow> (string \<Rightarrow> string) \<Rightarrow> nat \<Rightarrow> stream \<times> goroutine list \<Rightarrow> bool" where
  "matched F L co fnum G s \<longleftrightarrow>
     loops_known (fst s) (snd s)
     \<and> (\<exists>ts. (stream_step F L co fnum G)\<^sup>*\<^sup>* (NewStream, []) (fst s, ts) \<and> in_round ts = in_round (map snd (snd s)))"

lemma loops_known_update:
  assumes "loops_known st gs" and "grows st st'" and "\<forall>lo. fst g = Some lo \<longrightarrow> loop_known st' lo"
  shows "loops_known st' (gs[i := g])"
  using assms loop_known_grows set_update_subset_insert [of gs i g] unfolding loops_known_def by blast

lemma loops_known_append: "loops_known st (gs @ hs) \<longleftrightarrow> loops_known st gs \<and> loops_known st hs"
  by (auto simp: loops_known_def)

lemma grows_refl [simp]: "grows st st"
  by (simp add: grows_def)

text \<open>A turn starts at most one section; a tick of the pings has run its section as well.\<close>

lemma turn_matched:
  assumes "(stream_step F L co fnum G)\<^sup>*\<^sup>* s (st, ts)" and "loop_known st lo" and "size (in_round ts) < G"
    and "turn co env a lo st = (st', lo', new)"
  shows "\<exists>ts'. (stream_step F L co fnum G)\<^sup>*\<^sup>* s (st', ts') \<and> in_round ts' = in_round ts + in_round [new]"
proof (cases lo)
  case (PingPong k)
  obtain on where tick: "ping_tick co env k st = (st', new, on)"
    using assms(4) PingPong by (auto split: prod.splits)
  have "starts st (Pinging k)" using assms(2) PingPong by simp
  note started = start_matched [OF assms(1) this assms(3)]
  obtain r where r: "picks F L co [] r" using picks_exist by blast
  have "run_task co fnum (env\<lparr>env_pick := r\<rparr>) (Pinging k) st = Done (st', new)"
    using tick by (simp add: pingPongLoop_tick ping_tick_pick)
  from run_matched [where rest = "[]", OF started _ _ this] r show ?thesis by auto
next
  case (ReadingClient r)
  show ?thesis
  proof (cases a)
    case Ponged
    then show ?thesis using assms(1,4) ReadingClient by auto
  next
    case Broken
    then show ?thesis using assms(4) ReadingClient start_matched [OF assms(1) _ assms(3), of "Leaving (CID (the_client st r))"] by auto
  next
    case (Arrived m)
    then show ?thesis using assms(2,4) ReadingClient start_matched [OF assms(1) _ assms(3), of "Dispatching r m"] by auto
  qed
next
  case (ReadingBackend k)
  show ?thesis
  proof (cases a)
    case Ponged
    then show ?thesis using assms(2,4) ReadingBackend start_matched [OF assms(1) _ assms(3), of "Ponging k"] by auto
  next
    case Broken
    then show ?thesis using assms(2,4) ReadingBackend start_matched [OF assms(1) _ assms(3), of "Closing k"] by auto
  next
    case (Arrived m)
    then show ?thesis using assms(2,4) ReadingBackend start_matched [OF assms(1) _ assms(3), of "Receiving k m"] by auto
  qed
next
  case SanityTicks
  then show ?thesis using assms(4) start_matched [OF assms(1) _ assms(3), of CheckingSanity] by auto
qed

lemma turn_known:
  assumes "turn co env a lo st = (st', lo', new)"
  shows "grows st st'" and "lo' = None \<or> lo' = Some lo"
  using assms by (cases lo; auto simp: ping_tick_def grows_def Let_def split: arrival.splits if_splits)+

lemma loop_step_matched:
  assumes "matched F L co fnum G s" and "loop_step F L co fnum G s s'"
  shows "matched F L co fnum G s'"
  using assms(2)
proof (cases rule: loop_step.cases)
  case (ran i gs lo t rest st env st' new)
  obtain ts where ts: "(stream_step F L co fnum G)\<^sup>*\<^sup>* (NewStream, []) (st, ts)" "in_round ts = in_round (map snd gs)"
    and known: "loops_known st gs" using assms(1) ran(1) by (auto simp: matched_def)
  have mem: "(t # rest) \<in># in_round ts" using ts(2) ran(3,4) nth_mem [OF ran(3)] by (force simp: in_round_def)
  obtain ts' where ts': "(stream_step F L co fnum G)\<^sup>*\<^sup>* (NewStream, []) (st', ts')"
      "in_round ts' = in_round ts - {#t # rest#} + in_round [new @ rest]"
    using run_matched [OF ts(1) mem ran(5,6)] by blast
  have "in_round (map snd (gs[i := (lo, new @ rest)])) + in_round [t # rest] = in_round ts + in_round [new @ rest]"
    using in_round_update [of i "map snd gs" "new @ rest"] ran(3,4) ts(2) by (simp add: map_update)
  then have "in_round ts' = in_round (map snd (gs[i := (lo, new @ rest)]))"
    using ts'(2) mem by (metis add_mset_add_single in_round_simps(1,3) list.distinct(1) add_mset_remove_trivial union_mset_add_mset_left insert_DiffM)
  moreover have g: "grows st st'" by (rule run_task_grows [OF ran(6)])
  moreover have "loops_known st' (gs[i := (lo, new @ rest)])"
  proof (rule loops_known_update [OF known g])
    have "(lo, t # rest) \<in> set gs" using nth_mem [OF ran(3)] ran(4) by simp
    then show "\<forall>lo'. fst (lo, new @ rest) = Some lo' \<longrightarrow> loop_known st' lo'"
      using known loop_known_grows [OF _ g] by (auto simp: loops_known_def)
  qed
  moreover have "loops_known st' (spawned env st t)"
    using run_task_conn_heap [OF ran(6)] by (cases t) (auto simp: loops_known_def split: if_splits)
  ultimately show ?thesis using ts'(1) ran(2) by (auto simp: matched_def loops_known_append)
next
  case (turned i gs lo st a env st' lo' new)
  obtain ts where ts: "(stream_step F L co fnum G)\<^sup>*\<^sup>* (NewStream, []) (st, ts)" "in_round ts = in_round (map snd gs)"
    and known: "loops_known st gs" using assms(1) turned(1) by (auto simp: matched_def)
  have lo: "loop_known st lo" using known turned(3,4) nth_mem [OF turned(3)] by (auto simp: loops_known_def)
  have "size (in_round ts) < G" using turned(6) ts(2) by (simp add: busy_in_round)
  from turn_matched [OF ts(1) lo this turned(7)] obtain ts' where
    ts': "(stream_step F L co fnum G)\<^sup>*\<^sup>* (NewStream, []) (st', ts')" "in_round ts' = in_round ts + in_round [new]" by blast
  have "in_round (map snd (gs[i := (lo', new)])) = in_round ts + in_round [new]"
    using in_round_update [of i "map snd gs" new] turned(3,4) ts(2) by (simp add: map_update)
  moreover have "loops_known st' (gs[i := (lo', new)])"
    using turn_known [OF turned(7)] lo loop_known_grows
    by (intro loops_known_update [OF known]) auto
  ultimately show ?thesis using ts' turned(2) by (auto simp: matched_def)
next
  case (joined now p st st' gs)
  obtain ts where ts: "(stream_step F L co fnum G)\<^sup>*\<^sup>* (NewStream, []) (st, ts)" "in_round ts = in_round (map snd gs)"
    and known: "loops_known st gs" using assms(1) joined(1) by (auto simp: matched_def)
  have len: "length (client_heap st') = Suc (length (client_heap st))" "conn_heap st' = conn_heap st"
    using joined(3) by (auto simp: HandleWebSocket_def Let_def split: if_splits)
  have "(stream_step F L co fnum G)\<^sup>*\<^sup>* (NewStream, []) (st', ts)"
    using ts(1) stream_step.accept [OF joined(3)] by (rule rtranclp.rtrancl_into_rtrancl)
  moreover have "grows st st'" using len by (simp add: grows_def)
  then have "loops_known st' gs" using known loop_known_grows unfolding loops_known_def by blast
  ultimately show ?thesis using ts(2) joined(2) len by (auto simp: matched_def loops_known_def)
next
  case (signalled gs st)
  obtain ts where ts: "(stream_step F L co fnum G)\<^sup>*\<^sup>* (NewStream, []) (st, ts)" "in_round ts = in_round (map snd gs)"
    and known: "loops_known st gs" using assms(1) signalled(1) by (auto simp: matched_def)
  have "size (in_round ts) < G" using signalled(3) ts(2) by (simp add: busy_in_round)
  from start_matched [OF ts(1) _ this, of ClosingClients] show ?thesis
    using ts(2) known signalled(2) by (auto simp: matched_def loops_known_def intro!: exI)
qed

interpretation looping: invariant_machine "new_loops co" "loop_step F L co fnum G" "matched F L co fnum G"
  for F L co fnum G
proof
  show "matched F L co fnum G (new_loops co)"
    by (auto simp: matched_def new_loops_def loops_known_def intro!: exI [of _ "[]"])
  show "matched F L co fnum G s'" if "matched F L co fnum G s" "loop_step F L co fnum G s s'" for s s'
    using that loop_step_matched by blast
qed

text \<open>Whatever the stream comes to with its loops, it comes to in the machine without them.\<close>

theorem loops_refine:
  assumes "(loop_step F L co fnum G)\<^sup>*\<^sup>* (new_loops co) (st, gs)"
  shows "\<exists>ts. (stream_step F L co fnum G)\<^sup>*\<^sup>* (NewStream, []) (st, ts) \<and> in_round ts = in_round (map snd gs)"
  using looping.reachable [OF assms] by (auto simp: matched_def)

section \<open>Goroutines end\<close>

text \<open>
  What goes on when nothing more comes from outside: sections run, and the loops of closed connections go round.
\<close>

inductive quiet_step ::
  "'f Config \<Rightarrow> (string \<Rightarrow> string) \<Rightarrow> stream \<times> goroutine list \<Rightarrow> stream \<times> goroutine list \<Rightarrow> bool"
  for co fnum where
  ran: "i < length gs \<Longrightarrow> gs ! i = (lo, t # rest) \<Longrightarrow> run_task co fnum env t st = Done (st', new)
    \<Longrightarrow> quiet_step co fnum (st, gs) (st', gs[i := (lo, new @ rest)] @ spawned env st t)"
| turned: "i < length gs \<Longrightarrow> gs ! i = (Some lo, []) \<Longrightarrow> loop_closed st lo \<Longrightarrow> arrives st lo a
    \<Longrightarrow> turn co env a lo st = (st', lo', new)
    \<Longrightarrow> quiet_step co fnum (st, gs) (st', gs[i := (lo', new)])"

text \<open>
  A loop that is still to end counts more than the sections of its last round, and less than the section that
  starts it.
\<close>

definition weight :: "goroutine \<Rightarrow> nat list" where
  "weight g = (case fst g of None \<Rightarrow> [] | Some lo \<Rightarrow> [2]) @ map rank (snd g)"

lemma weights_update:
  assumes "i < length gs"
  shows "\<exists>M. mset (concat (map weight gs)) = M + mset (weight (gs ! i))
    \<and> mset (concat (map weight (gs[i := g] @ hs))) = M + mset (weight g) + mset (concat (map weight hs))"
proof -
  have gs: "gs = take i gs @ gs ! i # drop (Suc i) gs" using assms by (rule id_take_nth_drop)
  have upd: "gs[i := g] = take i gs @ g # drop (Suc i) gs" using assms by (rule upd_conv_take_nth_drop)
  let ?M = "mset (concat (map weight (take i gs @ drop (Suc i) gs)))"
  have "mset (concat (map weight gs)) = ?M + mset (weight (gs ! i))" by (subst gs) simp
  moreover have "mset (concat (map weight (gs[i := g] @ hs))) = ?M + mset (weight g) + mset (concat (map weight hs))"
    unfolding upd by simp
  ultimately show ?thesis by blast
qed

lemma turn_closed:
  assumes "loop_closed st lo" and "arrives st lo a" and "turn co env a lo st = (st', lo', new)"
  shows "lo' = None" and "\<forall>t \<in> set new. rank t < 2"
  using assms by (cases lo; auto simp: arrives_def ping_tick_def Let_def)+

lemma spawned_weight: "\<forall>x \<in> set (concat (map weight (spawned env st t))). x < rank t"
  by (cases t) (auto simp: weight_def)

lemma quiet_step_decreases:
  assumes "quiet_step co fnum s s'"
  shows "(mset (concat (map weight (snd s'))), mset (concat (map weight (snd s)))) \<in> mult {(x, y). x < y}"
  using assms
proof (cases rule: quiet_step.cases)
  case (ran i gs lo t rest env st st' new)
  let ?w = "case lo of None \<Rightarrow> [] | Some lo \<Rightarrow> [2 :: nat]"
  obtain M where M: "mset (concat (map weight gs)) = M + mset (weight (gs ! i))"
    "mset (concat (map weight (gs[i := (lo, new @ rest)] @ spawned env st t)))
      = M + mset (weight (lo, new @ rest)) + mset (concat (map weight (spawned env st t)))"
    using weights_update [OF ran(3)] by blast
  let ?I = "M + mset ?w + mset (map rank rest)"
  have "mset (concat (map weight gs)) = ?I + {#rank t#}" using M(1) ran(4) by (simp add: weight_def)
  moreover have "mset (concat (map weight (snd s'))) = ?I + (mset (map rank new) + mset (concat (map weight (spawned env st t))))"
    using M(2) ran(2) by (simp add: weight_def)
  moreover have "(?I + (mset (map rank new) + mset (concat (map weight (spawned env st t)))), ?I + {#rank t#}) \<in> mult {(x, y). x < y}"
    using run_task_rank [OF ran(5)] spawned_weight [of env st t] by (intro one_step_implies_mult) auto
  ultimately show ?thesis using ran(1) by simp
next
  case (turned i gs lo st a env st' lo' new)
  obtain M where M: "mset (concat (map weight gs)) = M + mset (weight (gs ! i))"
    "mset (concat (map weight (gs[i := (lo', new)] @ []))) = M + mset (weight (lo', new)) + mset (concat (map weight []))"
    using weights_update [OF turned(3)] by blast
  note closed = turn_closed [OF turned(5-7)]
  have "(M + mset (map rank new), M + {#2#}) \<in> mult {(x, y). x < y}"
    using closed(2) by (intro one_step_implies_mult) auto
  then show ?thesis using M turned(1,2,4) closed(1) by (simp add: weight_def)
qed

text \<open>
  C23. Every goroutine of the stream comes to an end. Nothing goes on for ever of itself: there is no infinite run
  of sections and of rounds of loops whose connection is closed, from no state whatever, although sections
  start goroutines with loops. A loop whose connection is closed, be it the client's, the backend's, or the one
  that pings, can always make a round, and its next round is its last; and a round that closes the connection is
  the last as well.
\<close>

theorem goroutines_end:
  "\<not> (\<exists>run. \<forall>n. quiet_step co fnum (run n) (run (Suc n)))
   \<and> (\<forall>st gs i lo. i < length gs \<and> gs ! i = (Some lo, []) \<and> loop_closed st lo \<longrightarrow>
        (\<exists>new. quiet_step co fnum (st, gs) (st, gs[i := (None, new)])))
   \<and> (\<forall>st lo env a st' lo' new. arrives st lo a \<and> turn co env a lo st = (st', lo', new)
        \<and> (loop_closed st lo \<or> (\<exists>k. Closing k \<in> set new)) \<longrightarrow> lo' = None)"
proof (intro conjI allI impI)
  show "\<not> (\<exists>run. \<forall>n. quiet_step co fnum (run n) (run (Suc n)))"
  proof
    assume "\<exists>run. \<forall>n. quiet_step co fnum (run n) (run (Suc n))"
    then obtain run where "\<forall>n. quiet_step co fnum (run n) (run (Suc n))" by blast
    then have "\<exists>f. \<forall>n. (f (Suc n), f n) \<in> mult {(x, y). x < (y :: nat)}"
      using quiet_step_decreases by (intro exI [of _ "\<lambda>n. mset (concat (map weight (snd (run n))))"]) blast
    moreover have "wf (mult {(x, y). x < (y :: nat)})" by (intro wf_mult wf_less)
    ultimately show False unfolding wf_iff_no_infinite_down_chain by simp
  qed
next
  fix st i lo and gs :: "goroutine list"
  assume a: "i < length gs \<and> gs ! i = (Some lo, []) \<and> loop_closed st lo"
  fix env :: ws_env
  have "\<exists>new. turn co env Broken lo st = (st, None, new)" using a by (cases lo) (simp_all add: ping_tick_def)
  then obtain new where "turn co env Broken lo st = (st, None, new)" ..
  then show "\<exists>new. quiet_step co fnum (st, gs) (st, gs[i := (None, new)])"
    using a quiet_step.turned [of i gs lo st Broken co env st None new fnum] by (auto simp: arrives_def)
next
  fix st lo env a st' lo' new
  assume "arrives st lo a \<and> turn co env a lo st = (st', lo', new) \<and> (loop_closed st lo \<or> (\<exists>k. Closing k \<in> set new))"
  then show "lo' = None"
    using turn_closed(1) [of st lo a co env st' lo' new]
    by (cases lo) (auto simp: ping_tick_def Let_def split: arrival.splits if_splits)
qed

text \<open>A connection that has been closed, and its two goroutines.\<close>

definition hung_up :: stream where
  "hung_up = upd_conn 0 (\<lambda>w. w\<lparr>Wclosed := True\<rparr>) subscribed"

lemma goroutines_end_witness:
  "(\<exists>new. quiet_step sample_stream sample_num (hung_up, [(Some (PingPong 0), []), (Some (ReadingBackend 0), [])])
      (hung_up, [(Some (PingPong 0), []), (None, new)]))
   \<and> fst (snd (turn sample_stream (env_at 9 no_chain) Broken (PingPong 0) hung_up)) = None
   \<and> Wclosed (the_conn hung_up 0)"
proof -
  have closed: "Wclosed (the_conn hung_up 0)" by (simp add: hung_up_def subscribed_def upd_conn_def)
  obtain st' lo' new where t: "turn sample_stream (env_at 9 no_chain) Broken (PingPong 0) hung_up = (st', lo', new)"
    by (metis prod_cases3)
  note E = goroutines_end [of sample_stream sample_num]
  have "lo' = None"
    using E [THEN conjunct2, THEN conjunct2, rule_format, of hung_up "PingPong 0" Broken "env_at 9 no_chain" st' lo' new] t closed
    by (simp add: arrives_def)
  moreover have "\<exists>new. quiet_step sample_stream sample_num (hung_up, [(Some (PingPong 0), []), (Some (ReadingBackend 0), [])])
      (hung_up, [(Some (PingPong 0), []), (Some (ReadingBackend 0), [])][1 := (None, new)])"
    using E [THEN conjunct2, THEN conjunct1, rule_format, of 1 "[(Some (PingPong 0), []), (Some (ReadingBackend 0), [])]" "ReadingBackend 0" hung_up]
      closed by simp
  ultimately show ?thesis using t closed by simp
qed

end
