(* ===== verification/Stream_Delivery.thy ===== *)
theory Stream_Delivery
  imports Stream_Isolation
begin

text \<open>
  Who is reached: heads and replies of backends, subscriptions moved away from a stale backend, and the
  search for stale backends where not all backends stream.
\<close>

section \<open>Messages to many clients\<close>

lemma sendToClient_sent:
  "Csent (the_client (sendToClient r m st) i)
     = (if i = r \<and> r < length (client_heap st) then Csent (the_client st i) @ [m] else Csent (the_client st i))"
  by (cases "r < length (client_heap st)") (auto simp: sendToClient_def upd_client_def nth_list_update list_update_beyond)

lemma client_heap_length_send [simp]: "length (client_heap (sendToClient r m st)) = length (client_heap st)"
  by (simp add: sendToClient_def)

lemma broadcast_fold_sent:
  assumes test: "\<And>st r r' m. Q (sendToClient r' m st) r = Q st r"
    and "distinct (map snd xs)" and "\<forall>x \<in> set xs. snd x < length (client_heap st)"
  shows "Csent (the_client (fold (\<lambda>(i, r) st. if Q st r then sendToClient r m st else st) xs st) r)
    = Csent (the_client st r) @ (if r \<in> snd ` set xs \<and> Q st r then [m] else [])"
  using assms(2,3)
proof (induction xs arbitrary: st)
  case (Cons x xs)
  obtain i r' where x: "x = (i, r')" by fastforce
  let ?st = "if Q st r' then sendToClient r' m st else st"
  have "Csent (the_client (fold (\<lambda>(i, r) st. if Q st r then sendToClient r m st else st) xs ?st) r)
      = Csent (the_client ?st r) @ (if r \<in> snd ` set xs \<and> Q ?st r then [m] else [])"
    using Cons.prems by (intro Cons.IH) auto
  moreover have "Q ?st r = Q st r" by (simp add: test)
  ultimately show ?case using Cons.prems by (auto simp: x sendToClient_sent)
qed simp

lemma registered_once:
  assumes "stream_ok co st"
  shows "distinct (map snd (wclients st))" and "\<forall>x \<in> set (wclients st). snd x < length (client_heap st)"
proof -
  have named: "clients_named (client_keys (typing_of co st)) (wclients st)" by (rule ok_parts(5) [OF assms])
  then have d: "distinct (map fst (wclients st))"
    and n: "\<And>x. x \<in> set (wclients st) \<Longrightarrow> fst x = fst (client_keys (typing_of co st) ! snd x)"
    by (auto simp: clients_named_def)
  have "x = y" if "x \<in> set (wclients st)" "y \<in> set (wclients st)" "snd x = snd y" for x y
    using n [OF that(1)] n [OF that(2)] that(3) by (simp add: prod_eq_iff)
  then show "distinct (map snd (wclients st))"
    using d by (auto simp: distinct_map inj_on_def)
  show "\<forall>x \<in> set (wclients st). snd x < length (client_heap st)" using named by (auto simp: clients_named_def)
qed

lemma broadcast_sent:
  assumes "stream_ok co st" and "\<And>st r r' m. Q (sendToClient r' m st) r = Q st r"
  shows "Csent (the_client (broadcast Q m st) r)
    = Csent (the_client st r) @ (if r \<in> snd ` set (wclients st) \<and> Q st r then [m] else [])"
  unfolding broadcast_def by (rule broadcast_fold_sent [OF assms(2) registered_once [OF assms(1)]])

text \<open>
  C21. A head that is news reaches every subscriber of its chain, once: in every reachable state, the section
  that notifies sends the head to each registered client of the chain that holds a subscription to new
  heads, whichever backend it came from, and nothing to any other client.
\<close>

theorem heads_reach_subscribers:
  assumes "(stream_step F L co fnum G)\<^sup>*\<^sup>* (NewStream, []) (st, ts)" and "length (Backends co) < 2 ^ 64"
  shows "\<exists>st'. run_task co fnum env (Notifying chain d) st = Done (st', [])
    \<and> (\<forall>r. Csent (the_client st' r) = Csent (the_client st r)
             @ (if r \<in> snd ` set (wclients st) \<and> CChain (the_client st r) = chain
                     \<and> (\<exists>x \<in> set (CSubs (the_client st r)). subscribed_to ''newHeads'' (the_sub st (snd x)))
                then [notification d] else []))"
proof -
  have ok: "stream_ok co st" using streaming.reachable [OF assms(1)] assms(2) by (simp add: machine_ok_def)
  show ?thesis
    using broadcast_sent [where Q = "wants_heads chain", OF ok test_heads]
    by (simp add: notifyBlockSubscribers_def wants_heads_def list_ex_iff)
qed

text \<open>
  C39. The answer to a call made over a WebSocket is not for its caller alone. Whatever a backend sends that
  is no subscription notification goes to every client that is connected, on whichever chain.
\<close>

theorem replies_broadcast:
  assumes "(stream_step F L co fnum G)\<^sup>*\<^sup>* (NewStream, []) (st, ts)" and "length (Backends co) < 2 ^ 64"
    and "MMethod m \<noteq> ''eth_subscription''"
  shows "\<exists>st'. run_task co fnum env (Forwarding k m) st = Done (st', [])
    \<and> (\<forall>r. Csent (the_client st' r) = Csent (the_client st r)
             @ (if r \<in> snd ` set (wclients st) \<and> \<not> Cclosed (the_client st r) then [m] else []))"
proof -
  have ok: "stream_ok co st" using streaming.reachable [OF assms(1)] assms(2) by (simp add: machine_ok_def)
  show ?thesis
    using broadcast_sent [where Q = "\<lambda>st r. \<not> Cclosed (the_client st r)", OF ok test_closed] assms(3)
    by (simp add: forwardBackendMessage_def)
qed

section \<open>Moving subscriptions\<close>

declare migrate.simps(2) [simp del]

lemma sub_of_upd:
  "the_sub (upd_sub s f st) i = (if i = s \<and> s < length (sub_heap st) then f (the_sub st s) else the_sub st i)"
  by (cases "s < length (sub_heap st)") (auto simp: upd_sub_def list_update_beyond)

lemma conn_of_upd:
  "the_conn (upd_conn k f st) i = (if i = k \<and> k < length (conn_heap st) then f (the_conn st k) else the_conn st i)"
  by (cases "k < length (conn_heap st)") (auto simp: upd_conn_def list_update_beyond)

definition resubscribe :: "Subscription \<Rightarrow> Message" where
  "resubscribe sub = request_message (Some (JStr (SubID sub))) (SubMethod sub) (SubParams sub)"

lemma migrate_one_effect:
  assumes "s < length (sub_heap st)" and "k < length (conn_heap st)" and "old \<noteq> Some k"
  shows "the_sub (migrate_one w nb k old s st) i = (if i = s then (the_sub st s)\<lparr>SubBackend := nb\<rparr> else the_sub st i)"
    and "the_conn (migrate_one w nb k old s st) k
      = (the_conn st k)\<lparr>WSubs := AList.update (SubID (the_sub st s)) s (WSubs (the_conn st k)),
                       Wsent := Wsent (the_conn st k) @ (if w then [resubscribe (the_sub st s)] else [])\<rparr>"
    and "old = Some o' \<Longrightarrow> o' < length (conn_heap st) \<Longrightarrow>
      WSubs (the_conn (migrate_one w nb k old s st) o') = AList.delete (SubID (the_sub st s)) (WSubs (the_conn st o'))"
    and "k' \<noteq> k \<Longrightarrow> old \<noteq> Some k' \<Longrightarrow> the_conn (migrate_one w nb k old s st) k' = the_conn st k'"
    and "length (sub_heap (migrate_one w nb k old s st)) = length (sub_heap st)"
    and "length (conn_heap (migrate_one w nb k old s st)) = length (conn_heap st)"
  using assms by (auto simp: migrate_one_def Let_def sendMessage_def sub_of_upd conn_of_upd resubscribe_def split: option.splits)

text \<open>The subscriptions whose write succeeds, when the first write is the \<open>n\<close>-th.\<close>

fun written :: "(nat \<Rightarrow> bool) \<Rightarrow> nat \<Rightarrow> nat list \<Rightarrow> nat list" where
  "written ok n [] = []"
| "written ok n (s # ss) = (if ok n then [s] else []) @ written ok (Suc n) ss"

lemma migrate_effects:
  assumes "\<forall>s \<in> set ss. s < length (sub_heap st)" and "k < length (conn_heap st)" and "old \<noteq> Some k"
  shows "(\<forall>i. the_sub (migrate ok n nb k old ss st) i = (if i \<in> set ss then (the_sub st i)\<lparr>SubBackend := nb\<rparr> else the_sub st i))
    \<and> Wsent (the_conn (migrate ok n nb k old ss st) k)
      = Wsent (the_conn st k) @ map (\<lambda>s. resubscribe (the_sub st s)) (written ok n ss)
    \<and> (\<forall>k'. k' \<noteq> k \<and> old \<noteq> Some k' \<longrightarrow> the_conn (migrate ok n nb k old ss st) k' = the_conn st k')"
  using assms
proof (induction ss arbitrary: n st)
  case (Cons s ss)
  note one = migrate_one_effect [OF _ Cons.prems(2,3), where s = s and nb = nb and w = "ok n"]
  have s: "s < length (sub_heap st)" using Cons.prems(1) by simp
  have ss: "\<forall>s' \<in> set ss. s' < length (sub_heap (migrate_one (ok n) nb k old s st))"
    "k < length (conn_heap (migrate_one (ok n) nb k old s st))" using Cons.prems by (simp_all add: one(5,6) [OF s])
  have same: "resubscribe (the_sub (migrate_one (ok n) nb k old s st) i) = resubscribe (the_sub st i)" for i
    by (simp add: one(1) [OF s] resubscribe_def)
  show ?case
    using Cons.IH [OF ss Cons.prems(3), of "Suc n"] one(1,2,4) [OF s] same by (auto simp: migrate_Cons)
qed simp

lemma migrate_files_no_other:
  assumes "\<forall>s \<in> set ss. s < length (sub_heap st) \<and> SubID (the_sub st s) \<noteq> x"
    and "k < length (conn_heap st)" and "old \<noteq> Some k"
  shows "map_of (WSubs (the_conn (migrate ok n nb k old ss st) k)) x = map_of (WSubs (the_conn st k)) x"
  using assms
proof (induction ss arbitrary: n st)
  case (Cons s ss)
  note one = migrate_one_effect [OF _ Cons.prems(2,3), where s = s and nb = nb and w = "ok n"]
  have s: "s < length (sub_heap st)" using Cons.prems(1) by simp
  have same: "SubID (the_sub (migrate_one (ok n) nb k old s st) i) = SubID (the_sub st i)" for i by (simp add: one(1) [OF s])
  have "map_of (WSubs (the_conn (migrate ok n nb k old (s # ss) st) k)) x
      = map_of (WSubs (the_conn (migrate_one (ok n) nb k old s st) k)) x"
    unfolding migrate_Cons using Cons.prems one(5,6) same by (intro Cons.IH) simp_all
  then show ?case using one(2) [OF s] Cons.prems(1) by (auto simp: AList.update_conv')
qed simp

lemma migrate_files:
  assumes "\<forall>s \<in> set ss. s < length (sub_heap st)" and "k < length (conn_heap st)" and "old \<noteq> Some k"
    and "distinct (map (\<lambda>s. SubID (the_sub st s)) ss)" and "r \<in> set ss"
  shows "map_of (WSubs (the_conn (migrate ok n nb k old ss st) k)) (SubID (the_sub st r)) = Some r"
  using assms
proof (induction ss arbitrary: n st)
  case (Cons s ss)
  note one = migrate_one_effect [OF _ Cons.prems(2,3), where s = s and nb = nb and w = "ok n"]
  have s: "s < length (sub_heap st)" using Cons.prems(1) by simp
  have same: "SubID (the_sub (migrate_one (ok n) nb k old s st) i) = SubID (the_sub st i)" for i by (simp add: one(1) [OF s])
  show ?case
  proof (cases "r = s")
    case True
    have "map_of (WSubs (the_conn (migrate ok n nb k old (s # ss) st) k)) (SubID (the_sub st s))
        = map_of (WSubs (the_conn (migrate_one (ok n) nb k old s st) k)) (SubID (the_sub st s))"
      unfolding migrate_Cons
    proof (rule migrate_files_no_other)
      show "\<forall>s' \<in> set ss. s' < length (sub_heap (migrate_one (ok n) nb k old s st))
          \<and> SubID (the_sub (migrate_one (ok n) nb k old s st) s') \<noteq> SubID (the_sub st s)"
        using Cons.prems(1,4) by (auto simp: same one(5) [OF s] image_iff)
      show "k < length (conn_heap (migrate_one (ok n) nb k old s st))" using Cons.prems(2) one(6) [OF s] by simp
      show "old \<noteq> Some k" by (rule Cons.prems(3))
    qed
    then show ?thesis using True one(2) [OF s] by (simp add: AList.update_conv')
  next
    case False
    have "map_of (WSubs (the_conn (migrate ok n nb k old (s # ss) st) k))
        (SubID (the_sub (migrate_one (ok n) nb k old s st) r)) = Some r"
      unfolding migrate_Cons
    proof (rule Cons.IH)
      show "\<forall>s' \<in> set ss. s' < length (sub_heap (migrate_one (ok n) nb k old s st))"
        using Cons.prems(1) by (simp add: one(5) [OF s])
      show "k < length (conn_heap (migrate_one (ok n) nb k old s st))" using Cons.prems(2) one(6) [OF s] by simp
      show "old \<noteq> Some k" by (rule Cons.prems(3))
      show "distinct (map (\<lambda>s'. SubID (the_sub (migrate_one (ok n) nb k old s st) s')) ss)"
        using Cons.prems(4) by (simp add: same)
      show "r \<in> set ss" using Cons.prems(5) False by simp
    qed
    then show ?thesis by (simp add: same)
  qed
qed simp

lemma migrate_removes:
  assumes "\<forall>s \<in> set ss. s < length (sub_heap st)" and "k < length (conn_heap st)" and "o' \<noteq> k"
    and "o' < length (conn_heap st)"
  shows "map_of (WSubs (the_conn (migrate ok n nb k (Some o') ss st) o')) x
    = (if x \<in> (\<lambda>s. SubID (the_sub st s)) ` set ss then None else map_of (WSubs (the_conn st o')) x)"
  using assms
proof (induction ss arbitrary: n st)
  case (Cons s ss)
  have old: "Some o' \<noteq> Some k" using Cons.prems(3) by simp
  note one = migrate_one_effect [OF _ Cons.prems(2) old, where s = s and nb = nb and w = "ok n"]
  have s: "s < length (sub_heap st)" using Cons.prems(1) by simp
  have same: "SubID (the_sub (migrate_one (ok n) nb k (Some o') s st) i) = SubID (the_sub st i)" for i
    by (simp add: one(1) [OF s])
  have "map_of (WSubs (the_conn (migrate ok n nb k (Some o') (s # ss) st) o')) x
      = (if x \<in> (\<lambda>s. SubID (the_sub st s)) ` set ss then None
         else map_of (WSubs (the_conn (migrate_one (ok n) nb k (Some o') s st) o')) x)"
    unfolding migrate_Cons using Cons.prems one(5,6) by (subst Cons.IH) (simp_all add: same)
  then show ?case using one(3) [OF s refl Cons.prems(4)] by (simp add: AList.delete_conv')
qed simp

text \<open>
  C22. What moving subscriptions does. When the subscriptions of a stale backend are moved to another
  connection, each of them is then held with the new backend and filed in that connection, whichever writes
  succeed, and the new backend is asked, in order and as the clients asked, for those whose write succeeds;
  the others are neither asked for nor reported. They are gone from the one old connection that was looked
  up, if there was one. No other subscription changes, what else the two connections hold stays, and every
  further connection, also one to the stale backend, keeps what it had.
\<close>

theorem subscriptions_moved:
  assumes "distinct (map (\<lambda>s. SubID (the_sub st s)) ss)" and "\<forall>s \<in> set ss. s < length (sub_heap st)"
    and "k < length (conn_heap st)" and "old \<noteq> Some k" and "\<forall>o'. old = Some o' \<longrightarrow> o' < length (conn_heap st)"
  shows "\<exists>st'. run_task co fnum env (Migrating b ss nb k old) st = Done (st', [Sweeping b, Untracking b])
    \<and> (\<forall>s. the_sub st' s = (if s \<in> set ss then (the_sub st s)\<lparr>SubBackend := nb\<rparr> else the_sub st s))
    \<and> (\<forall>s \<in> set ss. map_of (WSubs (the_conn st' k)) (SubID (the_sub st s)) = Some s)
    \<and> (\<forall>x. x \<notin> (\<lambda>s. SubID (the_sub st s)) ` set ss \<longrightarrow>
         map_of (WSubs (the_conn st' k)) x = map_of (WSubs (the_conn st k)) x)
    \<and> (\<forall>o' x. old = Some o' \<longrightarrow> map_of (WSubs (the_conn st' o')) x
         = (if x \<in> (\<lambda>s. SubID (the_sub st s)) ` set ss then None else map_of (WSubs (the_conn st o')) x))
    \<and> (\<forall>k'. k' \<noteq> k \<and> old \<noteq> Some k' \<longrightarrow> the_conn st' k' = the_conn st k')
    \<and> Wsent (the_conn st' k) = Wsent (the_conn st k) @ map (\<lambda>s. resubscribe (the_sub st s)) (written (env_write env) 0 ss)"
proof -
  note moved = migrate_effects [OF assms(2-4)] migrate_files [OF assms(2-4,1)]
  have "map_of (WSubs (the_conn (migrate ok 0 nb k old ss st) o')) x
      = (if x \<in> (\<lambda>s. SubID (the_sub st s)) ` set ss then None else map_of (WSubs (the_conn st o')) x)"
    if "old = Some o'" for ok o' x
    using migrate_removes [OF assms(2,3)] assms(4,5) that by auto
  moreover have "map_of (WSubs (the_conn (migrate ok 0 nb k old ss st) k)) x = map_of (WSubs (the_conn st k)) x"
    if "x \<notin> (\<lambda>s. SubID (the_sub st s)) ` set ss" for ok x
    using assms(2) that by (intro migrate_files_no_other [OF _ assms(3,4)]) auto
  ultimately show ?thesis by (simp add: moved migrate_subscriptions_def)
qed

section \<open>Searching for stale backends\<close>

lemma split_backend_key: "CHR '':'' \<notin> set chain \<Longrightarrow> split_key (backend_key chain u) = Some (chain, u)"
  by (induction chain) (auto simp: backend_key_def)

lemma backend_with_panics:
  assumes "b < length bs" and "Chain (bs ! b) = chain" and "WSURL (bs ! b) = None"
    and "\<forall>i < b. Chain (bs ! i) = chain \<longrightarrow> WSURL (bs ! i) \<noteq> Some u"
  shows "backend_with chain u n bs = Panic"
  using assms
proof (induction bs arbitrary: b n)
  case (Cons x bs)
  show ?case
  proof (cases b)
    case 0
    then show ?thesis using Cons.prems by simp
  next
    case (Suc b')
    have "\<forall>i < b'. Chain (bs ! i) = chain \<longrightarrow> WSURL (bs ! i) \<noteq> Some u" using Cons.prems(4) Suc by auto
    then have "backend_with chain u (Suc n) bs = Panic" using Cons.prems Suc by (intro Cons.IH [of b']) auto
    moreover have "Chain x = chain \<longrightarrow> WSURL x \<noteq> Some u" using Cons.prems(4) Suc by auto
    ultimately show ?thesis by (auto split: option.splits)
  qed
qed simp

lemma stale_backends_panics:
  assumes "(key, t0) \<in> set xs" and "split_key key = Some (chain, u)" and "staleAfter co chain < t - t0"
    and "backend_with chain u 0 (Backends co) = Panic"
  shows "stale_backends co t st xs = Panic"
  using assms(1)
proof (induction xs)
  case (Cons x xs)
  show ?case
  proof (cases "x = (key, t0)")
    case True
    then show ?thesis using assms(2-4) by simp
  next
    case False
    then have rest: "stale_backends co t st xs = Panic" using Cons by auto
    obtain key' t' where x: "x = (key', t')" by fastforce
    have "obind (backend_with c v 0 (Backends co)) (\<lambda>found. obind Panic (g found)) = Panic" for c v
      and g :: "nat option \<Rightarrow> nat list \<Rightarrow> (string, nat list) outcome"
      using backend_with_no_fail [of c v 0 "Backends co"] by (cases "backend_with c v 0 (Backends co)") auto
    then show ?thesis using rest by (auto simp: x split: option.splits)
  qed
qed simp

text \<open>
  C40. The search for stale backends cannot cope with a chain whose backends do not all stream. Once a
  backend of the chain has been silent for too long, the search panics if it meets a backend of the same
  chain without a WebSocket URL before the silent one, and with it the program, as no one recovers there.
\<close>

theorem sanity_panics:
  assumes "(backend_key chain u, t0) \<in> set (lastBlockTime st)" and "CHR '':'' \<notin> set chain"
    and "staleAfter co chain < env_now env - t0"
    and "b < length (Backends co)" and "Chain (Backends co ! b) = chain" and "wsurl co b = None"
    and "\<forall>i < b. Chain (Backends co ! i) = chain \<longrightarrow> wsurl co i \<noteq> Some u"
  shows "run_task co fnum env CheckingSanity st = Panic"
proof -
  have "backend_with chain u 0 (Backends co) = Panic"
    using assms(4-7) by (intro backend_with_panics) (simp_all add: wsurl_def)
  from stale_backends_panics [OF assms(1) split_backend_key [OF assms(2)] assms(3) this]
  show ?thesis by (simp add: checkBlockSanity_def)
qed

section \<open>Examples\<close>

definition silent :: stream where
  "silent = subscribed\<lparr>lastBlockTime := [(backend_key ''eth'' ''ws://b'', 7)]\<rparr>"

lemma sanity_panics_witness:
  "run_task sample_stream sample_num (env_at (24000000000 + 8) no_chain) CheckingSanity silent = Panic"
proof (rule sanity_panics [where chain = "''eth''" and u = "''ws://b''" and ?t0.0 = 7 and b = 0])
  show "(backend_key ''eth'' ''ws://b'', 7) \<in> set (lastBlockTime silent)" by (simp add: silent_def)
  show "staleAfter sample_stream ''eth'' < env_now (env_at (24000000000 + 8) no_chain) - 7"
    by (simp add: staleAfter_def env_at_def sample_stream_def BlockTime_def chain_config_def wrap64_id)
qed (use sample_stream_simps in \<open>auto simp: http_node_def sample_backend_def\<close>)

definition heads_request :: Message where
  "heads_request = request_message (Some (JNum ''2'')) ''eth_subscribe'' (Some (JArr [JStr ''newHeads'']))"

definition heads_sub :: Subscription where
  "heads_sub =
     \<lparr>SubID = ''0x8'', SubMethod = ''eth_subscribe'', SubParams = Some (JArr [JStr ''newHeads'']),
      ClientID = ''client_5'', SubBackend = 1, Created = 8\<rparr>"

definition following :: stream where
  "following =
     subscribed\<lparr>subscriptions := [(''0x7'', 0), (''0x8'', 1)], sub_heap := [logs_sub, heads_sub],
       conn_heap := [\<lparr>WBackend = 1, WSubs = [(''0x7'', 0), (''0x8'', 1)], Wclosed = False, lastPing = 7, lastPong = 7,
                      messageCount = 0, Wsent = [logs_request, heads_request]\<rparr>],
       client_heap := [\<lparr>CID = ''client_5'', CChain = ''eth'', CSubs = [(''0x7'', 0), (''0x8'', 1)], Cclosed = False,
                        lastActivity = 8, Csent = [result_message (Some (JNum ''1'')) (JStr ''0x7''),
                                                   result_message (Some (JNum ''2'')) (JStr ''0x8'')]\<rparr>]\<rparr>"

lemma heads_ids: "generateSubscriptionID 8 = ''0x8''" "jstring ''0x8'' = JStr ''0x8''"
  by code_simp+

lemma heads_run: "drive [8, 8, 8, 8, 8, 8, 8, 8] (subscribed, [Dispatching 0 heads_request]) = Some (following, [])"
  by (simp add: subscribed_def handleClientMessage_def heads_request_def request_message_def upd_client_def
      handleSubscribe_def env_at_def record_subscription_def heads_ids
      register_subscription_def getOrCreateWSConnection_def with_url_def conns_at_def choose_connection_def
      subscriptions_config_def createWSConnection_def Let_def attach_subscription_def upd_conn_def send_subscription_def
      sendMessage_def sendToClient_def following_def heads_sub_def result_message_def)

lemma reach_following: "sample_step\<^sup>*\<^sup>* (NewStream, []) (following, [[], []])"
  using started_steps [OF reach_subscribed _ _ heads_run] by (simp add: subscribed_def)

lemma heads_reach_subscribers_witness:
  "\<exists>st'. run_task sample_stream sample_num (env_at 9 no_chain) (Notifying ''eth'' (JStr ''0x1'')) following = Done (st', [])
     \<and> Csent (the_client st' 0)
       = Csent (the_client following 0) @ [notification (JStr ''0x1'')]"
proof -
  have member: "0 \<in> snd ` set (wclients following)" "CChain (the_client following 0) = ''eth''"
    "\<exists>x \<in> set (CSubs (the_client following 0)). subscribed_to ''newHeads'' (the_sub following (snd x))"
    by (simp_all add: following_def subscribed_def heads_sub_def
        subscribed_to_def as_any_slice_def json_eval)
  have "\<exists>st'. run_task sample_stream sample_num (env_at 9 no_chain) (Notifying ''eth'' (JStr ''0x1'')) following = Done (st', [])
      \<and> (\<forall>r. Csent (the_client st' r) = Csent (the_client following r)
          @ (if r \<in> snd ` set (wclients following) \<and> CChain (the_client following r) = ''eth''
                \<and> (\<exists>x \<in> set (CSubs (the_client following r)). subscribed_to ''newHeads'' (the_sub following (snd x)))
             then [notification (JStr ''0x1'')] else []))"
    by (intro heads_reach_subscribers [OF reach_following]) simp
  with member show ?thesis by (elim exE conjE) (intro exI conjI, assumption, simp)
qed

definition reply :: Message where
  "reply = result_message (Some (JNum ''2'')) (JStr ''0x10'')"

lemma replies_broadcast_witness:
  "\<exists>st'. run_task sample_stream sample_num (env_at 9 no_chain) (Forwarding 0 reply) subscribed = Done (st', [])
     \<and> Csent (the_client st' 0) = [result_message (Some (JNum ''1'')) (JStr ''0x7''), reply]"
  using replies_broadcast [OF reach_subscribed, where m = reply and env = "env_at 9 no_chain" and k = 0]
  by (auto simp: reply_def result_message_def subscribed_def)

definition conn_to :: "nat \<Rightarrow> WebsocketConnection" where
  "conn_to b = \<lparr>WBackend = b, WSubs = [], Wclosed = False, lastPing = 8, lastPong = 8, messageCount = 0, Wsent = []\<rparr>"

definition two_conns :: stream where
  "two_conns = following\<lparr>conn_heap := conn_heap following @ [conn_to 2]\<rparr>"

text \<open>The second of two writes fails.\<close>

lemma subscriptions_moved_witness:
  "\<exists>st'. run_task sample_stream sample_num ((env_at 9 no_chain)\<lparr>env_write := (\<lambda>n. n = 0)\<rparr>) (Migrating 1 [0, 1] 2 1 (Some 0)) two_conns
        = Done (st', [Sweeping 1, Untracking 1])
     \<and> the_sub st' 0 = logs_sub\<lparr>SubBackend := 2\<rparr> \<and> the_sub st' 1 = heads_sub\<lparr>SubBackend := 2\<rparr>
     \<and> map_of (WSubs (the_conn st' 0)) ''0x8'' = None \<and> map_of (WSubs (the_conn st' 1)) ''0x8'' = Some 1
     \<and> Wsent (the_conn st' 1) = [resubscribe logs_sub]"
proof -
  let ?env = "(env_at 9 no_chain)\<lparr>env_write := (\<lambda>n. n = 0)\<rparr>"
  have two: "the_sub two_conns 0 = logs_sub" "the_sub two_conns (Suc 0) = heads_sub" "the_conn two_conns (Suc 0) = conn_to 2"
    "length (conn_heap two_conns) = 2" "length (sub_heap two_conns) = 2" "SubID logs_sub = ''0x7''" "SubID heads_sub = ''0x8''"
    by (simp_all add: two_conns_def following_def subscribed_def logs_sub_def heads_sub_def)
  from subscriptions_moved [of two_conns "[0, 1]" 1 "Some 0" sample_stream sample_num ?env 1 2] obtain st' where
    "run_task sample_stream sample_num ?env (Migrating 1 [0, 1] 2 1 (Some 0)) two_conns = Done (st', [Sweeping 1, Untracking 1])"
    "\<forall>s. the_sub st' s = (if s \<in> set [0, 1] then (the_sub two_conns s)\<lparr>SubBackend := 2\<rparr> else the_sub two_conns s)"
    "\<forall>s \<in> set [0, 1]. map_of (WSubs (the_conn st' 1)) (SubID (the_sub two_conns s)) = Some s"
    "map_of (WSubs (the_conn st' 0)) ''0x8'' = None"
    "Wsent (the_conn st' 1) = [resubscribe logs_sub]"
    by (auto simp: two conn_to_def simp del: run_task.simps)
  then show ?thesis by (simp add: two del: run_task.simps)
qed

end
