(* ===== verification/Nodes.thy ===== *)
theory Nodes
  imports Router_Truth
begin

text \<open>
  What the rest of the program may do to the balancer: the requests of the router and the probes of the
  monitor reach it through a few operations, so that what each of these keeps holds at all times. Two
  such facts: weights and histories stay bounded, and the nodes of a chain stay the configured ones.
\<close>

section \<open>The contract\<close>

text \<open>What tells a node from the others, and its history, which only \<open>UpdateLatency\<close> writes.\<close>

definition node :: "backend \<Rightarrow> (string \<times> string option \<times> string option) \<times> int list" where
  "node b = ((Chain b, URL b, WSURL b), PerformanceLatencyHistory b)"

lemma node_updates [simp]:
  "node (b\<lparr>Head := h\<rparr>) = node b" "node (markUp n b) = node b" "node (markDown e n b) = node b"
  by (simp_all add: node_def markUp_def markDown_def Let_def)

locale kept_by_balancer =
  fixes F :: "'f float64" and pc :: "'f PerformanceConfig" and I :: "'f balancer \<Rightarrow> bool"
  assumes seed_kept: "I l \<Longrightarrow> I (l\<lparr>seed := s\<rparr>)"
    and latency_kept: "I l \<Longrightarrow> UpdateLatency F i d pc l = Some l' \<Longrightarrow> I l'"
    and backend_kept: "I l \<Longrightarrow> node b = node (pool l ! i) \<Longrightarrow> I (set_backend i b l)"
begin

lemma pick_kept:
  assumes "PickAtLeast F L env env2 c scheme minHead (l, lims) = (r, l', lims')" and "I l"
  shows "I l'"
  using PickAtLeast_state [OF assms(1)] seed_kept [OF assms(2)] by auto

lemma head_kept: "I l \<Longrightarrow> I (set_head k op l)"
  unfolding set_head_def by (rule backend_kept) simp_all

lemma probe_kept:
  assumes "probe F ops hc pc i res (l, cache) = Some (l', cache')" and "I l"
  shows "I l'"
proof (cases "passed res")
  case False
  then obtain e where "l' = set_backend i (markDown e (FailsToDown hc) (pool l ! i)) l"
    using assms(1) by (cases res) (auto simp: probe_def passed_def split: if_splits)
  then show ?thesis using assms(2) backend_kept by simp
next
  case True
  then obtain status reason body d where r: "res = Probed status reason body d" "200 \<le> status" "status < 300"
    by (cases res) (auto simp: passed_def)
  then obtain l1 where l1: "UpdateLatency F i d pc l = Some l1"
    using assms(1) by (auto simp: probe_def split: if_splits option.splits)
  then have "I l1" using assms(2) latency_kept by blast
  moreover obtain b where "l' = set_backend i (markUp (PassesToUp hc) b) l1" "node b = node (pool l1 ! i)"
    using assms(1) r l1 by (auto simp: probe_def Let_def split: if_splits option.splits)
  ultimately show ?thesis using backend_kept by simp
qed

text \<open>A request to the router, if what happens meanwhile keeps it too.\<close>

lemma complete_batch_kept:
  "complete_batch w clk chain reqs cached k body st = (d, st') \<Longrightarrow> I (lb st) \<Longrightarrow> I (lb st')"
  by (auto simp: complete_batch_def Let_def split: option.splits prod.splits intro!: backend_kept)

lemma observe_single_kept: "I (lb st) \<Longrightarrow> I (lb (observe_single ops chain k body st))"
  by (auto simp: observe_single_def head_kept split: prod.splits)

lemma receive_kept:
  assumes "floats w = F" and "perf w = pc" and "receive w a chain j last_one k x st = (y, st')" and "I (lb st)"
  shows "I (lb st')"
proof (cases x)
  case (Failed e)
  then show ?thesis using assms(3,4) by (auto simp: receive_def split: if_splits)
next
  case (Replied c h d)
  show ?thesis
  proof (cases "c = 200 \<and> \<not> last_one \<and> BlockUnavailable d \<or> isRetryableStatus c
      \<or> UpdateLatency F k (elapsed a) pc (lb st) = None")
    case True
    then show ?thesis
      using assms Replied head_kept by (auto simp: receive_def Let_def split: if_splits option.splits)
  next
    case False
    then obtain l where l: "UpdateLatency F k (elapsed a) pc (lb st) = Some l" by auto
    have kept: "I (lb (st\<lparr>lb := l\<rparr>))" using latency_kept [OF assms(4) l] by simp
    have "st' = st\<lparr>lb := l\<rparr> \<or> st' = observe_single (tiers_ops w) chain k d (st\<lparr>lb := l\<rparr>)
        \<or> (\<exists>reqs cached d'. complete_batch w (clock_of a) chain reqs cached k d (st\<lparr>lb := l\<rparr>) = (d', st'))"
      using assms(1-3) Replied False l
      by (auto simp: receive_def Let_def split: if_splits option.splits job.splits prod.splits)
    then show ?thesis using kept observe_single_kept [OF kept] complete_batch_kept [OF _ kept] by auto
  qed
qed

lemma attempt_once_kept:
  assumes "floats w = F" and "perf w = pc" and "\<And>t. I (lb t) \<Longrightarrow> I (lb (meanwhile a t))"
    and "attempt_once w a chain inHdr body j last_one prev st = (y, st')" and "I (lb st)"
  shows "I (lb st')"
proof -
  obtain r l lims where p: "PickAtLeast F (limits w) (fst (picks a)) (snd (picks a)) chain ''http'' (job_head j)
      (lb st, limiters st) = (r, l, lims)" by (rule prod_cases3)
  have l: "I l" by (rule pick_kept [OF p assms(5)])
  show ?thesis
  proof (cases "\<exists>i. r = Done i \<and> URL (pool l ! (members l chain ! i)) \<noteq> None")
    case True
    then obtain i url where i: "r = Done i" "URL (pool l ! (members l chain ! i)) = Some url" by auto
    obtain x where "receive w a chain j last_one (members l chain ! i) x (meanwhile a (st\<lparr>lb := l, limiters := lims\<rparr>))
        = (y, st')"
      using assms(1,4) p i by (simp add: attempt_once_def Let_def)
    then show ?thesis using receive_kept [OF assms(1,2)] assms(3) l by simp
  next
    case False
    then show ?thesis
      using assms(1,4) p l by (cases r) (auto simp: attempt_once_def Let_def split: option.splits if_splits)
  qed
qed

lemma attempts_kept:
  assumes "floats w = F" and "perf w = pc" and "\<And>n t. I (lb t) \<Longrightarrow> I (lb (meanwhile (env n) t))"
    and "attempts w env chain inHdr body j n left prev st = (y, st')" and "I (lb st)"
  shows "I (lb st')"
  using assms(4,5)
proof (induction left arbitrary: n prev st)
  case (Suc left)
  obtain z t where z: "attempt_once w (env n) chain inHdr body j (left = 0) prev st = (z, t)" by fastforce
  have "I (lb t)" by (rule attempt_once_kept [OF assms(1-3) z Suc.prems(2)])
  then show ?case using Suc z by (cases z) auto
qed simp

lemma run_job_kept:
  assumes "floats w = F" and "perf w = pc" and "\<And>n t. I (lb t) \<Longrightarrow> I (lb (meanwhile (env n) t))"
    and "run_job w env clk chain inHdr body j st = (resp, st')" and "I (lb st)"
  shows "I (lb st')"
proof -
  obtain y t where y: "attempts w env chain inHdr body j 1 (MaxAttempts w)
      \<lparr>bk = None, status = 0, hdrs = [], data = None\<rparr> st = (y, t)" by fastforce
  have t: "I (lb t)" by (rule attempts_kept [OF assms(1-3) y assms(5)])
  have "lb st' = lb t" using assms(4) y by (auto simp: run_job_def split: attempted.splits prod.splits)
  then show ?thesis using t by simp
qed

lemma handle_kept:
  assumes "floats w = F" and "perf w = pc" and "\<And>n t. I (lb t) \<Longrightarrow> I (lb (meanwhile (env n) t))"
    and "handle w env clks rq st = (resp, st')" and "I (lb st)"
  shows "I (lb st')"
proof -
  have job: "I (lb t')" if "run_job w env clk chain inHdr body j (t\<lparr>cstore := s\<rparr>) = (y, t')" "I (lb t)"
    for clk chain inHdr body j t s y t'
    by (rule run_job_kept [OF assms(1-3) that(1)]) (use that(2) in simp_all)
  have single: "I (lb t')" if "handle_single w env clks chain inHdr body r t = (x, t')" "I (lb t)" for chain inHdr body r t x t'
    using that by (auto simp: handle_single_def split: prod.splits outcome.splits dest: job)
  have batch: "I (lb t')" if "handle_batch w env clks chain inHdr body reqs t = (x, t')" "I (lb t)" for chain inHdr body reqs t x t'
    using that by (auto simp: handle_batch_def split: prod.splits outcome.splits if_splits dest: job)
  have post: "I (lb t')" if "handle_post w env clks chain inHdr body t = (x, t')" "I (lb t)" for chain inHdr body t x t'
    using that by (auto simp: handle_post_def split: option.splits json.splits list.splits dest: single batch)
  show ?thesis using assms(4,5) by (auto simp: handle_def Let_def split: if_splits dest: post)
qed

end

section \<open>What is kept\<close>

lemma UpdateLatency_some:
  assumes "sane_floats F" and "1 \<le> Samples pc" and "balancer_ok F pc l" and "UpdateLatency F i d pc l = Some l'"
  shows "balancer_ok F pc l'"
proof (cases "i < length (pool l)")
  case True
  then show ?thesis using UpdateLatency_ok [OF assms(1-3)] assms(4) by (metis option.sel)
next
  case False
  then show ?thesis
    using assms(3,4) weigh_ok [OF assms(1,3)] by (auto simp: UpdateLatency_def Let_def set_backend_def list_update_beyond)
qed

interpretation weighing: kept_by_balancer F pc "\<lambda>l. sane_floats F \<and> 1 \<le> Samples pc \<longrightarrow> balancer_ok F pc l" for F pc
proof
  show "sane_floats F \<and> 1 \<le> Samples pc \<longrightarrow> balancer_ok F pc (l\<lparr>seed := s\<rparr>)"
    if "sane_floats F \<and> 1 \<le> Samples pc \<longrightarrow> balancer_ok F pc l" for l s using that by (simp add: seed_ok)
  show "sane_floats F \<and> 1 \<le> Samples pc \<longrightarrow> balancer_ok F pc l'"
    if "sane_floats F \<and> 1 \<le> Samples pc \<longrightarrow> balancer_ok F pc l" "UpdateLatency F i d pc l = Some l'" for l i d l'
    using that UpdateLatency_some by blast
  show "sane_floats F \<and> 1 \<le> Samples pc \<longrightarrow> balancer_ok F pc (set_backend i b l)"
    if kept: "sane_floats F \<and> 1 \<le> Samples pc \<longrightarrow> balancer_ok F pc l" and b: "node b = node (pool l ! i)" for l b i
  proof (cases "i < length (pool l)")
    case True
    then show ?thesis using kept b by (auto simp: node_def balancer_ok_def dest!: set_update_subset_insert [THEN subsetD])
  next
    case False
    then show ?thesis using kept by (simp add: set_backend_def list_update_beyond)
  qed
qed

text \<open>The nodes are those of the configuration, in its order.\<close>

definition serves :: "backend list \<Rightarrow> 'f balancer \<Rightarrow> bool" where
  "serves bs l \<longleftrightarrow>
     members l = (\<lambda>c. filter (\<lambda>i. Chain (bs ! i) = c) [0..<length bs]) \<and> map (fst \<circ> node) (pool l) = map (fst \<circ> node) bs"

lemma serves_new: "serves bs (NewLoadBalancer F bs s)"
  by (simp add: serves_def NewLoadBalancer_def Let_def o_def node_def)

lemma serves_set: "serves bs l \<Longrightarrow> fst (node b) = fst (node (pool l ! i)) \<Longrightarrow> serves bs (set_backend i b l)"
proof (cases "i < length (pool l)")
  case True
  assume l: "serves bs l" and b: "fst (node b) = fst (node (pool l ! i))"
  have "map (fst \<circ> node) ((pool l)[i := b]) = (map (fst \<circ> node) (pool l))[i := map (fst \<circ> node) (pool l) ! i]"
    using True b by (simp add: map_update)
  then show ?thesis using l by (simp add: serves_def set_backend_def)
qed (simp add: set_backend_def list_update_beyond)

interpretation nodes: kept_by_balancer F pc "serves bs" for F pc bs
proof
  show "serves bs (l\<lparr>seed := s\<rparr>)" if "serves bs l" for l s using that by (simp add: serves_def)
  show "serves bs l'" if old: "serves bs l" and new: "UpdateLatency F i d pc l = Some l'" for l i d l'
  proof -
    obtain h where "l' = weigh F (Chain (pool l ! i)) pc (set_backend i ((pool l ! i)\<lparr>PerformanceLatencyHistory := h,
        PerformanceAvgLatency := average_latency h, RequestCount := RequestCount (pool l ! i) + 1\<rparr>) l)"
      using new by (auto simp: UpdateLatency_def Let_def)
    moreover have "serves bs (weigh F c pc m) = serves bs m" for c m by (simp add: weigh_def Let_def serves_def)
    moreover have "fst (node ((pool l ! i)\<lparr>PerformanceLatencyHistory := h, PerformanceAvgLatency := a, RequestCount := n\<rparr>))
        = fst (node (pool l ! i))" for h a n by (simp add: node_def)
    ultimately show ?thesis using serves_set [OF old] by simp
  qed
  show "serves bs (set_backend i b l)" if "serves bs l" "node b = node (pool l ! i)" for l b i
    using serves_set [OF that(1)] that(2) by simp
qed

lemma serves_nth:
  assumes "serves bs l" and "i < length bs"
  shows "i < length (pool l)" and "Chain (pool l ! i) = Chain (bs ! i)" and "URL (pool l ! i) = URL (bs ! i)"
    and "WSURL (pool l ! i) = WSURL (bs ! i)"
proof -
  have m: "map (fst \<circ> node) (pool l) = map (fst \<circ> node) bs" using assms(1) by (simp add: serves_def)
  then have "length (pool l) = length bs" by (rule map_eq_imp_length_eq)
  then show i: "i < length (pool l)" using assms(2) by simp
  have "(fst \<circ> node) (pool l ! i) = (fst \<circ> node) (bs ! i)" using arg_cong [OF m, of "\<lambda>xs. xs ! i"] i assms(2) by simp
  then show "Chain (pool l ! i) = Chain (bs ! i)" and "URL (pool l ! i) = URL (bs ! i)"
    and "WSURL (pool l ! i) = WSURL (bs ! i)" by (simp_all add: node_def)
qed

end
