(* ===== verification/Server.thy ===== *)
theory Server
  imports Nodes Config Batch_Machine Stream_Delivery
begin

text \<open>
  The program put together, \<open>cmd/sabre/main.go\<close> and the dispatcher of \<open>internal/router/router.go\<close>: how the
  components are built from the configuration file, which of them a request, a connection, a probe or a
  batch reaches, and how they are shut down. The machine of the server interleaves the steps of its
  components, so that the invariants of the components are those of the running program. The machine of
  the process adds the shutdown and the exit.
\<close>

section \<open>Starting\<close>

text \<open>The stream is there when a backend streams; its goroutines are kept with it.\<close>

record ('m, 'd, 'f, 'l) server =
  settings :: "'f Config"
  handler :: "('m, 'd, 'f, 'l) router_state"
  batcher :: bp_state
  streamer :: "(stream \<times> task list list) option"

text \<open>\<open>time.NewTicker\<close> panics on an interval that is not positive.\<close>

definition monitor_starts :: "HealthConfig \<Rightarrow> (string, bool) outcome" where
  "monitor_starts hc =
     (if \<not> HEnabled hc then Done False else if TTLCheck hc \<le> 0 then Panic else Done True)"

definition start_server ::
  "'f float64 \<Rightarrow> (string \<Rightarrow> string + string) \<Rightarrow> (string \<Rightarrow> string) \<Rightarrow> (string \<Rightarrow> string + 'd) \<Rightarrow> (int \<Rightarrow> 'm)
     \<Rightarrow> (nat \<Rightarrow> 'l) \<Rightarrow> u64 \<Rightarrow> 'f config_file \<Rightarrow> (string, ('m, 'd, 'f, 'l) server) outcome" where
  "start_server F parse_url quoting open_db new_lru lims s f =
     obind (ParseConfig F parse_url quoting f) (\<lambda>(c, rates).
       (case Open open_db new_lru (CacheC c) of
          Inl e \<Rightarrow> Fail e
        | Inr st \<Rightarrow>
            obind (monitor_starts (Health c)) (\<lambda>on.
              Done \<lparr>settings = c,
                    handler = \<lparr>cstore = st, lb = NewLoadBalancer F (Backends c) s, limiters = lims, TotalReq = 0\<rparr>,
                    batcher = bp_init, streamer = (if HasWebSocket c then Some (NewStream, []) else None)\<rparr>)))"

text \<open>What the router takes from the configuration.\<close>

definition world_of ::
  "(bytes \<Rightarrow> bytes) \<Rightarrow> (string \<Rightarrow> string) \<Rightarrow> ('m, 'd) tiers \<Rightarrow> 'f float64 \<Rightarrow> ('l, 'r) rate_limiter \<Rightarrow> 'f Config
     \<Rightarrow> ('m, 'd, 'f, 'l, 'r) world" where
  "world_of H fnum ops F L c =
     \<lparr>hash_of = H, fnum_of = fnum, tiers_ops = ops, floats = F, limits = L, MaxAttempts = nat (SMaxAttempts (Sabre c)),
      BatchEnabled = BEnabled (BatchC c), perf = Performance c\<rparr>"

section \<open>Requests and connections\<close>

text \<open>
  A request is answered, becomes a connection, or fails in the handshake, which the library answers. \<open>shakes\<close>
  is whether the handshake succeeds.
\<close>

datatype dispatched = Responded "http_response option" | Connected | Refused

definition dispatch ::
  "('m, 'd, 'f, 'l, 'r) world \<Rightarrow> (nat \<Rightarrow> ('m, 'd, 'f, 'l, 'r) surroundings) \<Rightarrow> (nat \<Rightarrow> nat \<Rightarrow> int) \<Rightarrow> int \<Rightarrow> bool \<Rightarrow> bool
     \<Rightarrow> http_request \<Rightarrow> ('m, 'd, 'f, 'l) server \<Rightarrow> dispatched \<times> ('m, 'd, 'f, 'l) server" where
  "dispatch w env clks t upgrade shakes rq srv =
     (if upgrade then
        (case streamer srv of
           None \<Rightarrow> (Responded (Some (http_error ''WebSocket not enabled'' 503)), srv)
         | Some (st, ts) \<Rightarrow>
             (case HandleWebSocket t (path rq) st of
                None \<Rightarrow> (Responded (Some (http_error ''chain path required (e.g., /ethereum, /base)'' 400)), srv)
              | Some st' \<Rightarrow>
                  if shakes then (Connected, srv\<lparr>streamer := Some (st', ts)\<rparr>) else (Refused, srv)))
      else (case handle w env clks rq (handler srv) of (resp, h) \<Rightarrow> (Responded resp, srv\<lparr>handler := h\<rparr>)))"

section \<open>Probes\<close>

text \<open>
  One round of \<open>Monitor\<close>: the backends of all chains, in the order in which an iteration meets the chains, and
  the results of their probes, in the order in which they come in.
\<close>

definition monitor_targets :: "string list \<Rightarrow> 'f balancer \<Rightarrow> nat list" where
  "monitor_targets cs l = concat (map (members l) cs)"

definition monitor_round ::
  "'f float64 \<Rightarrow> ('m, 'd) tiers \<Rightarrow> HealthConfig \<Rightarrow> 'f PerformanceConfig \<Rightarrow> (nat \<times> probe_result) list
     \<Rightarrow> 'f balancer \<times> ('m, 'd) store option \<Rightarrow> ('f balancer \<times> ('m, 'd) store option) option" where
  "monitor_round F ops hc pcfg results lbs =
     foldl (\<lambda>s (i, res). Option.bind s (probe F ops hc pcfg i res)) (Some lbs) results"

section \<open>The server as a machine\<close>

text \<open>What the other parts do while a request is under way leaves alone what they leave alone in a step.\<close>

definition fair :: "('m, 'd, 'f, 'l, 'r) world \<Rightarrow> answers \<Rightarrow> (string \<times> rpcReq) set \<Rightarrow> 'f Config
    \<Rightarrow> ('m, 'd, 'f, 'l, 'r) surroundings \<Rightarrow> bool" where
  "fair w genuine U co a \<longleftrightarrow>
     (\<forall>t. truthful_in w genuine U (cstore t) \<longrightarrow> truthful_in w genuine U (cstore (meanwhile a t)))
     \<and> (\<forall>t. serves (Backends co) (lb t) \<longrightarrow> serves (Backends co) (lb (meanwhile a t)))
     \<and> (\<forall>t. balancer_ok (floats w) (perf w) (lb t) \<longrightarrow> balancer_ok (floats w) (perf w) (lb (meanwhile a t)))"

inductive server_step ::
  "('m, 'd, 'f, 'l, 'r) world \<Rightarrow> answers \<Rightarrow> (string \<times> rpcReq) set \<Rightarrow> nat \<Rightarrow> 'f Config
     \<Rightarrow> ('m, 'd, 'f, 'l) server \<Rightarrow> ('m, 'd, 'f, 'l) server \<Rightarrow> bool"
  for w genuine U G co where
  request: "dispatch w env clks t upgrade shakes rq srv = (ans, srv')
    \<Longrightarrow> \<forall>n j. job_of (req_body rq) j \<longrightarrow> honest genuine (chain_of (path rq)) (req_body rq) j (env n)
    \<Longrightarrow> \<forall>n. fair w genuine U co (env n) \<Longrightarrow> \<forall>r \<in> asked (req_body rq). (chain_of (path rq), r) \<in> U \<and> plain_id r
    \<Longrightarrow> server_step w genuine U G co srv srv'"
| probed: "i \<in> set (members (lb (handler srv)) chain)
    \<Longrightarrow> probe (floats w) (tiers_ops w) (Health co) (perf w) i res (lb (handler srv), Some (cstore (handler srv))) = Some (l, Some s)
    \<Longrightarrow> server_step w genuine U G co srv (srv\<lparr>handler := (handler srv)\<lparr>lb := l, cstore := s\<rparr>\<rparr>)"
| streamed: "streamer srv = Some s \<Longrightarrow> stream_step (floats w) (limits w) co (fnum_of w) G s s'
    \<Longrightarrow> server_step w genuine U G co srv (srv\<lparr>streamer := Some s'\<rparr>)"
| batched: "Processor co = Some bp \<Longrightarrow> batch_step bp (batcher srv) b
    \<Longrightarrow> server_step w genuine U G co srv (srv\<lparr>batcher := b\<rparr>)"

text \<open>
  The process. On a signal a goroutine closes the open batches, the clients of the stream, its connections
  and the listener, one call after the other, while the others go on with their work. When the listener is
  closed, \<open>ListenAndServe\<close> returns at once, \<open>main\<close> returns with it, and the process exits with all its
  goroutines: nothing follows.
\<close>

datatype phase = Serving | Flushed | ClientsClosed | StreamClosed | ListenerClosed | Exited

fun stop_section :: "phase \<Rightarrow> ('m, 'd, 'f, 'l) server \<Rightarrow> (string, phase \<times> ('m, 'd, 'f, 'l) server) outcome" where
  "stop_section Serving srv =
     (case (if Processor (settings srv) = None then Some (batcher srv) else FlushAll (batcher srv)) of
        None \<Rightarrow> Panic
      | Some b \<Rightarrow> Done (Flushed, srv\<lparr>batcher := b\<rparr>))"
| "stop_section Flushed srv =
     (case streamer srv of
        None \<Rightarrow> Done (StreamClosed, srv)
      | Some (st, ts) \<Rightarrow> obind (Shutdown_clients st) (\<lambda>(st', _). Done (ClientsClosed, srv\<lparr>streamer := Some (st', ts)\<rparr>)))"
| "stop_section ClientsClosed srv =
     (case streamer srv of
        None \<Rightarrow> Done (StreamClosed, srv)
      | Some (st, ts) \<Rightarrow>
          obind (Shutdown_connections st) (\<lambda>(st', _). Done (StreamClosed, srv\<lparr>streamer := Some (st', ts)\<rparr>)))"
| "stop_section StreamClosed srv = Done (ListenerClosed, srv)"
| "stop_section ListenerClosed srv = Done (Exited, srv)"
| "stop_section Exited srv = Fail ''exited''"

inductive main_step ::
  "('m, 'd, 'f, 'l, 'r) world \<Rightarrow> answers \<Rightarrow> (string \<times> rpcReq) set \<Rightarrow> nat \<Rightarrow> 'f Config
     \<Rightarrow> phase \<times> ('m, 'd, 'f, 'l) server \<Rightarrow> phase \<times> ('m, 'd, 'f, 'l) server \<Rightarrow> bool"
  for w genuine U G co where
  work: "ph \<noteq> Exited \<Longrightarrow> server_step w genuine U G co srv srv' \<Longrightarrow> main_step w genuine U G co (ph, srv) (ph, srv')"
| stop: "stop_section ph srv = Done s \<Longrightarrow> main_step w genuine U G co (ph, srv) s"

inductive_cases main_stepE: "main_step w genuine U G co (ph, srv) s"

text \<open>The invariants of the components.\<close>

definition server_ok :: "('m, 'd, 'f, 'l, 'r) world \<Rightarrow> answers \<Rightarrow> (string \<times> rpcReq) set \<Rightarrow> 'f Config
    \<Rightarrow> ('m, 'd, 'f, 'l) server \<Rightarrow> bool" where
  "server_ok w genuine U co srv \<longleftrightarrow>
     settings srv = co \<and> truthful_in w genuine U (cstore (handler srv)) \<and> serves (Backends co) (lb (handler srv))
     \<and> balancer_ok (floats w) (perf w) (lb (handler srv))
     \<and> (\<forall>s. streamer srv = Some s \<longrightarrow> machine_ok co s)
     \<and> (\<forall>bp. Processor co = Some bp \<longrightarrow> batch_inv bp (batcher srv))"

text \<open>What the invariants rest on: honest tiers and keys, sane floats, and sizes.\<close>

definition sound_world :: "('m, 'd, 'f, 'l, 'r) world \<Rightarrow> answers \<Rightarrow> (string \<times> rpcReq) set \<Rightarrow> 'f Config \<Rightarrow> bool" where
  "sound_world w genuine U co \<longleftrightarrow>
     lawful (tiers_ops w) \<and> answer_relation genuine \<and> keys_tell (hash_of w) (fnum_of w) genuine U
     \<and> sane_floats (floats w) \<and> length (Backends co) < 2 ^ 64"

lemma probe_truthful:
  assumes "probe F ops hc pcfg i res (l, Some s) = Some (l', Some s')" and "lawful ops"
    and "truthful H fnum ops genuine U s"
  shows "truthful H fnum ops genuine U s'"
proof -
  have "s' = s \<or> (\<exists>body c. s' = CheckReorgFromHealthResponse ops body c s)"
    using assms(1) by (auto simp: probe_def Let_def split: if_splits option.splits probe_result.splits)
  moreover have "CheckReorgFromHealthResponse ops body c s = s
      \<or> (\<exists>n h. CheckReorgFromHealthResponse ops body c s = UpdateLatestBlock ops c n h body s)" for body c
    by (cases "ExtractBlockInfo body") (auto simp: CheckReorgFromHealthResponse_def)
  ultimately have "s' = s \<or> (\<exists>c n h d. s' = UpdateLatestBlock ops c n h d s)" by metis
  then show ?thesis using UpdateLatestBlock_all [OF assms(2)] assms(3) unfolding truthful_def by blast
qed

lemma handle_server_ok:
  assumes "sound_world w genuine U co" and "1 \<le> Samples (perf w)" and "server_ok w genuine U co srv"
    and "handle w env clks rq (handler srv) = (resp, h)"
    and "\<forall>n j. job_of (req_body rq) j \<longrightarrow> honest genuine (chain_of (path rq)) (req_body rq) j (env n)"
    and "\<forall>n. fair w genuine U co (env n)" and "\<forall>r \<in> asked (req_body rq). (chain_of (path rq), r) \<in> U \<and> plain_id r"
  shows "server_ok w genuine U co (srv\<lparr>handler := h\<rparr>)
    \<and> (\<forall>r. resp = Some r \<longrightarrow> answers_body genuine (chain_of (path rq)) (req_body rq) r)"
proof -
  note w = assms(1) [unfolded sound_world_def] and ok = assms(3) [unfolded server_ok_def]
  have cache: "truthful_in w genuine U (cstore h)
      \<and> (\<forall>r. resp = Some r \<longrightarrow> answers_body genuine (chain_of (path rq)) (req_body rq) r)"
    using w ok assms(6,7) by (intro handle_sound [OF _ _ _ assms(5) _ _ _ assms(4)]) (auto simp: fair_def)
  have "serves (Backends co) (lb h)"
    by (rule nodes.handle_kept [OF refl refl _ assms(4)]) (use ok assms(6) in \<open>auto simp: fair_def\<close>)
  moreover have "sane_floats (floats w) \<and> 1 \<le> Samples (perf w) \<longrightarrow> balancer_ok (floats w) (perf w) (lb h)"
    by (rule weighing.handle_kept [OF refl refl _ assms(4)]) (use ok assms(6) in \<open>auto simp: fair_def\<close>)
  ultimately show ?thesis using w ok cache assms(2) by (simp add: server_ok_def)
qed

lemma server_step_ok:
  assumes w: "sound_world w genuine U co" and samples: "1 \<le> Samples (perf w)" and ok: "server_ok w genuine U co srv" and step: "server_step w genuine U G co srv srv'"
  shows "server_ok w genuine U co srv'"
  using step
proof (cases rule: server_step.cases)
  case (request env clks t upgrade shakes rq ans)
  show ?thesis
  proof (cases upgrade)
    case False
    then obtain resp h where "handle w env clks rq (handler srv) = (resp, h)" "srv' = srv\<lparr>handler := h\<rparr>"
      using request(1) by (auto simp: dispatch_def split: prod.splits)
    then show ?thesis using handle_server_ok [OF w samples ok _ request(2-4)] by blast
  next
    case True
    then have "srv' = srv \<or> (\<exists>st ts st'. streamer srv = Some (st, ts) \<and> HandleWebSocket t (path rq) st = Some st'
        \<and> srv' = srv\<lparr>streamer := Some (st', ts)\<rparr>)"
      using request(1) by (auto simp: dispatch_def split: option.splits if_splits)
    moreover have "machine_ok co (st', ts)"
      if "streamer srv = Some (st, ts)" "HandleWebSocket t (path rq) st = Some st'" for st ts st'
    proof -
      have m: "machine_ok co (st, ts)" and len: "length (Backends co) < 2 ^ 64"
        using that(1) ok w by (simp_all add: server_ok_def sound_world_def)
      show ?thesis by (rule stream_step_ok [OF m stream_step.accept [OF that(2)] len])
    qed
    ultimately show ?thesis using ok by (auto simp: server_ok_def)
  qed
next
  case (probed i chain res l s)
  have "truthful_in w genuine U s" using probe_truthful [OF probed(3)] w ok by (simp add: sound_world_def server_ok_def)
  moreover have "serves (Backends co) l" using nodes.probe_kept [OF probed(3)] ok by (simp add: server_ok_def)
  moreover have "balancer_ok (floats w) (perf w) l"
    using weighing.probe_kept [OF probed(3)] ok w samples by (simp add: server_ok_def sound_world_def)
  ultimately show ?thesis using ok probed(1) by (simp add: server_ok_def)
next
  case (streamed s s')
  then show ?thesis using stream_step_ok [OF _ streamed(3)] ok w by (simp add: server_ok_def sound_world_def)
next
  case (batched bp b)
  then show ?thesis using batch_inv_step [OF _ batched(3)] ok by (simp add: server_ok_def)
qed

text \<open>
  What is asked of the other parts is what they do: whichever requests with such surroundings and whichever
  probes run while a request is under way, they are fair to it.
\<close>

inductive handler_step ::
  "('m, 'd, 'f, 'l, 'r) world \<Rightarrow> answers \<Rightarrow> (string \<times> rpcReq) set \<Rightarrow> 'f Config
     \<Rightarrow> ('m, 'd, 'f, 'l) router_state \<Rightarrow> ('m, 'd, 'f, 'l) router_state \<Rightarrow> bool"
  for w genuine U co where
  handled: "handle w env clks rq h = (resp, h')
    \<Longrightarrow> \<forall>n j. job_of (req_body rq) j \<longrightarrow> honest genuine (chain_of (path rq)) (req_body rq) j (env n)
    \<Longrightarrow> \<forall>n. fair w genuine U co (env n) \<Longrightarrow> \<forall>r \<in> asked (req_body rq). (chain_of (path rq), r) \<in> U \<and> plain_id r
    \<Longrightarrow> handler_step w genuine U co h h'"
| checked: "probe (floats w) (tiers_ops w) (Health co) (perf w) i res (lb h, Some (cstore h)) = Some (l, Some s)
    \<Longrightarrow> handler_step w genuine U co h (h\<lparr>lb := l, cstore := s\<rparr>)"

lemma handler_step_kept:
  assumes "handler_step w genuine U co h h'" and "sound_world w genuine U co" and "1 \<le> Samples (perf w)"
  shows "truthful_in w genuine U (cstore h) \<Longrightarrow> truthful_in w genuine U (cstore h')"
    and "serves (Backends co) (lb h) \<Longrightarrow> serves (Backends co) (lb h')"
    and "balancer_ok (floats w) (perf w) (lb h) \<Longrightarrow> balancer_ok (floats w) (perf w) (lb h')"
proof -
  note w = assms(2) [unfolded sound_world_def]
  from assms(1) have "(truthful_in w genuine U (cstore h) \<longrightarrow> truthful_in w genuine U (cstore h'))
    \<and> (serves (Backends co) (lb h) \<longrightarrow> serves (Backends co) (lb h'))
    \<and> (balancer_ok (floats w) (perf w) (lb h) \<longrightarrow> balancer_ok (floats w) (perf w) (lb h'))"
  proof (cases rule: handler_step.cases)
    case (handled env clks rq resp)
    have "truthful_in w genuine U (cstore h')" if "truthful_in w genuine U (cstore h)"
      using w handled(3,4) that handle_sound [OF _ _ _ handled(2) _ _ _ handled(1)] by (auto simp: fair_def)
    moreover have "serves (Backends co) (lb h')" if "serves (Backends co) (lb h)"
      by (rule nodes.handle_kept [OF refl refl _ handled(1)]) (use that handled(3) in \<open>auto simp: fair_def\<close>)
    moreover have "sane_floats (floats w) \<and> 1 \<le> Samples (perf w) \<longrightarrow> balancer_ok (floats w) (perf w) (lb h')"
      if "balancer_ok (floats w) (perf w) (lb h)"
      by (rule weighing.handle_kept [OF refl refl _ handled(1)]) (use that handled(3) in \<open>auto simp: fair_def\<close>)
    ultimately show ?thesis using w assms(3) by blast
  next
    case (checked i res l s)
    then show ?thesis
      using probe_truthful [OF checked(2)] nodes.probe_kept [OF checked(2)] weighing.probe_kept [OF checked(2)] w assms(3)
      by simp
  qed
  then show "truthful_in w genuine U (cstore h) \<Longrightarrow> truthful_in w genuine U (cstore h')"
    and "serves (Backends co) (lb h) \<Longrightarrow> serves (Backends co) (lb h')"
    and "balancer_ok (floats w) (perf w) (lb h) \<Longrightarrow> balancer_ok (floats w) (perf w) (lb h')" by blast+
qed

lemma interleaved_fair:
  assumes "\<forall>t. (handler_step w genuine U co)\<^sup>*\<^sup>* t (meanwhile a t)"
    and "sound_world w genuine U co" and "1 \<le> Samples (perf w)"
  shows "fair w genuine U co a"
proof -
  have kept: "P (meanwhile a t)"
    if "P t" and "\<And>h h'. handler_step w genuine U co h h' \<Longrightarrow> P h \<Longrightarrow> P h'" for P t
    using assms(1) [THEN spec, of t] that(1) by (induction rule: rtranclp_induct) (auto intro: that(2))
  show ?thesis
    unfolding fair_def using handler_step_kept [OF _ assms(2,3)] by (intro conjI allI impI) (erule kept, blast)+
qed

interpretation serving: invariant_machine srv0 "server_step w genuine U G co"
  "\<lambda>srv. sound_world w genuine U co \<and> 1 \<le> Samples (perf w) \<and> server_ok w genuine U co srv0 \<longrightarrow> server_ok w genuine U co srv"
  for srv0 w genuine U G co
proof
  show "sound_world w genuine U co \<and> 1 \<le> Samples (perf w) \<and> server_ok w genuine U co srv0 \<longrightarrow> server_ok w genuine U co srv0" by simp
  show "sound_world w genuine U co \<and> 1 \<le> Samples (perf w) \<and> server_ok w genuine U co srv0 \<longrightarrow> server_ok w genuine U co srv'"
    if "sound_world w genuine U co \<and> 1 \<le> Samples (perf w) \<and> server_ok w genuine U co srv0 \<longrightarrow> server_ok w genuine U co srv"
      "server_step w genuine U G co srv srv'" for srv srv'
    using that server_step_ok by blast
qed

section \<open>A server that has started\<close>

text \<open>Fresh tiers hold nothing.\<close>

definition fresh_tiers :: "('m, 'd) tiers \<Rightarrow> (string \<Rightarrow> string + 'd) \<Rightarrow> (int \<Rightarrow> 'm) \<Rightarrow> bool" where
  "fresh_tiers ops open_db new_lru \<longleftrightarrow> (\<forall>p d n. open_db p = Inr d \<longrightarrow> holds_nothing ops (new_lru n) d)"

lemma started_parts:
  assumes "start_server F parse_url quoting open_db new_lru lims s f = Done srv"
  shows "\<exists>rates. config_ok (settings srv) rates"
    and "lb (handler srv) = NewLoadBalancer F (Backends (settings srv)) s" and "batcher srv = bp_init"
    and "streamer srv = (if HasWebSocket (settings srv) then Some (NewStream, []) else None)"
    and "Open open_db new_lru (CacheC (settings srv)) = Inr (cstore (handler srv))"
    and "HEnabled (Health (settings srv)) \<Longrightarrow> 0 < TTLCheck (Health (settings srv))"
  using assms config_accepted
  by (fastforce simp: start_server_def monitor_starts_def split: sum.splits if_splits elim!: obind_DoneE)+

lemma opened_empty:
  assumes "Open open_db new_lru c = Inr st" and "fresh_tiers ops open_db new_lru"
  shows "truthful H fnum ops genuine U st"
  using assms
  by (auto simp: Open_def Let_def fresh_tiers_def holds_nothing_def truthful_def all_entries_def holds_def
      split: if_splits sum.splits)

text \<open>A state of a server that has started from a file with fresh tiers.\<close>

definition runs ::
  "('m, 'd, 'f, 'l, 'r) world \<Rightarrow> answers \<Rightarrow> (string \<times> rpcReq) set \<Rightarrow> nat \<Rightarrow> (string \<Rightarrow> string + string)
     \<Rightarrow> (string \<Rightarrow> string) \<Rightarrow> (string \<Rightarrow> string + 'd) \<Rightarrow> (int \<Rightarrow> 'm) \<Rightarrow> 'f config_file \<Rightarrow> 'f Config
     \<Rightarrow> ('m, 'd, 'f, 'l) server \<Rightarrow> bool" where
  "runs w genuine U G parse_url quoting open_db new_lru f co srv \<longleftrightarrow>
     (\<exists>lims s srv0. start_server (floats w) parse_url quoting open_db new_lru lims s f = Done srv0 \<and> settings srv0 = co
        \<and> fresh_tiers (tiers_ops w) open_db new_lru
        \<and> w = world_of (hash_of w) (fnum_of w) (tiers_ops w) (floats w) (limits w) co
        \<and> (server_step w genuine U G co)\<^sup>*\<^sup>* srv0 srv)"

lemma runs_further:
  assumes "runs w genuine U G parse_url quoting open_db new_lru f co srv" and "(server_step w genuine U G co)\<^sup>*\<^sup>* srv srv'"
  shows "runs w genuine U G parse_url quoting open_db new_lru f co srv'"
  using assms(1) rtranclp_trans [OF _ assms(2)] unfolding runs_def by fast

lemma running:
  assumes "runs w genuine U G parse_url quoting open_db new_lru f co srv" and "sound_world w genuine U co"
  shows "server_ok w genuine U co srv" and "\<exists>rates. config_ok co rates" and "perf w = Performance co"
    and "1 \<le> Samples (perf w)"
proof -
  obtain lims s srv0 where start: "start_server (floats w) parse_url quoting open_db new_lru lims s f = Done srv0"
    and co: "settings srv0 = co" and fresh: "fresh_tiers (tiers_ops w) open_db new_lru"
    and wo: "w = world_of (hash_of w) (fnum_of w) (tiers_ops w) (floats w) (limits w) co"
    and steps: "(server_step w genuine U G co)\<^sup>*\<^sup>* srv0 srv"
    using assms(1) by (auto simp: runs_def)
  note parts = started_parts [OF start, unfolded co]
  show config: "\<exists>rates. config_ok co rates" by (rule parts(1))
  show perf: "perf w = Performance co" by (subst wo) (simp add: world_of_def)
  show samples: "1 \<le> Samples (perf w)" using config perf by (auto simp: config_ok_def limits_ok_def)
  have "truthful_in w genuine U (cstore (handler srv0))" by (rule opened_empty [OF parts(5) fresh])
  moreover have "balancer_ok (floats w) (perf w) (lb (handler srv0))"
    unfolding parts(2) using assms(2) samples by (intro NewLoadBalancer_ok) (simp_all add: sound_world_def)
  moreover have "machine_ok co (NewStream, [])" 
    by (rule streaming.inv_init [rule_format]) (use assms(2) in \<open>simp add: sound_world_def\<close>)
  ultimately have "server_ok w genuine U co srv0"
    using parts(2-4) co by (simp add: server_ok_def serves_new batch_inv_init split: if_splits)
  then show "server_ok w genuine U co srv" using serving.reachable [OF steps] assms(2) samples by blast
qed

lemma running_members:
  assumes "runs w genuine U G parse_url quoting open_db new_lru f co srv" and "sound_world w genuine U co"
    and "i \<in> set (members (lb (handler srv)) c)"
  shows "i < length (Backends co)" and "Chain (Backends co ! i) = c" and "i < length (pool (lb (handler srv)))"
    and "URL (pool (lb (handler srv)) ! i) = URL (Backends co ! i)" and "URL (Backends co ! i) \<noteq> None"
proof -
  have s: "serves (Backends co) (lb (handler srv))" using running(1) [OF assms(1,2)] by (simp add: server_ok_def)
  then show i: "i < length (Backends co)" and "Chain (Backends co ! i) = c" using assms(3) by (auto simp: serves_def)
  show "i < length (pool (lb (handler srv)))" "URL (pool (lb (handler srv)) ! i) = URL (Backends co ! i)"
    using serves_nth [OF s i] by simp_all
  show "URL (Backends co ! i) \<noteq> None" using running(2) [OF assms(1,2)] i by (auto simp: config_ok_def backend_ok_def)
qed

section \<open>What a running server promises\<close>



section \<open>A round of probes\<close>

text \<open>A probe changes one backend.\<close>

lemma probe_other:
  assumes "probe F ops hc pcfg i res (l, cache) = Some (l', cache')"
  shows "length (pool l') = length (pool l)" and "j \<noteq> i \<Longrightarrow> pool l' ! j = pool l ! j"
    and "members l' = members l" and "cache = Some s \<Longrightarrow> \<exists>s'. cache' = Some s'"
proof -
  have weigh: "pool (weigh F c pcfg m) = pool m" "members (weigh F c pcfg m) = members m" for c m
    by (simp_all add: weigh_def Let_def)
  show "length (pool l') = length (pool l)" and "j \<noteq> i \<Longrightarrow> pool l' ! j = pool l ! j" and "members l' = members l"
    and "cache = Some s \<Longrightarrow> \<exists>s'. cache' = Some s'"
    using assms
    by (auto simp: probe_def UpdateLatency_def set_backend_def weigh Let_def split: if_splits option.splits probe_result.splits)
qed

text \<open>The health of a backend after a result, if there was one.\<close>

definition health_after :: "HealthConfig \<Rightarrow> probe_result option \<Rightarrow> backend \<Rightarrow> (bool \<times> 32 word \<times> 32 word) \<times> string option" where
  "health_after hc r b =
     (case r of
        None \<Rightarrow> health b
      | Some res \<Rightarrow> health (if passed res then markUp (PassesToUp hc) b else markDown [] (FailsToDown hc) b))"

lemma monitor_round_Cons:
  "probe F ops hc pcfg i res lbs = Some lbs' \<Longrightarrow>
     monitor_round F ops hc pcfg ((i, res) # results) lbs = monitor_round F ops hc pcfg results lbs'"
  by (simp add: monitor_round_def)

lemma monitor_round_effect:
  assumes "1 \<le> Samples pcfg" and "distinct (map fst results)"
    and "\<forall>i \<in> fst ` set results. i < length (pool l) \<and> URL (pool l ! i) \<noteq> None"
  shows "\<exists>l' s'. monitor_round F ops hc pcfg results (l, Some s) = Some (l', Some s')
    \<and> (\<forall>i < length (pool l). health (pool l' ! i) = health_after hc (map_of results i) (pool l ! i))"
  using assms(2,3)
proof (induction results arbitrary: l s)
  case Nil
  then show ?case by (simp add: monitor_round_def health_after_def)
next
  case (Cons x results)
  obtain i res where x: "x = (i, res)" by fastforce
  have i: "i < length (pool l)" "URL (pool l ! i) \<noteq> None" using Cons.prems(2) by (simp_all add: x)
  obtain l1 c1 where p: "probe F ops hc pcfg i res (l, Some s) = Some (l1, c1)"
    and h: "health (pool l1 ! i) = health_after hc (Some res) (pool l ! i)"
    using probe_health [OF assms(1) i, where F = F and ops = ops and hc = hc and res = res and cache = "Some s"]
    by (auto simp: health_after_def)
  obtain s1 where s1: "c1 = Some s1" using probe_other(4) [OF p refl] by blast
  note other = probe_other(1,2) [OF p]
  have "\<forall>k \<in> fst ` set results. k < length (pool l1) \<and> URL (pool l1 ! k) \<noteq> None"
  proof
    fix k assume k: "k \<in> fst ` set results"
    then have "k \<noteq> i" using Cons.prems(1) by (auto simp: x)
    moreover have "k < length (pool l) \<and> URL (pool l ! k) \<noteq> None" using Cons.prems(2) k by auto
    ultimately show "k < length (pool l1) \<and> URL (pool l1 ! k) \<noteq> None" using other by simp
  qed
  moreover have "distinct (map fst results)" using Cons.prems(1) by simp
  ultimately obtain l' s' where r: "monitor_round F ops hc pcfg results (l1, Some s1) = Some (l', Some s')"
    and rest: "\<forall>k < length (pool l1). health (pool l' ! k) = health_after hc (map_of results k) (pool l1 ! k)"
    using Cons.IH by blast
  have new: "map_of results i = None" using Cons.prems(1) by (simp add: x map_of_eq_None_iff)
  have "health (pool l' ! k) = health_after hc (map_of (x # results) k) (pool l ! k)" if "k < length (pool l)" for k
  proof (cases "k = i")
    case True
    then show ?thesis using rest that other(1) h new by (simp add: x health_after_def)
  next
    case False
    then show ?thesis using rest that other by (simp add: x)
  qed
  then show ?case using r monitor_round_Cons [OF p] s1 by (auto simp: x)
qed

lemma monitor_targets_distinct:
  assumes "serves bs l" and "distinct cs"
  shows "distinct (monitor_targets cs l)"
  using assms(2)
proof (induction cs)
  case (Cons c cs)
  have "set (members l c) \<inter> set (monitor_targets cs l) = {}"
    using assms(1) Cons.prems by (auto simp: serves_def monitor_targets_def)
  then show ?case using Cons assms(1) by (simp add: monitor_targets_def serves_def)
qed (simp add: monitor_targets_def)

text \<open>
  C5. A round of probes is fair to every backend. In every state of a running server, a round over the
  chains does not panic, in whichever order the results come in; each backend of the chains is probed
  once, and its health afterwards is what its own result makes of it, whatever the others did; and the
  backends of other chains are left alone.
\<close>

theorem probe_round:
  assumes "runs w genuine U G parse_url quoting open_db new_lru f co srv" and "sound_world w genuine U co"
    and "distinct cs" and "mset (map fst results) = mset (monitor_targets cs (lb (handler srv)))"
  shows "\<exists>l s. monitor_round (floats w) (tiers_ops w) (Health co) (perf w) results
        (lb (handler srv), Some (cstore (handler srv))) = Some (l, Some s)
    \<and> (\<forall>i < length (Backends co). health (pool l ! i)
          = health_after (Health co) (map_of results i) (pool (lb (handler srv)) ! i)
        \<and> (map_of results i \<noteq> None \<longleftrightarrow> Chain (Backends co ! i) \<in> set cs))"
proof -
  note run = running [OF assms(1,2)] and node = running_members [OF assms(1,2)]
  have s: "serves (Backends co) (lb (handler srv))" using run(1) by (simp add: server_ok_def)
  have targets: "fst ` set results = set (monitor_targets cs (lb (handler srv)))"
    using mset_eq_setD [OF assms(4)] by simp
  have d: "distinct (map fst results)"
    using monitor_targets_distinct [OF s assms(3)] mset_eq_imp_distinct_iff [OF assms(4)] by blast
  have "\<forall>i \<in> fst ` set results. i < length (pool (lb (handler srv))) \<and> URL (pool (lb (handler srv)) ! i) \<noteq> None"
    unfolding targets using node(3-5) by (auto simp: monitor_targets_def)
  from monitor_round_effect [OF run(4) d this] obtain l s' where
    r: "monitor_round (floats w) (tiers_ops w) (Health co) (perf w) results (lb (handler srv), Some (cstore (handler srv)))
      = Some (l, Some s')"
    and h: "\<forall>i < length (pool (lb (handler srv))). health (pool l ! i)
      = health_after (Health co) (map_of results i) (pool (lb (handler srv)) ! i)" by blast
  have "map_of results i \<noteq> None \<longleftrightarrow> Chain (Backends co ! i) \<in> set cs" if "i < length (Backends co)" for i
  proof -
    have "map_of results i \<noteq> None \<longleftrightarrow> i \<in> set (monitor_targets cs (lb (handler srv)))"
      using targets by (simp add: map_of_eq_None_iff)
    then show ?thesis using s that by (auto simp: monitor_targets_def serves_def)
  qed
  then show ?thesis using r h serves_nth(1) [OF s] by blast
qed

section \<open>Stopping a server\<close>

lemma client_of_upd:
  "the_client (upd_client s f st) i = (if i = s \<and> s < length (client_heap st) then f (the_client st s) else the_client st i)"
  "length (client_heap (upd_client s f st)) = length (client_heap st)" "connections (upd_client s f st) = connections st"
  "conn_heap (upd_client s f st) = conn_heap st" "client_heap (upd_conn k g st) = client_heap st"
  by (cases "s < length (client_heap st)") (auto simp: upd_client_def upd_conn_def list_update_beyond)

lemma clients_closed:
  "Cclosed (the_client (fold (\<lambda>(i, r). upd_client r (\<lambda>c. c\<lparr>Cclosed := True\<rparr>)) xs st) r)
     \<longleftrightarrow> r \<in> snd ` set xs \<and> r < length (client_heap st) \<or> Cclosed (the_client st r)"
  "connections (fold (\<lambda>(i, r). upd_client r (\<lambda>c. c\<lparr>Cclosed := True\<rparr>)) xs st) = connections st"
  "conn_heap (fold (\<lambda>(i, r). upd_client r (\<lambda>c. c\<lparr>Cclosed := True\<rparr>)) xs st) = conn_heap st"
  by (induction xs arbitrary: st) (auto simp: client_of_upd split_def)

lemma connections_closed:
  "Wclosed (the_conn (fold (\<lambda>k. upd_conn k (\<lambda>w. w\<lparr>Wclosed := True\<rparr>)) ks st) k)
     \<longleftrightarrow> k \<in> set ks \<and> k < length (conn_heap st) \<or> Wclosed (the_conn st k)"
  "client_heap (fold (\<lambda>k. upd_conn k (\<lambda>w. w\<lparr>Wclosed := True\<rparr>)) ks st) = client_heap st"
  by (induction ks arbitrary: st) (auto simp: client_of_upd conn_of_upd)

text \<open>What each call of the shutdown is for.\<close>

fun closes :: "'f Config \<Rightarrow> phase \<Rightarrow> ('m, 'd, 'f, 'l) server \<Rightarrow> ('m, 'd, 'f, 'l) server \<Rightarrow> bool" where
  "closes co Serving srv srv' \<longleftrightarrow> (Processor co \<noteq> None \<longrightarrow> batches (batcher srv') = [])"
| "closes co Flushed srv srv' \<longleftrightarrow>
     (\<forall>st ts. streamer srv = Some (st, ts) \<longrightarrow>
        (\<exists>st'. streamer srv' = Some (st', ts) \<and> (\<forall>r \<in> snd ` set (wclients st). Cclosed (the_client st' r))))"
| "closes co ClientsClosed srv srv' \<longleftrightarrow>
     (\<forall>st ts. streamer srv = Some (st, ts) \<longrightarrow>
        (\<exists>st'. streamer srv' = Some (st', ts) \<and> (\<forall>k \<in> set (concat (map snd (connections st))). Wclosed (the_conn st' k))))"
| "closes co ph srv srv' \<longleftrightarrow> srv' = srv"

fun calls_left :: "phase \<Rightarrow> nat" where
  "calls_left Serving = 5"
| "calls_left Flushed = 4"
| "calls_left ClientsClosed = 3"
| "calls_left StreamClosed = 2"
| "calls_left ListenerClosed = 1"
| "calls_left Exited = 0"

lemma streams_closed:
  assumes "machine_ok co (st, ts)"
  shows "\<exists>st' new. Shutdown_clients st = Done (st', new) \<and> machine_ok co (st', ts)
      \<and> (\<forall>r \<in> snd ` set (wclients st). Cclosed (the_client st' r))"
    and "\<exists>st' new. Shutdown_connections st = Done (st', new) \<and> machine_ok co (st', ts)
      \<and> (\<forall>k \<in> set (concat (map snd (connections st))). Wclosed (the_conn st' k))"
proof -
  have ok: "stream_ok co st" and tasks: "\<forall>g \<in> set ts. list_all (task_ok co (typing_of co st)) g"
    using assms by (simp_all add: machine_ok_def)
  have kept: "machine_ok co (st', ts)" if "good co (typing_of co st) (Done (st', new))" for st' new
    using that machine_ok_extends [OF tasks] by (simp add: machine_ok_def good_Done)
  have named: "r < length (client_heap st)" if "r \<in> snd ` set (wclients st)" for r
    using ok_parts(5) [OF ok] that by (auto simp: clients_named_def)
  have listed: "k < length (conn_heap st)" if "k \<in> set (concat (map snd (connections st)))" for k
    using ok_parts(6) [OF ok] that by (fastforce simp: conns_listed_def)
  obtain st1 st2 new1 new2 where
      c: "Shutdown_clients st = Done (st1, new1)" "st1 = fold (\<lambda>(i, r). upd_client r (\<lambda>c. c\<lparr>Cclosed := True\<rparr>)) (wclients st) st"
    and d: "Shutdown_connections st = Done (st2, new2)"
      "st2 = fold (\<lambda>k. upd_conn k (\<lambda>w. w\<lparr>Wclosed := True\<rparr>)) (concat (map snd (connections st))) st"
    by (simp add: Shutdown_clients_def Shutdown_connections_def)
  have "Cclosed (the_client st1 r)" if "r \<in> snd ` set (wclients st)" for r
    unfolding c(2) clients_closed using that named by blast
  then show "\<exists>st' new. Shutdown_clients st = Done (st', new) \<and> machine_ok co (st', ts)
      \<and> (\<forall>r \<in> snd ` set (wclients st). Cclosed (the_client st' r))"
    using c(1) kept Shutdown_clients_good [OF ok] by metis
  have "Wclosed (the_conn st2 k)" if "k \<in> set (concat (map snd (connections st)))" for k
    unfolding d(2) connections_closed using that listed by blast
  then show "\<exists>st' new. Shutdown_connections st = Done (st', new) \<and> machine_ok co (st', ts)
      \<and> (\<forall>k \<in> set (concat (map snd (connections st))). Wclosed (the_conn st' k))"
    using d(1) kept Shutdown_connections_good [OF ok] by metis
qed

text \<open>Each call succeeds, does what it is for, keeps the invariants and answers nobody.\<close>

lemma stop_section_ok:
  assumes ok: "server_ok w genuine U co srv" and "ph \<noteq> Exited"
  shows "\<exists>ph' srv'. stop_section ph srv = Done (ph', srv') \<and> closes co ph srv srv' \<and> calls_left ph' < calls_left ph
    \<and> server_ok w genuine U co srv' \<and> sends (batcher srv') = sends (batcher srv) \<and> added (batcher srv') = added (batcher srv)"
proof (cases ph)
  case Serving
  show ?thesis
  proof (cases "Processor co")
    case None
    then show ?thesis using ok Serving by (simp add: server_ok_def)
  next
    case (Some bp)
    have inv: "batch_inv bp (batcher srv)" using ok Some by (simp add: server_ok_def)
    then obtain ss where f: "FlushAll (batcher srv) = Some ((batcher srv)\<lparr>started := ss, batches := []\<rparr>)"
      using FlushAll_shape [of bp] by (auto simp: batch_inv_def)
    have "batch_inv bp ((batcher srv)\<lparr>started := ss, batches := []\<rparr>)"
      by (rule batch_inv_step [OF inv batch_step.flush [OF f]])
    then show ?thesis using ok Serving Some f by (simp add: server_ok_def)
  qed
next
  case Flushed
  show ?thesis
  proof (cases "streamer srv")
    case None
    then show ?thesis using ok Flushed by simp
  next
    case (Some s)
    obtain st ts where s: "s = (st, ts)" by fastforce
    then have "machine_ok co (st, ts)" using ok Some by (simp add: server_ok_def)
    from streams_closed(1) [OF this] show ?thesis
      using ok Flushed Some by (elim exE conjE) (simp add: s server_ok_def)
  qed
next
  case ClientsClosed
  show ?thesis
  proof (cases "streamer srv")
    case None
    then show ?thesis using ok ClientsClosed by simp
  next
    case (Some s)
    obtain st ts where s: "s = (st, ts)" by fastforce
    then have "machine_ok co (st, ts)" using ok Some by (simp add: server_ok_def)
    from streams_closed(2) [OF this] show ?thesis
      using ok ClientsClosed Some by (elim exE conjE) (simp add: s server_ok_def)
  qed
qed (use assms in simp_all)

lemma exits:
  assumes "server_ok w genuine U co srv"
  shows "\<exists>srv'. (main_step w genuine U G co)\<^sup>*\<^sup>* (ph, srv) (Exited, srv')
    \<and> sends (batcher srv') = sends (batcher srv) \<and> added (batcher srv') = added (batcher srv)"
  using assms
proof (induction "calls_left ph" arbitrary: ph srv rule: less_induct)
  case less
  show ?case
  proof (cases "ph = Exited")
    case False
    from stop_section_ok [OF less.prems False] obtain ph' srv1 where
      s: "stop_section ph srv = Done (ph', srv1)" "calls_left ph' < calls_left ph" "server_ok w genuine U co srv1"
        "sends (batcher srv1) = sends (batcher srv)" "added (batcher srv1) = added (batcher srv)" by blast
    have "main_step w genuine U G co (ph, srv) (ph', srv1)" by (rule main_step.stop [OF s(1)])
    then show ?thesis using less.hyps [OF s(2,3)] s(4,5) by (metis converse_rtranclp_into_rtranclp)
  qed blast
qed

interpretation stopping: invariant_machine s0 "main_step w genuine U G co"
  "\<lambda>s. sound_world w genuine U co \<and> 1 \<le> Samples (perf w) \<and> server_ok w genuine U co (snd s0) \<longrightarrow> server_ok w genuine U co (snd s)"
  for s0 w genuine U G co
proof
  show "sound_world w genuine U co \<and> 1 \<le> Samples (perf w) \<and> server_ok w genuine U co (snd s0) \<longrightarrow> server_ok w genuine U co (snd s0)" by simp
next
  fix s s'
  assume inv: "sound_world w genuine U co \<and> 1 \<le> Samples (perf w) \<and> server_ok w genuine U co (snd s0) \<longrightarrow> server_ok w genuine U co (snd s)"
    and step: "main_step w genuine U G co s s'"
  from step show "sound_world w genuine U co \<and> 1 \<le> Samples (perf w) \<and> server_ok w genuine U co (snd s0) \<longrightarrow> server_ok w genuine U co (snd s')"
  proof (cases rule: main_step.cases)
    case (work ph srv srv')
    then show ?thesis using inv server_step_ok by auto
  next
    case (stop ph srv)
    then have "ph \<noteq> Exited" by auto
    then show ?thesis using inv stop stop_section_ok [of w genuine U co srv ph] by fastforce
  qed
qed

text \<open>
  C4. Shutting down never fails, but it does not wait for the batches. Whenever the signal comes, and
  whatever the other goroutines do between the calls of the shutdown, each call succeeds and does its part:
  no batch is left open, every registered client and every listed connection is closed. But a server that
  was told to stop can exit with the requests of its batches unanswered: from every state of the shutdown
  the remaining calls alone lead to the end of the process, with the responses that had been sent before
  and no others, and after it nothing runs; although in every such state the goroutines of the batches, had
  \<open>main\<close> waited for them, could have answered every request that was ever added.
\<close>

theorem stopping_loses_requests:
  assumes "runs w genuine U G parse_url quoting open_db new_lru f co srv0" and "sound_world w genuine U co"
    and "(main_step w genuine U G co)\<^sup>*\<^sup>* (Serving, srv0) (ph, srv)"
  shows "(ph \<noteq> Exited \<longrightarrow> (\<exists>ph' srv'. stop_section ph srv = Done (ph', srv') \<and> closes co ph srv srv'))
    \<and> (\<exists>srv'. (main_step w genuine U G co)\<^sup>*\<^sup>* (ph, srv) (Exited, srv')
         \<and> sends (batcher srv') = sends (batcher srv) \<and> added (batcher srv') = added (batcher srv)
         \<and> (\<forall>s. \<not> main_step w genuine U G co (Exited, srv') s))
    \<and> (\<forall>bp. Processor co = Some bp \<longrightarrow>
         (\<exists>b. (batch_internal bp)\<^sup>*\<^sup>* (batcher srv) b \<and> mset (map fst (sends b)) = mset (added (batcher srv))))"
proof -
  note run = running [OF assms(1,2)]
  have ok: "server_ok w genuine U co srv" using stopping.reachable [OF assms(3)] run(1,4) assms(2) by simp
  have "\<not> main_step w genuine U G co (Exited, srv') s" for srv' s by (auto elim: main_stepE)
  moreover have "\<exists>b. (batch_internal bp)\<^sup>*\<^sup>* (batcher srv) b \<and> mset (map fst (sends b)) = mset (added (batcher srv))"
    if bp: "Processor co = Some bp" for bp
  proof -
    have "can_work bp" using run(2) bp by (auto simp: can_work_def config_ok_def limits_ok_def)
    moreover have "batch_inv bp (batcher srv)" using ok bp by (simp add: server_ok_def)
    ultimately show ?thesis using drained [of bp] by blast
  qed
  ultimately show ?thesis using stop_section_ok [OF ok] exits [OF ok] by blast
qed

section \<open>Witnesses\<close>

definition server_world :: "int Config \<Rightarrow> ((string \<times> entry) list, string \<Rightarrow> entry option, int, nat, unit) world" where
  "server_world c = world_of (\<lambda>b. b) (\<lambda>l. l) (sample_tiers 10) sample_floats sample_limiter c"

abbreviation sample_runs :: "int Config \<Rightarrow> ((string \<times> entry) list, string \<Rightarrow> entry option, int, nat) server \<Rightarrow> bool" where
  "sample_runs c srv \<equiv>
     runs (server_world c) sample_answers sample_asked 4 Inr (\<lambda>s. s) (\<lambda>p. Inr Map.empty) (\<lambda>n. []) sample_file c srv"

text \<open>The sample file starts a server with one backend that streams, and batches.\<close>

definition node_of :: "int Config \<Rightarrow> bool" where
  "node_of c \<longleftrightarrow> Backends c = [sample_endpoint\<lparr>HealthUp := True\<rparr>] \<and> SubscriptionsC c = subscriptions_config None
     \<and> (\<exists>bp. Processor c = Some bp \<and> maxBatchSize bp = 10)"

lemma sample_started:
  obtains c srv where "sample_runs c srv" and "sound_world (server_world c) sample_answers sample_asked c"
    and "map Chain (Backends c) = [''1'']" and "lb (handler srv) = NewLoadBalancer sample_floats (Backends c) 1"
    and "streamer srv = Some (NewStream, [])" and "Health c = health_config None" and "node_of c"
    and "batcher srv = bp_init"
proof -
  obtain cc where p: "ParseConfig sample_floats Inr (\<lambda>s. s) sample_file = Done (assemble sample_floats sample_file cc [sample_endpoint] True, [40])"
    using sample_file_config by blast
  define c where "c = assemble sample_floats sample_file cc [sample_endpoint] True"
  have c: "ParseConfig sample_floats Inr (\<lambda>s. s) sample_file = Done (c, [40])" "HasWebSocket c"
    "map Chain (Backends c) = [''1'']"
    using p by (simp_all add: c_def assemble_simps sample_endpoint_def new_backend_def)
  have node: "node_of c"
    by (simp add: node_of_def c_def assemble_simps sample_file_def sample_endpoint_def new_backend_def batch_processor_def
        batch_config_def positive_or_def)
  have "Health c = health_config (sec_health sample_file)" by (simp add: c_def assemble_simps)
  then have health: "Health c = health_config None" by (simp add: sample_file_def)
  have on: "monitor_starts (health_config None) = Done True"
    by (simp add: monitor_starts_def health_config_def millis_def wrap64_def)
  obtain st :: "((string \<times> entry) list, string \<Rightarrow> entry option) store" where st: "Open (\<lambda>p. Inr Map.empty) (\<lambda>n. []) (CacheC c) = Inr st"
    by (cases "CEnabled (open_defaults (CacheC c))") (auto simp: Open_def Let_def)
  define srv where "srv = \<lparr>settings = c, handler = \<lparr>cstore = st, lb = NewLoadBalancer sample_floats (Backends c) 1,
      limiters = (\<lambda>k :: nat. 1 :: nat), TotalReq = 0\<rparr>, batcher = bp_init, streamer = Some (NewStream, [])\<rparr>"
  have start: "start_server sample_floats Inr (\<lambda>s. s) (\<lambda>p. Inr Map.empty) (\<lambda>n. []) (\<lambda>k. 1) 1 sample_file = Done srv"
    by (simp add: start_server_def c(1,2) st health on srv_def)
  have fresh: "fresh_tiers (sample_tiers 10) (\<lambda>p. Inr Map.empty) (\<lambda>n. [])"
    by (simp add: fresh_tiers_def holds_nothing_def sample_tiers_def)
  have w: "tiers_ops (server_world c) = sample_tiers 10" "floats (server_world c) = sample_floats"
    "hash_of (server_world c) = (\<lambda>b. b)" "fnum_of (server_world c) = (\<lambda>l. l)"
    by (simp_all add: server_world_def world_of_def)
  have "sample_runs c srv"
    unfolding runs_def w using start fresh by (intro exI conjI) (auto simp: srv_def server_world_def world_of_def)
  moreover have "length (Backends c) = 1" using arg_cong [OF c(3), of length] by simp
  then have "sound_world (server_world c) sample_answers sample_asked c"
    using lawful_sample sample_answers_relation sample_keys_tell sample_sane
    by (simp add: sound_world_def w)
  ultimately show thesis using c(3) health node by (intro that [of c srv]) (simp_all add: srv_def)
qed

lemma one_member:
  assumes "map Chain bs = [''1'']"
  shows "filter (\<lambda>i. Chain (bs ! i) = ''1'') [0..<length bs] = [0]" and "length bs = 1"
  using assms by (auto simp: map_eq_Cons_conv)



definition good_probe :: probe_result where
  "good_probe = Probed 200 [] None 5"

lemma probe_round_witness:
  "\<exists>c srv l s. sample_runs c srv
     \<and> monitor_round sample_floats (sample_tiers 10) (Health c) (Performance c) [(0, good_probe)]
         (lb (handler srv), Some (cstore (handler srv))) = Some (l, Some s)
     \<and> health (pool l ! 0) = health (markUp 2 (pool (lb (handler srv)) ! 0))"
proof -
  obtain c srv where s: "sample_runs c srv" "sound_world (server_world c) sample_answers sample_asked c"
    "map Chain (Backends c) = [''1'']" "lb (handler srv) = NewLoadBalancer sample_floats (Backends c) 1"
    "Health c = health_config None" by (rule sample_started)
  have w: "tiers_ops (server_world c) = sample_tiers 10" "floats (server_world c) = sample_floats"
    "perf (server_world c) = Performance c" by (simp_all add: server_world_def world_of_def)
  have "mset (map fst [(0, good_probe)]) = mset (monitor_targets [''1''] (lb (handler srv)))"
    using one_member [OF s(3)] by (simp add: monitor_targets_def s(4) NewLoadBalancer_def Let_def)
  from probe_round [OF s(1,2) _ this] obtain l t where
    r: "monitor_round sample_floats (sample_tiers 10) (Health c) (Performance c) [(0, good_probe)]
      (lb (handler srv), Some (cstore (handler srv))) = Some (l, Some t)"
    and h: "health (pool l ! 0) = health_after (Health c) (Some good_probe) (pool (lb (handler srv)) ! 0)"
    unfolding w using one_member(2) [OF s(3)] by auto
  have "health (pool l ! 0) = health (markUp 2 (pool (lb (handler srv)) ! 0))"
    using h by (simp add: health_after_def good_probe_def passed_def s(5) health_config_def)
  then show ?thesis using s(1) r by blast
qed


text \<open>A client that joins, and a call of it for which a connection to the node is opened.\<close>

lemma sample_picks:
  assumes "node_of c"
  shows "picks sample_floats sample_limiter c ''1'' (Done 0)"
    and "picks sample_floats sample_limiter c [] (Fail (''no backends for chain '' @ quoted []))"
proof -
  define bl where "bl = NewLoadBalancer sample_floats (Backends c) 1"
  define pe :: "(nat, unit) pick_env"
    where "pe = \<lparr>clock1 = int, clock2 = int, read1 = (!) (Backends c), read2 = (!) (Backends c), gone = None\<rparr>"
  have chain: "Chain (sample_endpoint\<lparr>HealthUp := True\<rparr>) = ''1''" by (simp add: sample_endpoint_def new_backend_def)
  have bl: "members bl = members (NewLoadBalancer sample_floats (Backends c) (seed bl))" by (simp add: bl_def NewLoadBalancer_def Let_def)
  have one: "members bl ''1'' = [0]" "weights bl ''1'' = [10]" "members bl [] = []" "weights bl [] = []"
    using assms chain by (simp_all add: bl_def NewLoadBalancer_def node_of_def Let_def upt_rec sample_floats_def)
  have "fst (PickAtLeast sample_floats sample_limiter pe pe ''1'' ''ws'' 0 (bl, (\<lambda>_. 1))) = Done 0"
    using assms one
    by (simp add: PickAtLeast_def pick_once_def select_ready_def Let_def upt_rec pe_def candidate_def node_of_def
        sample_endpoint_def new_backend_def sample_limiter_def)
  then have "pickBackend sample_floats sample_limiter pe ''1'' (bl, (\<lambda>_. 1)) = Done 0"
    by (auto simp: pickBackend_def Pick_def one)
  then show "picks sample_floats sample_limiter c ''1'' (Done 0)"
    by (rule picksI [OF bl]) (simp_all add: one pe_def wsurl_def)
  have "pickBackend sample_floats sample_limiter pe [] (bl, (\<lambda>_. 1)) = Fail (''no backends for chain '' @ quoted [])"
    by (simp add: pickBackend_def Pick_def PickAtLeast_def one)
  then show "picks sample_floats sample_limiter c [] (Fail (''no backends for chain '' @ quoted []))"
    by (rule picksI [OF bl]) (simp_all add: one)
qed

definition call_message :: Message where
  "call_message = request_message (Some (JNum ''1'')) ''eth_chainId'' None"

lemma sample_connects:
  assumes "node_of c"
  shows "\<exists>st ts. (stream_step sample_floats sample_limiter c (\<lambda>l. l) 4)\<^sup>*\<^sup>* (NewStream, []) (st, ts)
    \<and> map snd (wclients st) = [0] \<and> map snd (connections st) = [[0]]
    \<and> \<not> Cclosed (the_client st 0) \<and> \<not> Wclosed (the_conn st 0)"
proof -
  let ?step = "stream_step sample_floats sample_limiter c (\<lambda>l. l) 4"
  let ?m = call_message and ?none = "Fail (''no backends for chain '' @ quoted [])"
  have u: "wsurl c 0 = Some ''ws://node''" using assms by (simp add: node_of_def wsurl_def sample_endpoint_def new_backend_def)
  obtain st0 where a: "HandleWebSocket 5 ''/1'' NewStream = Some st0"
    and s0: "st0 = NewStream\<lparr>client_heap := [\<lparr>CID = generateClientID 5, CChain = ''1'', CSubs = [], Cclosed = False,
      lastActivity = 5, Csent = []\<rparr>], wclients := [(generateClientID 5, 0)]\<rparr>"
    by (simp add: HandleWebSocket_def chain_of_def trim_set_def code_def NewStream_def Let_def)
  have run: "?step (st, [t # rest]) (st', [t # rest][0 := new @ rest])"
    if "run_task c (\<lambda>l. l) (env_at 7 p) t st = Done (st', new)" "picks sample_floats sample_limiter c (wanted c st t) p"
    for st st' t rest new p
    by (rule stream_step.run [where env = "env_at 7 p"]) (use that in \<open>simp_all add: env_at_def\<close>)
  have pick: "picks sample_floats sample_limiter c ''1'' (Done 0)" "picks sample_floats sample_limiter c [] ?none"
    using sample_picks [OF assms] by blast+
  define st1 where "st1 = upd_client 0 (\<lambda>c. c\<lparr>lastActivity := 7\<rparr>) st0"
  define st2 where "st2 = st1\<lparr>conn_heap := [\<lparr>WBackend = 0, WSubs = [], Wclosed = False, lastPing = 7, lastPong = 7,
      messageCount = 0, Wsent = []\<rparr>], connections := [(''ws://node'', [0])]\<rparr>"
  have limit: "0 < MaxConnectionsPerBackend (SubscriptionsC c)"
    using assms by (simp add: node_of_def subscriptions_config_def)
  have "?step (NewStream, []) (st0, [])" by (rule stream_step.accept [OF a])
  moreover have "?step (st0, []) (st0, [[Dispatching 0 ?m]])"
    using stream_step.start [of st0 "Dispatching 0 ?m" "[]" 4] by (simp add: s0 busy_def)
  moreover have "?step (st0, [[Dispatching 0 ?m]]) (st1, [[Calling 0 ?m]])"
    using run [of ?none "Dispatching 0 ?m" st0 st1 "[Calling 0 ?m]" "[]"] pick(2)
    by (simp add: handleClientMessage_def st1_def env_at_def call_message_def request_message_def)
  moreover have "?step (st1, [[Calling 0 ?m]]) (st1, [[Connecting (ForCall 0 ?m) 0]])"
    using run [of "Done 0" "Calling 0 ?m" st1 st1 "[Connecting (ForCall 0 ?m) 0]" "[]"] pick(1)
    by (simp add: handleRPCCall_def env_at_def st1_def s0 upd_client_def)
  moreover have "?step (st1, [[Connecting (ForCall 0 ?m) 0]]) (st1, [[Choosing (ForCall 0 ?m) 0 []]])"
    using run [of ?none "Connecting (ForCall 0 ?m) 0" st1 st1 "[Choosing (ForCall 0 ?m) 0 []]" "[]"] pick(2) u
    by (simp add: getOrCreateWSConnection_def with_url_def st1_def s0 upd_client_def conns_at_def NewStream_def)
  moreover have "?step (st1, [[Choosing (ForCall 0 ?m) 0 []]]) (st1, [[Dialing (ForCall 0 ?m) 0]])"
    using run [of ?none "Choosing (ForCall 0 ?m) 0 []" st1 st1 "[Dialing (ForCall 0 ?m) 0]" "[]"] pick(2) limit
    by (simp add: choose_connection_def)
  moreover have "?step (st1, [[Dialing (ForCall 0 ?m) 0]]) (st2, [[SendingCall 0 ?m 0]])"
    using run [of ?none "Dialing (ForCall 0 ?m) 0" st1 st2 "[SendingCall 0 ?m 0]" "[]"] pick(2) u
    by (simp add: createWSConnection_def with_url_def env_at_def st2_def st1_def s0 upd_client_def conns_at_def NewStream_def)
  ultimately have "?step\<^sup>*\<^sup>* (NewStream, []) (st2, [[SendingCall 0 ?m 0]])" by (meson converse_rtranclp_into_rtranclp rtranclp.rtrancl_refl)
  moreover have "map snd (wclients st2) = [0] \<and> map snd (connections st2) = [[0]]
      \<and> \<not> Cclosed (the_client st2 0) \<and> \<not> Wclosed (the_conn st2 0)"
    by (simp add: st2_def st1_def s0 upd_client_def)
  ultimately show ?thesis by (elim conjE) (intro exI conjI)
qed

text \<open>The steps of the stream are steps of the server.\<close>

lemma server_streams:
  assumes "(stream_step (floats w) (limits w) co (fnum_of w) G)\<^sup>*\<^sup>* s s'" and "streamer srv = Some s"
  shows "(server_step w genuine U G co)\<^sup>*\<^sup>* srv (srv\<lparr>streamer := Some s'\<rparr>)"
  using assms(1)
proof (induction rule: rtranclp_induct)
  case base
  have "srv\<lparr>streamer := Some s\<rparr> = srv" using assms(2) by (cases srv) simp
  then show ?case by simp
next
  case (step s1 s2)
  have "server_step w genuine U G co (srv\<lparr>streamer := Some s1\<rparr>) (srv\<lparr>streamer := Some s2\<rparr>)"
    using server_step.streamed [of "srv\<lparr>streamer := Some s1\<rparr>" s1 w co G s2 genuine U] step.hyps(2) by simp
  then show ?case using step.IH by (rule rtranclp.rtrancl_into_rtrancl [rotated])
qed

text \<open>
  A server with a client, a connection to its node and a request that waits in an open batch: when it is
  told to stop, it can exit without having answered that request.
\<close>

lemma stopping_loses_requests_witness:
  "\<exists>c srv srv' st ts. sample_runs c srv \<and> streamer srv = Some (st, ts)
     \<and> map snd (wclients st) = [0] \<and> map snd (connections st) = [[0]] \<and> batches (batcher srv) = [(''u'', 0)]
     \<and> (main_step (server_world c) sample_answers sample_asked 4 c)\<^sup>*\<^sup>* (Serving, srv) (Exited, srv')
     \<and> map caller (added (batcher srv')) = [5] \<and> sends (batcher srv') = []"
proof -
  obtain c srv0 where s: "sample_runs c srv0" "sound_world (server_world c) sample_answers sample_asked c"
    "streamer srv0 = Some (NewStream, [])" "node_of c" "batcher srv0 = bp_init" by (rule sample_started)
  let ?w = "server_world c"
  let ?step = "server_step ?w sample_answers sample_asked 4 c"
  have w: "floats ?w = sample_floats" "limits ?w = sample_limiter" "fnum_of ?w = (\<lambda>l. l)"
    by (simp_all add: server_world_def world_of_def)
  obtain st ts where st: "(stream_step sample_floats sample_limiter c (\<lambda>l. l) 4)\<^sup>*\<^sup>* (NewStream, []) (st, ts)"
    "map snd (wclients st) = [0]" "map snd (connections st) = [[0]]" using sample_connects [OF s(4)] by (elim exE conjE) (rule that)
  define srv1 where "srv1 = srv0\<lparr>streamer := Some (st, ts)\<rparr>"
  have one: "?step\<^sup>*\<^sup>* srv0 srv1" unfolding srv1_def by (rule server_streams) (use s(3) st(1) w in simp_all)
  obtain bp where bp: "Processor c = Some bp" "maxBatchSize bp = 10" using s(4) by (auto simp: node_of_def)
  obtain b where b: "AddRequest bp ''u'' 5 head_request bp_init = Some b"
    and open_now: "batches b = [(''u'', 0)]" "map caller (added b) = [5]" "sends b = []"
    using bp(2) by (simp add: AddRequest_def append_entry_def bp_init_def Let_def rangeScans_def head_request_def)
  have "batch_step bp (batcher srv1) b" using b by (intro batch_step.add) (simp_all add: srv1_def s(5) bp_init_def)
  then have "?step srv1 (srv1\<lparr>batcher := b\<rparr>)" by (rule server_step.batched [OF bp(1)])
  then have "?step\<^sup>*\<^sup>* srv0 (srv1\<lparr>batcher := b\<rparr>)" using one by simp
  then have r: "sample_runs c (srv1\<lparr>batcher := b\<rparr>)" by (rule runs_further [OF s(1)])
  from stopping_loses_requests [OF r s(2) rtranclp.rtrancl_refl] obtain srv' where
    e: "(main_step ?w sample_answers sample_asked 4 c)\<^sup>*\<^sup>* (Serving, srv1\<lparr>batcher := b\<rparr>) (Exited, srv')"
      "sends (batcher srv') = sends b" "added (batcher srv') = added b" by auto
  show ?thesis
    using r e open_now st(2,3) by (intro exI [of _ c] exI [of _ "srv1\<lparr>batcher := b\<rparr>"] exI [of _ srv'] exI [of _ st] exI [of _ ts]) (simp add: srv1_def)
qed

end
