(* ===== verification/Spec2Isabelle.thy ===== *)
theory Spec2Isabelle
  imports Head_Register Batch_Transparency Batch_Machine Cache_Truth Balancer Router_Truth Config
    Stream_Heads Stream_Limits Stream_Loops Stream_Delivery Server
begin

text \<open>
  sabre: a JSON-RPC load balancer and cache for Ethereum nodes.

  \<^bold>\<open>The program.\<close> sabre takes JSON-RPC requests on the path of a chain, answers them from a cache or from
  one of the nodes configured for the chain, and keeps what it may. Requests of many clients to one node
  are collected into batches, and the calls of contracts in a batch into one call of the Multicall3
  contract. Clients may also connect with a WebSocket and subscribe to the heads and logs of a chain,
  which come from the nodes over shared connections. A monitor probes the nodes; its results and the
  latencies of replies weigh the choice of a node. All implementation files are under
  \<open>src/internal/backend\<close>, \<open>src/internal/router\<close> and \<open>src/cmd/sabre\<close>.

  \<^bold>\<open>Conventions.\<close> \<open>Sabre_Prelude\<close>: \<open>uint64\<close> is \<open>64 word\<close>, a signed 64-bit integer is an \<open>int\<close> that is wrapped
  by \<open>wrap64\<close> wherever the code can overflow it, a panic, an error and a result are the three values of
  \<open>outcome\<close>, and a function that has no error but may panic returns an \<open>option\<close>. \<open>Go_Text\<close> and \<open>Go_Json\<close> model
  what is used of \<open>strings\<close>, \<open>strconv\<close>, \<open>encoding/hex\<close> and \<open>encoding/json\<close>; a \<open>json.RawMessage\<close> is a \<open>raw\<close>, the
  value of a JSON text or None where it is absent. \<open>Rpc_Types\<close> has the messages of the pipeline. A Go map is
  a function or an association list, the latter where the order of an iteration may matter.

  \<^bold>\<open>Parts.\<close>
    \<^item> \<open>Block_Info\<close> (\<open>head.go\<close>, the inspection functions of \<open>cache.go\<close>): which block a request needs, which block
      a response is about, whether a response may be kept and whether it says that a block is missing.
    \<^item> \<open>Head_Register\<close> (\<open>backend.go\<close>): \<open>ObserveHead\<close> and \<open>HeadBelow\<close> as compare-and-swap loops whose atomic steps
      interleave; every interleaving is equivalent to the effective calls one after the other.
    \<^item> \<open>Aggregate3\<close>, \<open>Multicall\<close> (\<open>multicall.go\<close>): the ABI codec with every slice bound and every wrap-around, and
      the aggregation and expansion of calls. Lemmas: round trips of the codec, no panic on replies whose
      offsets do not wrap and a panic on one that does, the aggregation drops and duplicates no request and
      sends each.
    \<^item> \<open>Batch\<close>, \<open>Batch_Transparency\<close>, \<open>Batch_Machine\<close> (\<open>batch.go\<close>): what is done with the entries of one batch; that
      in front of an honest node every caller whose call the program reads as a node does (\<open>plain_params\<close>) gets
      the answer to its own request; and the callers, timers, workers and flushes as a machine, with its
      invariant and the proof that it answers everyone.
    \<^item> \<open>Cache_Policy\<close>, \<open>Reorg\<close>, \<open>Cache_Keys\<close>, \<open>Cache_Store\<close>, \<open>Cache_Serve\<close> (\<open>cache.go\<close>): lifetimes, the tracker of block
      hashes, keys, the two tiers, and the operations the router calls. \<open>Cache_Truth\<close> and \<open>Cache_Answers\<close>: what is
      served is an answer to the request of the key, also for multicalls served in part or whole.
    \<^item> \<open>Balancer\<close> (\<open>balancer.go\<close>): the choice of a node, latencies, weights, probes; the balancer as a machine.
      \<open>Nodes\<close>: the contract of whatever calls it, a locale that is interpreted on the bounds of weights and
      on the identity of the nodes, and proved for the operations of router and monitor.
    \<^item> \<open>Router_Batch\<close>, \<open>Router\<close> (\<open>router.go\<close>): batches, headers, attempts, the handler. \<open>Router_Truth\<close>: what a response of
      status 200 carries, and when a failure reaches the client. Answers are results or errors under the
      identifier of the request; single eth_calls that are multicalls or immutable reads are left to
      \<open>Cache_Truth\<close>, and identifiers that the encoder rewrites (\<open>plain_id\<close>) are left out.
    \<^item> \<open>Config\<close> (\<open>config.go\<close>): the defaults, the backends the providers give rise to, the checks; what an accepted
      configuration guarantees the other parts.
    \<^item> \<open>Stream\<close> (\<open>stream.go\<close>): clients, connections and subscriptions live in heaps, as the code shares them by
      pointer. A handler is cut into sections at the points where it takes or releases a lock; the type
      \<open>task\<close> names them, \<open>run_task\<close> runs one. \<open>Stream_Machine\<close>: the machine that interleaves the sections of all
      goroutines, and what identifies an object. \<open>Stream_Safety\<close>: every section keeps the state well-formed.
      \<open>Stream_Isolation\<close>: who is sent what, and where what is passed on comes from. \<open>Stream_Heads\<close>: which heads are
      news. \<open>Stream_Limits\<close>: handlers end, connections are limited. \<open>Stream_Loops\<close>: the loops of the goroutines, as a
      refinement of the machine in which the rounds of loops start of themselves, and that goroutines end
      with their connections. \<open>Stream_Delivery\<close>: who is reached, and how subscriptions survive a backend.
      \<open>Stream_Samples\<close>: a concrete run.
    \<^item> \<open>Server\<close> (\<open>main.go\<close>, the dispatcher of \<open>router.go\<close>, \<open>Monitor\<close> of \<open>balancer.go\<close>): start from a configuration file, the
      dispatch of requests and connections, rounds of probes, and the machine of the whole server, whose
      reachable states have the invariants of all components. What a request needs of the rest of the program
      while it is under way (\<open>fair\<close>) is what other requests and probes give it. The machine of the process
      (\<open>main_step\<close>) adds the shutdown, call by call (\<open>stop_section\<close>), and the exit: \<open>main\<close> returns when the listener
      is closed, so that what the batches still had to answer is lost.
    \<^item> \<open>Machines\<close>: the locales of a machine with an invariant and of one that makes progress, interpreted on
      the balancer, the batch processor, the router, the stream and the server.

  \<^bold>\<open>Parameters.\<close> Code that is not in the repository is an argument. \<open>H\<close> is the digest function; where the
  truth of the cache rests on it, the keys in use are assumed to be told apart. \<open>float64\<close> is a record of
  operations; of its order only two comparisons of constants are assumed. The limiter, the LRU and the
  durable store are records of operations, the last two with the laws of a map that may forget
  (\<open>lawful\<close>). \<open>fnum\<close> prints numbers the way \<open>json.Marshal\<close> does. URLs are parsed by an argument, the
  configuration file comes in as the tables the TOML library decodes. A node, a client or a socket is a
  function or a field of an environment: what it answers is free unless a property says otherwise. Every
  such hypothesis is met by the samples of a witness.

  \<^bold>\<open>Bounds and fuel.\<close> Loops are structural recursions on what they iterate over, the attempts of the router on
  the number that is left; there is no fuel. The stream runs at most \<open>G\<close> handlers at a time, for any \<open>G\<close>; a
  configuration has fewer than \<open>2 ^ 64\<close> backends, as its slice has an \<open>int\<close> length.

  \<^bold>\<open>Abstractions.\<close> A section of a handler is atomic. In \<open>Stream_Machine\<close> a client may have several requests under way
  and a connection several messages, as rounds of loops start of themselves (\<open>starts\<close>); \<open>Stream_Loops\<close> has the loops,
  each with one reading goroutine, and proves that every run of it is a run of \<open>Stream_Machine\<close>. A message is
  the value it decodes to, so that the text of a message is not; what is handed to a socket is recorded, not
  what the library makes of it. Slices of the code that share an array are values here: \<open>choose_connection\<close>
  looks at the connections of a URL as they were listed, while the code may meet the list shortened in place.
  The fallback of \<open>PickAtLeast\<close> uses the weights as they were first read. Unsynchronized accesses
  (\<open>closeWSConnection\<close> and \<open>removeClient\<close> delete from the map of subscriptions without its lock) are atomic here, while
  Go gives them no meaning. Logging is left out, and so are deadlines and timers: a timer may fire at any time.

  \<^bold>\<open>Not modelled.\<close> \<open>mock.go\<close>, a stand-in for nodes in the tests. Of \<open>main.go\<close> the flags, the signals, the profiler
  and the meter drawn on the terminal. The transport settings of \<open>config.go\<close> and the options of the
  durable store. TOML, HTTP, TLS, WebSocket, compression and the file system are libraries.
\<close>

end
